(* ===== verification/Prelude.thy ===== *)
theory Prelude
  imports Main "HOL-Library.AList" "HOL-Library.List_Lexorder" "HOL-Library.Char_ord"
begin

text \<open>
  Shared vocabulary of the development: results of fallible calls, Go maps as association
  lists, and the interface of encoders with a left inverse that the base64, JSON, disclosure
  and token layers all provide.

  \<^item> A Go string or byte slice is a HOL \<open>string\<close>: a \<open>char\<close> is a byte.
  \<^item> A call that returns \<open>(value, error)\<close> is a value of a sum type, \<open>Inl\<close> the error.
  \<^item> A Go map is an association list with distinct keys. The order of the list is the order
    in which this run's \<open>range\<close> statement visits the map, which Go leaves unspecified: a
    theorem for every list holds for every iteration order. \<open>AList.update\<close> is the assignment
    \<open>m[k] = v\<close>, \<open>map_of m k\<close> the lookup, \<open>AList.delete\<close> the builtin \<open>delete\<close>.
\<close>

named_theorems codec_laws \<open>left-inverse laws of the encoders\<close>
named_theorems result_simps \<open>evaluation of the result combinators\<close>

section \<open>Results\<close>

definition res_bind :: "'e + 'a \<Rightarrow> ('a \<Rightarrow> 'e + 'b) \<Rightarrow> 'e + 'b" where
  "res_bind r f = (case r of Inl e \<Rightarrow> Inl e | Inr x \<Rightarrow> f x)"

definition map_err :: "('e \<Rightarrow> 'f) \<Rightarrow> 'e + 'a \<Rightarrow> 'f + 'a" where
  "map_err g r = (case r of Inl e \<Rightarrow> Inl (g e) | Inr x \<Rightarrow> Inr x)"

definition of_option :: "'e \<Rightarrow> 'a option \<Rightarrow> 'e + 'a" where
  "of_option e r = (case r of None \<Rightarrow> Inl e | Some x \<Rightarrow> Inr x)"

lemma res_bind_simps [simp, result_simps]:
  "res_bind (Inl e) f = Inl e"
  "res_bind (Inr x) f = f x"
  by (simp_all add: res_bind_def)

lemma map_err_simps [simp, result_simps]:
  "map_err g (Inl e) = Inl (g e)"
  "map_err g (Inr x) = Inr x"
  by (simp_all add: map_err_def)

lemma of_option_simps [simp, result_simps]:
  "of_option e None = Inl e"
  "of_option e (Some x) = Inr x"
  by (simp_all add: of_option_def)

lemma res_bind_Inr_iff: "res_bind r f = Inr y \<longleftrightarrow> (\<exists>x. r = Inr x \<and> f x = Inr y)"
  by (cases r) auto

lemma res_bind_Inl_iff:
  "res_bind r f = Inl e \<longleftrightarrow> r = Inl e \<or> (\<exists>x. r = Inr x \<and> f x = Inl e)"
  by (cases r) auto

lemma map_err_Inr_iff [simp]: "map_err g r = Inr x \<longleftrightarrow> r = Inr x"
  by (cases r) auto

lemma map_err_Inl_iff: "map_err g r = Inl e \<longleftrightarrow> (\<exists>e'. r = Inl e' \<and> e = g e')"
  by (cases r) auto

lemma of_option_Inr_iff [simp]: "of_option e r = Inr x \<longleftrightarrow> r = Some x"
  by (cases r) auto

lemma of_option_Inl_iff [simp]: "of_option e r = Inl e' \<longleftrightarrow> r = None \<and> e' = e"
  by (cases r) auto

section \<open>Go maps as association lists\<close>

definition keys :: "('k \<times> 'v) list \<Rightarrow> 'k set" where
  "keys m = fst ` set m"

lemma keys_Nil [simp]: "keys [] = {}"
  by (simp add: keys_def)

lemma keys_Cons [simp]: "keys (kv # m) = insert (fst kv) (keys m)"
  by (simp add: keys_def)

lemma keys_append [simp]: "keys (m @ m') = keys m \<union> keys m'"
  by (simp add: keys_def image_Un)

lemma keys_iff: "k \<in> keys m \<longleftrightarrow> map_of m k \<noteq> None"
  by (induction m) auto

lemma keys_update [simp]: "keys (AList.update k v m) = insert k (keys m)"
  by (induction m) auto

lemma keys_delete [simp]: "keys (AList.delete k m) = keys m - {k}"
  by (induction m) auto

lemma map_of_update [simp]: "map_of (AList.update k v m) = (map_of m)(k \<mapsto> v)"
  by (rule ext) (simp add: AList.update_conv)

lemma map_of_delete [simp]: "map_of (AList.delete k m) = (map_of m)(k := None)"
  by (rule ext) (simp add: AList.delete_conv)

lemma update_new: "k \<notin> keys m \<Longrightarrow> AList.update k v m = m @ [(k, v)]"
  by (induction m) auto

lemma distinct_keys_update [simp]:
  "distinct (map fst m) \<Longrightarrow> distinct (map fst (AList.update k v m))"
  by (rule AList.distinct_update)

lemma distinct_keys_delete [simp]:
  "distinct (map fst m) \<Longrightarrow> distinct (map fst (AList.delete k m))"
  by (rule AList.distinct_delete)

lemma map_of_sort_key:
  assumes "distinct (map fst m)"
  shows "map_of (sort_key fst m) = map_of m"
proof -
  have "set (sort_key fst m) = set m" "distinct (map fst (sort_key fst m))"
    using assms by (simp_all add: distinct_map)
  then show ?thesis
    using assms by (metis map_of_inject_set)
qed

text \<open>Building a map by assignments in the order of a list with distinct keys gives the list.\<close>

definition assign_all :: "('k \<times> 'v) list \<Rightarrow> ('k \<times> 'v) list \<Rightarrow> ('k \<times> 'v) list" where
  "assign_all m kvs = foldl (\<lambda>acc (k, v). AList.update k v acc) m kvs"

lemma assign_all_simps [simp]:
  "assign_all m [] = m"
  "assign_all m ((k, v) # r) = assign_all (AList.update k v m) r"
  by (simp_all add: assign_all_def)

lemma assign_all_append: "assign_all m (a @ b) = assign_all (assign_all m a) b"
  by (simp add: assign_all_def)

lemma assign_all_new:
  "distinct (map fst kvs) \<Longrightarrow> keys m \<inter> keys kvs = {} \<Longrightarrow> assign_all m kvs = m @ kvs"
proof (induction kvs arbitrary: m)
  case Nil
  then show ?case by simp
next
  case (Cons kv r)
  obtain k v where kv: "kv = (k, v)" by (cases kv)
  have k: "k \<notin> keys r" using Cons.prems(1) kv by (auto simp: keys_def)
  have "assign_all (m @ [(k, v)]) r = (m @ [(k, v)]) @ r"
    using Cons.prems kv k by (intro Cons.IH) auto
  then show ?case using Cons.prems(2) kv by (simp add: update_new)
qed

lemma distinct_assign_all:
  "distinct (map fst m) \<Longrightarrow> distinct (map fst (assign_all m kvs))"
  by (induction kvs arbitrary: m) auto

lemma map_of_assign_all: "map_of (assign_all m kvs) = map_of m ++ map_of (rev kvs)"
  by (induction kvs arbitrary: m) (auto simp: map_add_def fun_eq_iff split: option.splits)

lemma keys_assign_all [simp]: "keys (assign_all m kvs) = keys m \<union> keys kvs"
  by (induction kvs arbitrary: m) auto

lemma set_update_subset: "set (AList.update k v m) \<subseteq> insert (k, v) (set m)"
  by (induction m) auto

lemma set_assign_all: "set (assign_all m kvs) \<subseteq> set m \<union> set kvs"
proof (induction kvs arbitrary: m)
  case (Cons kv r)
  then show ?case using set_update_subset [of "fst kv" "snd kv" m]
    by (cases kv) fastforce
qed simp

section \<open>Encoders with a left inverse\<close>

text \<open>
  The contract of every wire format of the program: what the decoder returns on the output of
  the encoder. \<open>ok\<close> is the set of values the format carries, \<open>view\<close> what the decoder makes of
  such a value (JSON turns integers into floats, so a decoder need not return its input).
\<close>

locale codec =
  fixes enc :: "'a \<Rightarrow> 'w"
    and dec :: "'w \<Rightarrow> 'b option"
    and ok :: "'a \<Rightarrow> bool"
    and view :: "'a \<Rightarrow> 'b"
  assumes dec_enc: "ok x \<Longrightarrow> dec (enc x) = Some (view x)"
begin

lemma enc_eq_view: "ok x \<Longrightarrow> ok y \<Longrightarrow> enc x = enc y \<Longrightarrow> view x = view y"
  using dec_enc by (metis option.inject)

lemma dec_enc_not_None: "ok x \<Longrightarrow> dec (enc x) \<noteq> None"
  using dec_enc by simp

lemma dec_eqD: "ok x \<Longrightarrow> dec (enc x) = Some v \<Longrightarrow> v = view x"
  using dec_enc by simp

end

text \<open>A format whose decoder returns exactly the encoded value; its encoder is injective.\<close>

locale exact_codec = codec enc dec ok "\<lambda>x. x"
  for enc :: "'a \<Rightarrow> 'w" and dec :: "'w \<Rightarrow> 'a option" and ok :: "'a \<Rightarrow> bool"
begin

lemma enc_inj: "ok x \<Longrightarrow> ok y \<Longrightarrow> enc x = enc y \<longleftrightarrow> x = y"
  using enc_eq_view by blast

lemma enc_inj_on: "inj_on enc {x. ok x}"
  by (auto intro!: inj_onI simp: enc_inj)

end

end
