(* ===== verification/Go_Bytes.thy ===== *)
theory Go_Bytes
  imports Prelude "HOL-Library.Sublist"
begin

text \<open>
  What the program uses of Go's \<open>strings\<close>, \<open>encoding/base64\<close>, \<open>strconv\<close> and \<open>math/big\<close>:
  \<open>Split\<close>, \<open>SplitN\<close>, \<open>Join\<close>, \<open>HasPrefix\<close>, \<open>RawURLEncoding\<close> (encoder and the lenient decoder of
  the standard library), decimal printing, \<open>big.Int.SetBytes\<close> and \<open>big.Int.Int64\<close>, and 64-bit
  two's-complement wrap-around. The lemmas are the round trips these functions owe the layers
  above.
\<close>

type_synonym bytes = string

abbreviation byte_val :: "char \<Rightarrow> nat" where
  "byte_val c \<equiv> of_char c"

lemma byte_val_less [simp]: "byte_val c < 256"
  by (rule nat_of_char_less_256)

lemma char_of_byte_val [simp]: "(char_of (byte_val c) :: char) = c"
  by simp

lemma byte_val_char_of: "n < 256 \<Longrightarrow> byte_val (char_of n) = n"
  by simp

section \<open>Splitting and joining\<close>

text \<open>\<open>strings.Join(parts, sep)\<close> for a one-byte separator.\<close>

fun join :: "'a \<Rightarrow> 'a list list \<Rightarrow> 'a list" where
  "join s [] = []"
| "join s [p] = p"
| "join s (p # q # r) = p @ s # join s (q # r)"

text \<open>\<open>strings.Split(raw, sep)\<close>: every separator cuts; a string without one is its only part.\<close>

fun split :: "'a \<Rightarrow> 'a list \<Rightarrow> 'a list list" where
  "split s [] = [[]]"
| "split s (c # cs) =
     (if c = s then [] # split s cs
      else (case split s cs of [] \<Rightarrow> [[c]] | p # ps \<Rightarrow> (c # p) # ps))"

text \<open>\<open>strings.SplitN(raw, sep, n)\<close> for \<open>n > 0\<close>: at most \<open>n\<close> parts, the last one uncut.\<close>

fun splitN :: "'a \<Rightarrow> nat \<Rightarrow> 'a list \<Rightarrow> 'a list list" where
  "splitN s n [] = [[]]"
| "splitN s n (c # cs) =
     (if n \<le> 1 then [c # cs]
      else if c = s then [] # splitN s (n - 1) cs
      else (case splitN s n cs of [] \<Rightarrow> [[c]] | p # ps \<Rightarrow> (c # p) # ps))"

lemma split_not_Nil [simp]: "split s cs \<noteq> []"
  by (induction cs) (auto split: list.splits)

lemma splitN_not_Nil [simp]: "splitN s n cs \<noteq> []"
  by (induction s n cs rule: splitN.induct) (auto split: list.splits)

lemma split_no_sep: "s \<notin> set cs \<Longrightarrow> split s cs = [cs]"
  by (induction cs) auto

lemma splitN_no_sep: "s \<notin> set cs \<Longrightarrow> splitN s n cs = [cs]"
  by (induction s n cs rule: splitN.induct) auto

lemma split_append: "s \<notin> set p \<Longrightarrow> split s (p @ s # cs) = p # split s cs"
  by (induction p) auto

lemma splitN_append:
  "s \<notin> set p \<Longrightarrow> 1 < n \<Longrightarrow> splitN s n (p @ s # cs) = p # splitN s (n - 1) cs"
  by (induction p) auto

lemma splitN_1: "splitN s (Suc 0) cs = [cs]"
  by (cases cs) auto

lemma join_Cons: "ps \<noteq> [] \<Longrightarrow> join s (p # ps) = p @ s # join s ps"
  by (cases ps) auto

lemma split_join:
  "ps \<noteq> [] \<Longrightarrow> \<forall>p \<in> set ps. s \<notin> set p \<Longrightarrow> split s (join s ps) = ps"
proof (induction ps rule: join.induct)
  case (3 s p q r)
  then show ?case by (simp add: split_append)
qed (auto simp: split_no_sep)

lemma join_split: "join s (split s cs) = cs"
proof (induction cs)
  case (Cons c cs)
  show ?case
  proof (cases "split s cs")
    case (Cons p ps)
    then show ?thesis using Cons.IH by (cases ps) (auto simp: join_Cons)
  qed simp
qed simp

lemma split_parts_no_sep: "p \<in> set (split s cs) \<Longrightarrow> s \<notin> set p"
proof (induction cs arbitrary: p)
  case (Cons c cs)
  then show ?case by (cases "split s cs") (auto split: if_splits)
qed auto

lemma split_inj: "split s a = split s b \<Longrightarrow> a = b"
  by (metis join_split)

lemma join_splitN: "0 < n \<Longrightarrow> join s (splitN s n cs) = cs"
proof (induction s n cs rule: splitN.induct)
  case (2 s n c cs)
  show ?case
  proof (cases "n \<le> 1")
    case False
    then show ?thesis
      using 2 by (cases "c = s") (auto simp: join_Cons split: list.splits elim!: join.elims)
  qed simp
qed simp

lemma split_3:
  assumes "s \<notin> set a" "s \<notin> set b"
  shows "splitN s 3 (a @ s # b @ s # c) = [a, b, c]"
  using assms by (simp add: splitN_append splitN_1 numeral_2_eq_2)

section \<open>base64.RawURLEncoding\<close>

text \<open>The alphabet \<open>A..Z a..z 0..9 - _\<close> of the URL-safe encoding, by position.\<close>

definition b64_char :: "nat \<Rightarrow> char" where
  "b64_char n =
     char_of (if n < 26 then n + 65 else if n < 52 then n + 71
              else if n < 62 then n - 4 else if n = 62 then 45 else 95)"

text \<open>The value of an alphabet byte, \<open>None\<close> for every other byte (padding included).\<close>

definition b64_val :: "char \<Rightarrow> nat option" where
  "b64_val c =
     (let n = byte_val c in
      if 65 \<le> n \<and> n \<le> 90 then Some (n - 65)
      else if 97 \<le> n \<and> n \<le> 122 then Some (n - 71)
      else if 48 \<le> n \<and> n \<le> 57 then Some (n + 4)
      else if n = 45 then Some 62
      else if n = 95 then Some 63
      else None)"

text \<open>\<open>EncodeToString\<close>: three bytes to four characters, no padding on the last group.\<close>

fun b64_enc :: "bytes \<Rightarrow> string" where
  "b64_enc [] = []"
| "b64_enc [a] =
     (let x = byte_val a in [b64_char (x div 4), b64_char (x mod 4 * 16)])"
| "b64_enc [a, b] =
     (let x = byte_val a; y = byte_val b in
      [b64_char (x div 4), b64_char (x mod 4 * 16 + y div 16), b64_char (y mod 16 * 4)])"
| "b64_enc (a # b # c # r) =
     (let x = byte_val a; y = byte_val b; z = byte_val c in
      b64_char (x div 4) # b64_char (x mod 4 * 16 + y div 16)
        # b64_char (y mod 16 * 4 + z div 64) # b64_char (z mod 64) # b64_enc r)"

text \<open>
  \<open>DecodeString\<close>: carriage returns and newlines are skipped wherever they stand, any other
  byte outside the alphabet is an error, a last group of one character is an error, and (the
  encoding is not \<open>Strict\<close>) the unused low bits of a last group of two or three characters are
  ignored.
\<close>

definition b64_byte1 :: "nat \<Rightarrow> nat \<Rightarrow> char" where
  "b64_byte1 a b = char_of (a * 4 + b div 16)"

definition b64_byte2 :: "nat \<Rightarrow> nat \<Rightarrow> char" where
  "b64_byte2 b c = char_of (b mod 16 * 16 + c div 4)"

definition b64_byte3 :: "nat \<Rightarrow> nat \<Rightarrow> char" where
  "b64_byte3 c d = char_of (c mod 4 * 64 + d)"

fun b64_quads :: "nat list \<Rightarrow> bytes option" where
  "b64_quads [] = Some []"
| "b64_quads [a] = None"
| "b64_quads [a, b] = Some [b64_byte1 a b]"
| "b64_quads [a, b, c] = Some [b64_byte1 a b, b64_byte2 b c]"
| "b64_quads (a # b # c # d # r) =
     map_option (\<lambda>t. b64_byte1 a b # b64_byte2 b c # b64_byte3 c d # t) (b64_quads r)"

fun b64_vals :: "string \<Rightarrow> nat list option" where
  "b64_vals [] = Some []"
| "b64_vals (c # cs) =
     (if c = CHR 0x0A \<or> c = CHR 0x0D then b64_vals cs
      else (case b64_val c of None \<Rightarrow> None | Some n \<Rightarrow> map_option ((#) n) (b64_vals cs)))"

definition b64_dec :: "string \<Rightarrow> bytes option" where
  "b64_dec s = Option.bind (b64_vals s) b64_quads"

lemma byte_val_b64_char:
  "n < 64 \<Longrightarrow> byte_val (b64_char n) =
     (if n < 26 then n + 65 else if n < 52 then n + 71
      else if n < 62 then n - 4 else if n = 62 then 45 else 95)"
  by (simp add: b64_char_def)

lemma b64_val_char: "n < 64 \<Longrightarrow> b64_val (b64_char n) = Some n"
  by (auto simp: b64_val_def Let_def byte_val_b64_char)

lemma char_neq_by_val: "byte_val c \<noteq> byte_val d \<Longrightarrow> c \<noteq> d"
  by auto

text \<open>The alphabet holds neither line breaks nor the separators of JWTs and of presentations.\<close>

definition b64_safe :: "char \<Rightarrow> bool" where
  "b64_safe c \<longleftrightarrow> c \<noteq> CHR 0x0A \<and> c \<noteq> CHR 0x0D \<and> c \<noteq> CHR ''.'' \<and> c \<noteq> CHR ''~''"

lemma b64_safe_char: "n < 64 \<Longrightarrow> b64_safe (b64_char n)"
  unfolding b64_safe_def
  by (intro conjI char_neq_by_val; auto simp: byte_val_b64_char simp del: of_char_eq_iff)

lemma b64_vals_char:
  "n < 64 \<Longrightarrow> b64_vals (b64_char n # cs) = map_option ((#) n) (b64_vals cs)"
  using b64_safe_char [of n] by (simp add: b64_val_char b64_safe_def)

lemma group_bounds:
  "x < 256 \<Longrightarrow> x div 4 < 64"
  "y < 256 \<Longrightarrow> x mod 4 * 16 + y div 16 < 64"
  "x mod 4 * 16 < 64"
  "z < 256 \<Longrightarrow> y mod 16 * 4 + z div 64 < 64"
  "y mod 16 * 4 < 64"
  "z mod 64 < 64" for x y z :: nat
  by auto

lemma regroup:
  fixes x y z :: nat
  assumes "y < 256" "z < 256"
  shows "x div 4 * 4 + (x mod 4 * 16 + y div 16) div 16 = x"
    and "x div 4 * 4 + x mod 4 * 16 div 16 = x"
    and "(x mod 4 * 16 + y div 16) mod 16 * 16 + (y mod 16 * 4 + z div 64) div 4 = y"
    and "(x mod 4 * 16 + y div 16) mod 16 * 16 + y mod 16 * 4 div 4 = y"
    and "(y mod 16 * 4 + z div 64) mod 4 * 64 + z mod 64 = z"
proof -
  have "y div 16 < 16" "z div 64 < 4" using assms by auto
  then show "x div 4 * 4 + (x mod 4 * 16 + y div 16) div 16 = x"
    and "x div 4 * 4 + x mod 4 * 16 div 16 = x"
    and "(x mod 4 * 16 + y div 16) mod 16 * 16 + (y mod 16 * 4 + z div 64) div 4 = y"
    and "(x mod 4 * 16 + y div 16) mod 16 * 16 + y mod 16 * 4 div 4 = y"
    and "(y mod 16 * 4 + z div 64) mod 4 * 64 + z mod 64 = z"
    by simp_all
qed

lemmas byte_group_bounds =
  group_bounds(1) [OF byte_val_less] group_bounds(2) [OF byte_val_less] group_bounds(3)
  group_bounds(4) [OF byte_val_less] group_bounds(5,6)

lemma b64_bytes:
  "b64_byte1 (byte_val a div 4) (byte_val a mod 4 * 16 + byte_val b div 16) = a"
  "b64_byte1 (byte_val a div 4) (byte_val a mod 4 * 16) = a"
  "b64_byte2 (byte_val a mod 4 * 16 + byte_val b div 16)
     (byte_val b mod 16 * 4 + byte_val c div 64) = b"
  "b64_byte2 (byte_val a mod 4 * 16 + byte_val b div 16) (byte_val b mod 16 * 4) = b"
  "b64_byte3 (byte_val b mod 16 * 4 + byte_val c div 64) (byte_val c mod 64) = c"
  by (simp_all only: b64_byte1_def b64_byte2_def b64_byte3_def char_of_byte_val
      regroup [OF byte_val_less byte_val_less])

lemmas b64_group = Let_def b64_vals_char byte_group_bounds b64_bytes

lemma b64_dec_enc [codec_laws]: "b64_dec (b64_enc bs) = Some bs"
proof -
  have "\<exists>ns. b64_vals (b64_enc bs) = Some ns \<and> b64_quads ns = Some bs"
  proof (induction bs rule: b64_enc.induct)
    case (4 a b c r)
    then obtain ns where "b64_vals (b64_enc r) = Some ns" "b64_quads ns = Some r" by blast
    then show ?case by (simp del: b64_vals.simps(2) add: b64_group)
  qed (simp_all del: b64_vals.simps(2) add: b64_group)
  then show ?thesis by (auto simp: b64_dec_def)
qed

interpretation b64: exact_codec b64_enc b64_dec "\<lambda>_. True"
  by unfold_locales (rule b64_dec_enc)

lemma b64_enc_safe: "c \<in> set (b64_enc bs) \<Longrightarrow> b64_safe c"
  by (induction bs rule: b64_enc.induct) (auto simp: Let_def b64_safe_char byte_group_bounds)

lemma b64_enc_no_sep [simp]:
  "CHR ''.'' \<notin> set (b64_enc bs)" "CHR ''~'' \<notin> set (b64_enc bs)"
  using b64_enc_safe by (auto simp: b64_safe_def)

lemma b64_ascii: "c \<in> set (b64_enc bs) \<Longrightarrow> byte_val c < 128"
proof -
  have *: "n < 64 \<Longrightarrow> byte_val (b64_char n) < 128" for n
    by (auto simp: byte_val_b64_char)
  show "c \<in> set (b64_enc bs) \<Longrightarrow> byte_val c < 128"
    by (induction bs rule: b64_enc.induct) (auto simp: Let_def * byte_group_bounds)
qed

lemma b64_enc_eq_Nil [simp]: "b64_enc bs = [] \<longleftrightarrow> bs = []"
  by (cases bs rule: b64_enc.cases) (auto simp: Let_def)

section \<open>Decimal text, big-endian bytes, 64-bit wrap-around\<close>

definition is_digit :: "char \<Rightarrow> bool" where
  "is_digit c \<longleftrightarrow> 48 \<le> byte_val c \<and> byte_val c \<le> 57"

definition digit_char :: "nat \<Rightarrow> char" where
  "digit_char n = char_of (48 + n)"

fun show_nat :: "nat \<Rightarrow> string" where
  "show_nat n = (if n < 10 then [digit_char n] else show_nat (n div 10) @ [digit_char (n mod 10)])"

declare show_nat.simps [simp del]

definition show_int :: "int \<Rightarrow> string" where
  "show_int i = (if i < 0 then CHR ''-'' # show_nat (nat (- i)) else show_nat (nat i))"

definition digits_val :: "string \<Rightarrow> nat" where
  "digits_val s = foldl (\<lambda>a c. a * 10 + (byte_val c - 48)) 0 s"

lemma is_digit_digit_char [simp]: "n < 10 \<Longrightarrow> is_digit (digit_char n)"
  by (simp add: is_digit_def digit_char_def)

lemma digit_char_val [simp]: "n < 10 \<Longrightarrow> byte_val (digit_char n) - 48 = n"
  by (simp add: digit_char_def)

lemma digits_val_snoc [simp]: "digits_val (s @ [c]) = digits_val s * 10 + (byte_val c - 48)"
  by (simp add: digits_val_def)

lemma digits_val_Nil [simp]: "digits_val [] = 0"
  by (simp add: digits_val_def)

lemma digits_val_show [simp]: "digits_val (show_nat n) = n"
proof (induction n rule: show_nat.induct)
  case (1 n)
  show ?case
  proof (cases "n < 10")
    case True
    then show ?thesis using digits_val_snoc [of "[]"] by (simp add: show_nat.simps)
  next
    case False
    then show ?thesis using 1 by (subst show_nat.simps) simp
  qed
qed

lemma digits_val_zeros [simp]: "digits_val (s @ replicate n (CHR ''0'')) = digits_val s * 10 ^ n"
proof (induction n)
  case (Suc n)
  have "s @ replicate (Suc n) (CHR ''0'') = (s @ replicate n (CHR ''0'')) @ [CHR ''0'']"
    by (simp add: replicate_append_same)
  then show ?case by (simp only: digits_val_snoc Suc) simp
qed simp

lemma digits_val_lead: "digits_val (replicate n (CHR ''0'') @ s) = digits_val s"
proof (induction s rule: rev_induct)
  case Nil
  then show ?case using digits_val_zeros [of "[]" n] by simp
next
  case (snoc c s)
  then show ?case by (simp flip: append_assoc)
qed

lemma show_nat_digits: "c \<in> set (show_nat n) \<Longrightarrow> is_digit c"
proof (induction n rule: show_nat.induct)
  case (1 n)
  then show ?case by (subst (asm) (2) show_nat.simps) (auto split: if_splits)
qed

lemma show_nat_not_Nil [simp]: "show_nat n \<noteq> []"
  by (subst show_nat.simps) simp

lemma hd_show_nat_zero: "hd (show_nat n) = CHR ''0'' \<longleftrightarrow> n = 0"
proof (induction n rule: show_nat.induct)
  case (1 n)
  show ?case
  proof (cases "n < 10")
    case True
    have "digit_char n = CHR ''0'' \<longleftrightarrow> byte_val (digit_char n) = byte_val (CHR ''0'')"
      by (simp only: of_char_eq_iff)
    then show ?thesis using True by (subst show_nat.simps) (simp add: digit_char_def)
  next
    case False
    then show ?thesis using 1 by (subst show_nat.simps) auto
  qed
qed

lemma show_nat_0 [simp]: "show_nat 0 = ''0''"
  by (subst show_nat.simps) (simp, code_simp)

text \<open>\<open>new(big.Int).SetBytes\<close>: big-endian, unsigned.\<close>

definition be_nat :: "bytes \<Rightarrow> nat" where
  "be_nat bs = foldl (\<lambda>a c. a * 256 + byte_val c) 0 bs"

text \<open>\<open>int64\<close> arithmetic is modelled on \<open>int\<close> with the wrap-around written out.\<close>

definition wrap64 :: "int \<Rightarrow> int" where
  "wrap64 x = (x + 2 ^ 63) mod 2 ^ 64 - 2 ^ 63"

definition int64_range :: "int \<Rightarrow> bool" where
  "int64_range x \<longleftrightarrow> - (2 ^ 63) \<le> x \<and> x < 2 ^ 63"

text \<open>\<open>big.Int.Int64\<close> of a non-negative number: its low 64 bits, read as two's complement.\<close>

definition big_Int64 :: "nat \<Rightarrow> int" where
  "big_Int64 n = wrap64 (int n)"

lemma wrap64_range [simp]: "int64_range (wrap64 x)"
  by (simp add: wrap64_def int64_range_def)

lemma wrap64_id: "int64_range x \<Longrightarrow> wrap64 x = x"
  by (simp add: wrap64_def int64_range_def)

lemma wrap64_idem [simp]: "wrap64 (wrap64 x) = wrap64 x"
  by (simp add: wrap64_id)

lemma wrap64_shift: "wrap64 (x + k * 2 ^ 64) = wrap64 x"
proof -
  have "(x + k * 2 ^ 64 + 2 ^ 63) mod 2 ^ 64 = (x + 2 ^ 63 + k * 2 ^ 64) mod 2 ^ 64"
    by (simp add: algebra_simps)
  then show ?thesis by (simp add: wrap64_def)
qed

end
