(* ===== verification/Errors.thy ===== *)
theory Errors
  imports Go_Bytes
begin

text \<open>
  \<open>errors.go\<close>: the sentinels, the two error structs, and the chains \<open>fmt.Errorf\<close> builds around
  them. An error is kept as the structure that \<open>errors.Is\<close> and \<open>Error()\<close> see: which constructor
  made it, the text around a wrapped error and whether it is wrapped (\<open>%w\<close>) or only printed
  (\<open>%v\<close>). The text of errors made outside the repository and Go's \<open>%q\<close> quoting are parameters of
  the rendering.
\<close>

datatype sentinel =
    ErrInvalidFormat
  | ErrSignatureInvalid
  | ErrKeyResolutionFailed
  | ErrDisclosureMismatch
  | ErrDisclosureDuplicate
  | ErrDisclosureInvalid
  | ErrKBJWTRequired
  | ErrKBJWTInvalid
  | ErrKBJWTNonceMismatch
  | ErrKBJWTAudMismatch
  | ErrKBJWTHashMismatch
  | ErrHolderKeyMissing
  | ErrCnfMissing
  | ErrTokenExpired
  | ErrTokenNotYetValid
  | ErrVCTMismatch
  | ErrUnsupportedHashAlgorithm
  | ErrSelectiveFieldNotFound
  | ErrNestingTooDeep

text \<open>
  \<open>LibError s\<close> is an error value of the standard library or of a caller-supplied implementation,
  named by the call that returned it. \<open>Errorf parts\<close> is a \<open>fmt.Errorf\<close> result: its format cut
  into literal text, quoted strings, wrapped errors and printed errors.
\<close>

datatype goerr =
    Sentinel sentinel
  | LibError string
  | DisclosureError string goerr
  | VerificationError string goerr
  | Errorf "part list"
and part =
    Txt string
  | Quot string
  | Wrapped goerr
  | Printed goerr

text \<open>\<open>Unwrap\<close> of the two structs and of \<open>fmt.Errorf\<close> results (at most one \<open>%w\<close> in this program).\<close>

fun first_wrapped :: "part list \<Rightarrow> goerr option" where
  "first_wrapped [] = None"
| "first_wrapped (Wrapped e # ps) = Some e"
| "first_wrapped (_ # ps) = first_wrapped ps"

fun Unwrap :: "goerr \<Rightarrow> goerr option" where
  "Unwrap (DisclosureError k e) = Some e"
| "Unwrap (VerificationError s e) = Some e"
| "Unwrap (Errorf ps) = first_wrapped ps"
| "Unwrap _ = None"

lemma first_wrapped_size: "first_wrapped ps = Some e \<Longrightarrow> size e < Suc (size_list size ps)"
  by (induction ps rule: first_wrapped.induct) auto

text \<open>\<open>errors.Is(err, target)\<close> for a sentinel target: some error of the chain is the sentinel.\<close>

function errors_Is :: "goerr \<Rightarrow> sentinel \<Rightarrow> bool" where
  "errors_Is e s =
     (e = Sentinel s \<or> (case Unwrap e of None \<Rightarrow> False | Some e' \<Rightarrow> errors_Is e' s))"
  by pat_completeness auto
termination
proof (relation "measure (\<lambda>(e, s). size e)")
  fix e s e'
  assume "Unwrap e = Some e'"
  then show "((e', s), e, s) \<in> measure (\<lambda>(e, s). size e)"
    by (cases e) (auto dest: first_wrapped_size)
qed simp

declare errors_Is.simps [simp del]

text \<open>\<open>errors.As(err, *VerificationError)\<close>: the first verification error of the chain.\<close>

function errors_As_Verification :: "goerr \<Rightarrow> (string \<times> goerr) option" where
  "errors_As_Verification e =
     (case e of VerificationError s e' \<Rightarrow> Some (s, e')
      | _ \<Rightarrow> (case Unwrap e of None \<Rightarrow> None | Some e' \<Rightarrow> errors_As_Verification e'))"
  by pat_completeness auto
termination
  by (relation "measure size") (auto dest: first_wrapped_size)

declare errors_As_Verification.simps [simp del]

lemma errors_Is_simps [simp]:
  "errors_Is (Sentinel t) s \<longleftrightarrow> t = s"
  "\<not> errors_Is (LibError l) s"
  "errors_Is (DisclosureError k e) s \<longleftrightarrow> errors_Is e s"
  "errors_Is (VerificationError st e) s \<longleftrightarrow> errors_Is e s"
  "errors_Is (Errorf []) s \<longleftrightarrow> False"
  "errors_Is (Errorf (Wrapped e # ps)) s \<longleftrightarrow> errors_Is e s"
  "errors_Is (Errorf (Txt x # ps)) s \<longleftrightarrow> errors_Is (Errorf ps) s"
  "errors_Is (Errorf (Quot x # ps)) s \<longleftrightarrow> errors_Is (Errorf ps) s"
  "errors_Is (Errorf (Printed e # ps)) s \<longleftrightarrow> errors_Is (Errorf ps) s"
  by (subst errors_Is.simps; simp add: errors_Is.simps [of "Errorf ps"])+

section \<open>Messages\<close>

fun sentinel_text :: "sentinel \<Rightarrow> string" where
  "sentinel_text ErrInvalidFormat = ''sdjwt: invalid token format''"
| "sentinel_text ErrSignatureInvalid = ''sdjwt: issuer signature invalid''"
| "sentinel_text ErrKeyResolutionFailed = ''sdjwt: key resolution failed''"
| "sentinel_text ErrDisclosureMismatch = ''sdjwt: disclosure digest not found in token''"
| "sentinel_text ErrDisclosureDuplicate = ''sdjwt: duplicate disclosure key''"
| "sentinel_text ErrDisclosureInvalid = ''sdjwt: disclosure encoding invalid''"
| "sentinel_text ErrKBJWTRequired = ''sdjwt: key binding required but KB-JWT absent''"
| "sentinel_text ErrKBJWTInvalid = ''sdjwt: KB-JWT signature invalid''"
| "sentinel_text ErrKBJWTNonceMismatch = ''sdjwt: KB-JWT nonce mismatch''"
| "sentinel_text ErrKBJWTAudMismatch = ''sdjwt: KB-JWT audience mismatch''"
| "sentinel_text ErrKBJWTHashMismatch = ''sdjwt: KB-JWT sd_hash mismatch''"
| "sentinel_text ErrHolderKeyMissing =
     ''sdjwt: holder key required for key binding but not provided''"
| "sentinel_text ErrCnfMissing = ''sdjwt: cnf claim absent from issuer JWT''"
| "sentinel_text ErrTokenExpired = ''sdjwt: token has expired''"
| "sentinel_text ErrTokenNotYetValid = ''sdjwt: token not yet valid''"
| "sentinel_text ErrVCTMismatch = ''sdjwt: vct mismatch''"
| "sentinel_text ErrUnsupportedHashAlgorithm = ''sdjwt: unsupported hash algorithm''"
| "sentinel_text ErrSelectiveFieldNotFound = ''sdjwt: selective field not found in payload''"
| "sentinel_text ErrNestingTooDeep = ''sdjwt: structured claims exceed maximum nesting depth''"

text \<open>\<open>Error()\<close> of the two structs and of the chains around them.\<close>

fun err_text :: "(string \<Rightarrow> string) \<Rightarrow> (string \<Rightarrow> string) \<Rightarrow> goerr \<Rightarrow> string"
and part_text :: "(string \<Rightarrow> string) \<Rightarrow> (string \<Rightarrow> string) \<Rightarrow> part \<Rightarrow> string"
and parts_text :: "(string \<Rightarrow> string) \<Rightarrow> (string \<Rightarrow> string) \<Rightarrow> part list \<Rightarrow> string" where
  "err_text lib quo (Sentinel s) = sentinel_text s"
| "err_text lib quo (LibError l) = lib l"
| "err_text lib quo (DisclosureError k e) =
     (if k \<noteq> [] then ''sdjwt: disclosure '' @ quo k @ '': '' @ err_text lib quo e
      else ''sdjwt: disclosure: '' @ err_text lib quo e)"
| "err_text lib quo (VerificationError st e) =
     ''sdjwt: verification failed at '' @ st @ '': '' @ err_text lib quo e"
| "err_text lib quo (Errorf ps) = parts_text lib quo ps"
| "part_text lib quo (Txt s) = s"
| "part_text lib quo (Quot s) = quo s"
| "part_text lib quo (Wrapped e) = err_text lib quo e"
| "part_text lib quo (Printed e) = err_text lib quo e"
| "parts_text lib quo [] = []"
| "parts_text lib quo (p # ps) = part_text lib quo p @ parts_text lib quo ps"

text \<open>No two sentinels print alike, so the messages identify them.\<close>

lemma sentinel_text_inj: "sentinel_text s = sentinel_text t \<longleftrightarrow> s = t"
  by (cases s; cases t; simp)

end
