(* ===== verification/Hashutil.thy ===== *)
theory Hashutil
  imports Errors
begin

text \<open>
  \<open>internal/hashutil/hashutil.go\<close> and \<open>crypto_helpers.go\<close>: the \<open>_sd_alg\<close> names, the digests over
  disclosures and presentation prefixes, the curve names of JWKs.

  The cryptographic primitives themselves are one record that every operation takes: the digest
  functions as functions of bytes, the signature checks as predicates. No theorem looks inside
  them; what a theorem needs of them (collision resistance of SHA-256 on two inputs, say) is a
  hypothesis of that theorem.
\<close>

section \<open>Primitives\<close>

text \<open>\<open>crypto.Hash\<close> is an unsigned number; these are the ones the program names.\<close>

type_synonym hash = nat

definition SHA256 :: hash where "SHA256 = 5"
definition SHA384 :: hash where "SHA384 = 6"
definition SHA512 :: hash where "SHA512 = 7"

lemmas hash_codes = SHA256_def SHA384_def SHA512_def

datatype curve = P224 | P256 | P384 | P521

record crypto =
  sha256 :: "bytes \<Rightarrow> bytes"
  sha384 :: "bytes \<Rightarrow> bytes"
  sha512 :: "bytes \<Rightarrow> bytes"
  ecdsa_Verify :: "curve \<Rightarrow> nat \<Rightarrow> nat \<Rightarrow> bytes \<Rightarrow> nat \<Rightarrow> nat \<Rightarrow> bool"
  rsa_VerifyPKCS1v15 :: "nat \<Rightarrow> int \<Rightarrow> hash \<Rightarrow> bytes \<Rightarrow> bytes \<Rightarrow> bool"
  rsa_VerifyPSS :: "nat \<Rightarrow> int \<Rightarrow> hash \<Rightarrow> bytes \<Rightarrow> bytes \<Rightarrow> bool"

text \<open>\<open>crypto.Hash.String\<close>, printed in the error texts.\<close>

definition hash_names :: "string list" where
  "hash_names =
     [''MD4'', ''MD5'', ''SHA-1'', ''SHA-224'', ''SHA-256'', ''SHA-384'', ''SHA-512'', ''MD5+SHA1'',
      ''RIPEMD-160'', ''SHA3-224'', ''SHA3-256'', ''SHA3-384'', ''SHA3-512'', ''SHA-512/224'',
      ''SHA-512/256'', ''BLAKE2s-256'', ''BLAKE2b-256'', ''BLAKE2b-384'', ''BLAKE2b-512'']"

definition hash_String :: "hash \<Rightarrow> string" where
  "hash_String h =
     (if 1 \<le> h \<and> h \<le> length hash_names then hash_names ! (h - 1)
      else ''unknown hash value '' @ show_nat h)"

section \<open>Algorithm names\<close>

definition AlgorithmFromSDAlg :: "string \<Rightarrow> goerr + hash" where
  "AlgorithmFromSDAlg alg =
     (if alg = ''sha-256'' then Inr SHA256
      else if alg = ''sha-384'' then Inr SHA384
      else if alg = ''sha-512'' then Inr SHA512
      else Inl (Errorf [Txt ''unsupported _sd_alg value '', Quot alg]))"

definition SDAlgFromHash :: "hash \<Rightarrow> goerr + string" where
  "SDAlgFromHash h =
     (if h = SHA256 then Inr ''sha-256''
      else if h = SHA384 then Inr ''sha-384''
      else if h = SHA512 then Inr ''sha-512''
      else Inl (Errorf [Txt ''no _sd_alg string for hash '', Txt (hash_String h)]))"

text \<open>The hashes with a name in the specification, the only ones the digests accept.\<close>

definition supported_hash :: "hash \<Rightarrow> bool" where
  "supported_hash h \<longleftrightarrow> h = SHA256 \<or> h = SHA384 \<or> h = SHA512"

lemma SDAlg_total: "(\<exists>s. SDAlgFromHash h = Inr s) \<longleftrightarrow> supported_hash h"
  by (simp add: SDAlgFromHash_def supported_hash_def)

lemma AlgorithmFromSDAlg_supported: "AlgorithmFromSDAlg s = Inr h \<Longrightarrow> supported_hash h"
  by (auto simp: AlgorithmFromSDAlg_def supported_hash_def split: if_splits)

section \<open>Digests\<close>

definition newHash :: "crypto \<Rightarrow> hash \<Rightarrow> goerr + (bytes \<Rightarrow> bytes)" where
  "newHash C h =
     (if h = SHA256 then Inr (sha256 C)
      else if h = SHA384 then Inr (sha384 C)
      else if h = SHA512 then Inr (sha512 C)
      else Inl (Errorf [Txt ''unsupported hash '', Txt (hash_String h)]))"

definition Digest :: "crypto \<Rightarrow> hash \<Rightarrow> bytes \<Rightarrow> goerr + string" where
  "Digest C h data = res_bind (newHash C h) (\<lambda>hh. Inr (b64_enc (hh data)))"

definition DigestSHA256 :: "crypto \<Rightarrow> bytes \<Rightarrow> string" where
  "DigestSHA256 C data = b64_enc (sha256 C data)"

lemma Digest_total: "supported_hash h \<Longrightarrow> \<exists>d. Digest C h data = Inr d"
  by (auto simp: Digest_def newHash_def supported_hash_def)

lemma Digest_SHA256 [simp]: "Digest C SHA256 data = Inr (DigestSHA256 C data)"
  by (simp add: Digest_def newHash_def DigestSHA256_def)

lemma DigestSHA256_eq [simp]: "DigestSHA256 C a = DigestSHA256 C b \<longleftrightarrow> sha256 C a = sha256 C b"
  by (simp add: DigestSHA256_def b64.enc_inj)

section \<open>Helpers of the verifier\<close>

text \<open>\<open>hashutil.HashForAlg\<close> is a \<open>crypto.Hash\<close> under another name.\<close>

type_synonym hash_for_alg = nat

definition SHA256Alg :: hash_for_alg where "SHA256Alg = SHA256"
definition SHA384Alg :: hash_for_alg where "SHA384Alg = SHA384"
definition SHA512Alg :: hash_for_alg where "SHA512Alg = SHA512"

definition CryptoHash :: "hash_for_alg \<Rightarrow> hash" where
  "CryptoHash h = h"

text \<open>
  \<open>sdjwt.HashForAlg\<close> of \<open>crypto_helpers.go\<close> counts from 1 instead; the program never uses it.
\<close>

definition sdjwt_SHA256Alg :: int where "sdjwt_SHA256Alg = 1"
definition sdjwt_SHA384Alg :: int where "sdjwt_SHA384Alg = 2"
definition sdjwt_SHA512Alg :: int where "sdjwt_SHA512Alg = 3"

definition sdjwt_CryptoHash :: "int \<Rightarrow> hash" where
  "sdjwt_CryptoHash h =
     (if h = sdjwt_SHA256Alg then SHA256
      else if h = sdjwt_SHA384Alg then SHA384
      else SHA512)"

definition sha256Sum :: "crypto \<Rightarrow> bytes \<Rightarrow> bytes" where
  "sha256Sum C data = sha256 C data"

definition sha384Sum :: "crypto \<Rightarrow> bytes \<Rightarrow> bytes" where
  "sha384Sum C data = sha384 C data"

definition sha512Sum :: "crypto \<Rightarrow> bytes \<Rightarrow> bytes" where
  "sha512Sum C data = sha512 C data"

definition curveForName :: "string \<Rightarrow> goerr + curve" where
  "curveForName crv =
     (if crv = ''P-256'' then Inr P256
      else if crv = ''P-384'' then Inr P384
      else if crv = ''P-521'' then Inr P521
      else Inl (Errorf [Txt ''unsupported EC curve '', Quot crv]))"

lemma curveForName_not_P224: "curveForName crv \<noteq> Inr P224"
  by (simp add: curveForName_def)

section \<open>Properties\<close>

text \<open>
  The two tables of \<open>_sd_alg\<close> names are inverse to each other: a name maps to a hash exactly when
  that hash maps to the name, so what an issuer announces is what a verifier computes with.
\<close>
lemma sd_alg_tables_inverse: "AlgorithmFromSDAlg s = Inr h \<longleftrightarrow> SDAlgFromHash h = Inr s"
  by (auto simp: AlgorithmFromSDAlg_def SDAlgFromHash_def hash_codes)

end
