(* ===== verification/Go_Float.thy ===== *)
theory Go_Float
  imports Go_Bytes
begin

text \<open>
  Go's \<open>float64\<close> as far as JSON numbers need it: the correctly rounded value of a decimal
  (\<open>strconv.ParseFloat\<close>, round half to even, an error on overflow), the shortest decimal that
  reads back as a given value (\<open>strconv.AppendFloat\<close> with precision -1, in the two layouts
  \<open>encoding/json\<close> chooses between), and the conversion \<open>int64(f)\<close>.
\<close>

text \<open>
  \<open>Fin s m e\<close> is \<open>(-1)^s * m * 2^e\<close>, normalised: \<open>e\<close> is at least -1074 and \<open>m\<close> has 53 bits
  unless \<open>e = -1074\<close>.
\<close>

datatype f64 = Fin bool nat int | Inf bool | NaN

section \<open>ParseFloat\<close>

definition round_half_even :: "nat \<Rightarrow> nat \<Rightarrow> nat" where
  "round_half_even n d =
     (let q = n div d; r = n mod d in
      if 2 * r < d then q else if 2 * r > d then q + 1 else if even q then q else q + 1)"

text \<open>\<open>n / d < 2^p\<close>, and \<open>n / d / 2^p\<close> as a fraction of naturals.\<close>

definition ratio_less_pow :: "nat \<Rightarrow> nat \<Rightarrow> int \<Rightarrow> bool" where
  "ratio_less_pow n d p = (if p \<ge> 0 then n < d * 2 ^ nat p else n * 2 ^ nat (- p) < d)"

definition ratio_shift :: "nat \<Rightarrow> nat \<Rightarrow> int \<Rightarrow> nat \<times> nat" where
  "ratio_shift n d p = (if p \<ge> 0 then (n, d * 2 ^ nat p) else (n * 2 ^ nat (- p), d))"

fun log2_floor :: "nat \<Rightarrow> nat" where
  "log2_floor n = (if n < 2 then 0 else Suc (log2_floor (n div 2)))"

declare log2_floor.simps [simp del]

text \<open>The exponent of the unit in the last place of \<open>n / d\<close>.\<close>

definition ulp_exp :: "nat \<Rightarrow> nat \<Rightarrow> int" where
  "ulp_exp n d =
     (let e = int (log2_floor n) - int (log2_floor d) - 52 in
      max (if ratio_less_pow n d (52 + e) then e - 1 else e) (- 1074))"

definition f64_of_ratio :: "bool \<Rightarrow> nat \<Rightarrow> nat \<Rightarrow> f64 option" where
  "f64_of_ratio s n d =
     (if n = 0 then Some (Fin s 0 (- 1074))
      else let e = ulp_exp n d;
               m = (case ratio_shift n d e of (n', d') \<Rightarrow> round_half_even n' d');
               (m', e') = (if m = 2 ^ 53 then (2 ^ 52, e + 1) else (m, e))
           in if e' > 971 then None else Some (Fin s m' e'))"

definition f64_of_decimal :: "bool \<Rightarrow> nat \<Rightarrow> int \<Rightarrow> f64 option" where
  "f64_of_decimal s d e =
     (if e \<ge> 0 then f64_of_ratio s (d * 10 ^ nat e) 1 else f64_of_ratio s d (10 ^ nat (- e)))"

definition f64_of_int :: "int \<Rightarrow> f64 option" where
  "f64_of_int i = f64_of_ratio (i < 0) (nat \<bar>i\<bar>) 1"

section \<open>int64(f)\<close>

text \<open>
  Truncation towards zero. For a value that does not fit, the language leaves the result to the
  implementation: the parameter \<open>oob\<close>.
\<close>

definition f64_trunc :: "bool \<Rightarrow> nat \<Rightarrow> int \<Rightarrow> int" where
  "f64_trunc s m e =
     (let a = (if e \<ge> 0 then m * 2 ^ nat e else m div 2 ^ nat (- e)) in
      if s then - int a else int a)"

definition f64_to_int64 :: "(f64 \<Rightarrow> int) \<Rightarrow> f64 \<Rightarrow> int" where
  "f64_to_int64 oob f =
     (case f of
        Fin s m e \<Rightarrow> (let i = f64_trunc s m e in if int64_range i then i else oob f)
      | _ \<Rightarrow> oob f)"

section \<open>The shortest decimal\<close>

text \<open>\<open>k\<close> with \<open>10^(k-1) \<le> n/d < 10^k\<close>.\<close>

definition dec_exp :: "nat \<Rightarrow> nat \<Rightarrow> int" where
  "dec_exp n d =
     (if n \<ge> d then int (length (show_nat (n div d)))
      else 1 - int (length (show_nat ((d - 1) div n))))"

text \<open>
  The two decimals of \<open>j\<close> digits around the value, kept when they read back as the value; the
  nearer one wins, the even one on a tie.
\<close>

definition dec_candidate :: "f64 \<Rightarrow> nat \<Rightarrow> nat \<Rightarrow> int \<Rightarrow> nat \<Rightarrow> (nat \<times> int) option" where
  "dec_candidate f n d k j =
     (let p = k - int j;
          (n', d') = (if p \<ge> 0 then (n, d * 10 ^ nat p) else (n * 10 ^ nat (- p), d));
          lo = n' div d'; r = n' mod d';
          lo_ok = (f64_of_decimal False lo p = Some f);
          hi_ok = (f64_of_decimal False (lo + 1) p = Some f)
      in if lo_ok \<and> hi_ok
         then Some (if 2 * r < d' \<or> 2 * r = d' \<and> even lo then lo else lo + 1, p)
         else if lo_ok then Some (lo, p)
         else if hi_ok then Some (lo + 1, p)
         else None)"

fun first_some :: "('a \<Rightarrow> 'b option) \<Rightarrow> 'a list \<Rightarrow> 'b option" where
  "first_some f [] = None"
| "first_some f (x # xs) = (case f x of None \<Rightarrow> first_some f xs | Some y \<Rightarrow> Some y)"

text \<open>
  17 digits always suffice for a \<open>float64\<close>. \<open>(x, p)\<close> stands for \<open>x * 10^p\<close>; the only candidate
  with a trailing zero is \<open>9 + 1\<close> at one digit, whose zero is dropped.
\<close>

definition shortest :: "nat \<Rightarrow> int \<Rightarrow> (nat \<times> int) option" where
  "shortest m e =
     (let n = (if e \<ge> 0 then m * 2 ^ nat e else m);
          d = (if e \<ge> 0 then 1 else 2 ^ nat (- e))
      in map_option (\<lambda>(x, p). if x = 10 then (1, p + 1) else (x, p))
           (first_some (dec_candidate (Fin False m e) n d (dec_exp n d)) [1..<18]))"

text \<open>
  \<open>encoding/json\<close> uses the exponent layout for \<open>|f| < 1e-6\<close> and \<open>|f| \<ge> 1e21\<close>; \<open>q\<close> is the
  position of the decimal point before the first digit (\<open>0.digits * 10^q\<close>). The two-digit
  exponents \<open>e-07\<close> to \<open>e-09\<close> lose their zero.
\<close>

definition f64_layout :: "nat \<Rightarrow> int \<Rightarrow> string" where
  "f64_layout x p =
     (let s = show_nat x; q = int (length s) + p in
      if q < - 5 \<or> q > 21
      then take 1 s @ (if length s > 1 then CHR ''.'' # drop 1 s else [])
           @ (if q - 1 < 0 then ''e-'' @ show_nat (nat (1 - q)) else ''e+'' @ show_nat (nat (q - 1)))
      else if q \<le> 0 then ''0.'' @ replicate (nat (- q)) (CHR ''0'') @ s
      else if p \<ge> 0 then s @ replicate (nat p) (CHR ''0'')
      else take (nat q) s @ CHR ''.'' # drop (nat q) s)"

text \<open>\<open>None\<close>: \<open>json.Marshal\<close> refuses infinities and NaN.\<close>

definition f64_fmt :: "f64 \<Rightarrow> string option" where
  "f64_fmt f =
     (case f of
        Fin s m e \<Rightarrow>
          map_option (\<lambda>t. if s then CHR ''-'' # t else t)
            (if m = 0 then Some ''0''
             else map_option (\<lambda>(x, p). f64_layout x p) (shortest m e))
      | _ \<Rightarrow> None)"

section \<open>Small integers are exact\<close>

lemma log2_floor_bounds:
  assumes "0 < n"
  shows "2 ^ log2_floor n \<le> n" and "n < 2 ^ Suc (log2_floor n)"
proof -
  have "2 ^ log2_floor n \<le> n \<and> n < 2 ^ Suc (log2_floor n)"
    using assms
  proof (induction n rule: log2_floor.induct)
    case (1 n)
    show ?case
    proof (cases "n < 2")
      case True
      then show ?thesis using "1.prems" by (simp add: log2_floor.simps)
    next
      case False
      then have "2 ^ log2_floor (n div 2) \<le> n div 2" "n div 2 < 2 ^ Suc (log2_floor (n div 2))"
        using 1 by auto
      moreover have "2 * (n div 2) \<le> n" "n < 2 * (n div 2) + 2" by auto
      ultimately show ?thesis
        using False unfolding log2_floor.simps [of n] by (simp only: if_False power_Suc) linarith
    qed
  qed
  then show "2 ^ log2_floor n \<le> n" and "n < 2 ^ Suc (log2_floor n)" by auto
qed

lemma log2_floor_le:
  assumes "0 < n" "n < 2 ^ Suc k"
  shows "log2_floor n \<le> k"
proof -
  have "2 ^ log2_floor n < (2::nat) ^ Suc k"
    using log2_floor_bounds(1) [OF assms(1)] assms(2) by (rule le_less_trans)
  then show ?thesis by (simp add: less_Suc_eq_le del: power_Suc)
qed

lemma ulp_exp_int:
  assumes "0 < n" "n < 2 ^ 53"
  shows "ulp_exp n 1 = int (log2_floor n) - 52"
proof -
  have "\<not> n < 2 ^ log2_floor n" using log2_floor_bounds(1) [OF assms(1)] by simp
  moreover have "log2_floor (Suc 0) = 0" by (simp add: log2_floor.simps)
  ultimately show ?thesis by (simp add: ulp_exp_def Let_def ratio_less_pow_def)
qed

lemma f64_of_ratio_int:
  assumes "0 < n" "n < 2 ^ 53"
  shows "f64_of_ratio s n 1 = Some (Fin s (n * 2 ^ (52 - log2_floor n)) (int (log2_floor n) - 52))"
proof -
  let ?a = "log2_floor n"
  have a: "?a \<le> 52" using log2_floor_le [of n 52] assms by simp
  have lt: "n * 2 ^ (52 - ?a) < 2 ^ 53"
  proof -
    have "n * 2 ^ (52 - ?a) < 2 ^ Suc ?a * 2 ^ (52 - ?a)"
      using log2_floor_bounds(2) [OF assms(1)] by simp
    also have "\<dots> = 2 ^ 53" using a by (simp flip: power_add)
    finally show ?thesis .
  qed
  have sh: "ratio_shift n 1 (int ?a - 52) = (n * 2 ^ (52 - ?a), 1)"
  proof (cases "?a = 52")
    case False
    have "nat (52 - int ?a) = 52 - ?a" using a by linarith
    then show ?thesis using a False by (simp add: ratio_shift_def)
  qed (simp add: ratio_shift_def)
  show ?thesis
    unfolding f64_of_ratio_def ulp_exp_int [OF assms]
    using assms(1) lt a by (simp add: Let_def sh round_half_even_def del: One_nat_def)
qed

lemma f64_of_int_exact:
  assumes "\<bar>i\<bar> < 2 ^ 53"
  obtains f where "f64_of_int i = Some f" and "f64_to_int64 oob f = i"
proof (cases "i = 0")
  case True
  then show ?thesis
    by (intro that [of "Fin False 0 (- 1074)"])
      (simp_all add: f64_of_int_def f64_of_ratio_def f64_to_int64_def f64_trunc_def int64_range_def)
next
  case False
  let ?n = "nat \<bar>i\<bar>"
  let ?a = "log2_floor ?n"
  have n: "0 < ?n" "?n < 2 ^ 53" using assms False by auto
  have a: "?a \<le> 52" using log2_floor_le [of ?n 52] n by simp
  let ?f = "Fin (i < 0) (?n * 2 ^ (52 - ?a)) (int ?a - 52)"
  have f: "f64_of_int i = Some ?f"
    unfolding f64_of_int_def using f64_of_ratio_int [OF n] .
  have "f64_trunc (i < 0) (?n * 2 ^ (52 - ?a)) (int ?a - 52) = i"
  proof (cases "?a = 52")
    case False
    have "nat (52 - int ?a) = 52 - ?a" using a by linarith
    then show ?thesis using a False by (simp add: f64_trunc_def Let_def)
  qed (simp add: f64_trunc_def Let_def)
  moreover have "int64_range i" using assms by (auto simp: int64_range_def)
  ultimately have "f64_to_int64 oob ?f = i" by (simp add: f64_to_int64_def Let_def)
  with f show ?thesis by (rule that)
qed

end
