(* ===== verification/Go_Json.thy ===== *)
theory Go_Json
  imports Go_Float
begin

text \<open>
  Go values as the program passes them through \<open>any\<close>, and \<open>encoding/json\<close> on them: \<open>Marshal\<close>
  (sorted map keys, HTML-safe string escapes, UTF-8 repair) and \<open>Unmarshal\<close> into \<open>any\<close>,
  \<open>map[string]any\<close>, \<open>[]json.RawMessage\<close> and \<open>string\<close> (the syntax check of the whole input first,
  then the decoding of what the target asks for).

  The parsers are structural in a fuel argument; \<open>json_fuel\<close> is the amount the entry points
  start with, and the round-trip lemmas show that it is enough for every marshalled value.
\<close>

section \<open>Values\<close>

text \<open>
  \<open>GInt\<close> is any Go integer, \<open>GStrings\<close> a \<open>[]string\<close>, \<open>GSlice\<close> a \<open>[]any\<close>, \<open>GMap\<close> a
  \<open>map[string]any\<close>, \<open>GStruct\<close> a \<open>StructuredClaim\<close> with its \<open>Fields\<close> and \<open>SelectiveFields\<close>. A nil
  map or slice held in an \<open>any\<close> behaves like \<open>GNil\<close> in everything the program does with it.
\<close>

datatype gval =
    GNil
  | GBool bool
  | GString string
  | GFloat f64
  | GInt int
  | GStrings "string list"
  | GSlice "gval list"
  | GMap "(string \<times> gval) list"
  | GStruct "(string \<times> gval) list" "string list"

type_synonym gmap = "(string \<times> gval) list"

text \<open>Type assertions \<open>v.(string)\<close>, \<open>v.(float64)\<close>, \<open>v.(map[string]any)\<close>, \<open>v.([]any)\<close>, \<open>v.([]string)\<close>.\<close>

fun as_string :: "gval option \<Rightarrow> string option" where
  "as_string (Some (GString s)) = Some s"
| "as_string _ = None"

fun as_float :: "gval option \<Rightarrow> f64 option" where
  "as_float (Some (GFloat f)) = Some f"
| "as_float _ = None"

fun as_map :: "gval option \<Rightarrow> gmap option" where
  "as_map (Some (GMap m)) = Some m"
| "as_map _ = None"

fun as_slice :: "gval option \<Rightarrow> gval list option" where
  "as_slice (Some (GSlice xs)) = Some xs"
| "as_slice _ = None"

fun as_strings :: "gval option \<Rightarrow> string list option" where
  "as_strings (Some (GStrings ss)) = Some ss"
| "as_strings _ = None"

text \<open>\<open>s, _ := v.(string)\<close>: the zero value when the assertion fails.\<close>

definition string_or_empty :: "gval option \<Rightarrow> string" where
  "string_or_empty v = (case as_string v of None \<Rightarrow> [] | Some s \<Rightarrow> s)"

lemma as_string_iff [simp]: "as_string v = Some s \<longleftrightarrow> v = Some (GString s)"
  by (cases v rule: as_string.cases) auto

lemma as_float_iff [simp]: "as_float v = Some f \<longleftrightarrow> v = Some (GFloat f)"
  by (cases v rule: as_float.cases) auto

lemma as_map_iff [simp]: "as_map v = Some m \<longleftrightarrow> v = Some (GMap m)"
  by (cases v rule: as_map.cases) auto

lemma as_slice_iff [simp]: "as_slice v = Some xs \<longleftrightarrow> v = Some (GSlice xs)"
  by (cases v rule: as_slice.cases) auto

lemma as_strings_iff [simp]: "as_strings v = Some ss \<longleftrightarrow> v = Some (GStrings ss)"
  by (cases v rule: as_strings.cases) auto

lemma string_or_empty_simps [simp]:
  "string_or_empty (Some (GString s)) = s"
  "string_or_empty None = []"
  by (simp_all add: string_or_empty_def)

lemma string_or_empty_neq: "string_or_empty v = s \<Longrightarrow> s \<noteq> [] \<Longrightarrow> v = Some (GString s)"
  by (cases v rule: as_string.cases) (auto simp: string_or_empty_def)

section \<open>UTF-8\<close>

definition utf8_cont :: "char \<Rightarrow> bool" where
  "utf8_cont c \<longleftrightarrow> 128 \<le> byte_val c \<and> byte_val c \<le> 191"

definition byte_in :: "nat \<Rightarrow> nat \<Rightarrow> char \<Rightarrow> bool" where
  "byte_in lo hi c \<longleftrightarrow> lo \<le> byte_val c \<and> byte_val c \<le> hi"

text \<open>The byte sequences of one rune (table 3-7 of the Unicode standard, as \<open>unicode/utf8\<close> has it).\<close>

fun is_rune :: "bytes \<Rightarrow> bool" where
  "is_rune [a] = byte_in 0 127 a"
| "is_rune [a, b] = (byte_in 194 223 a \<and> utf8_cont b)"
| "is_rune [a, b, c] =
     (byte_in 224 239 a
      \<and> byte_in (if byte_val a = 224 then 160 else 128) (if byte_val a = 237 then 159 else 191) b
      \<and> utf8_cont c)"
| "is_rune [a, b, c, d] =
     (byte_in 240 244 a
      \<and> byte_in (if byte_val a = 240 then 144 else 128) (if byte_val a = 244 then 143 else 191) b
      \<and> utf8_cont c \<and> utf8_cont d)"
| "is_rune _ = False"

text \<open>The length of the rune at the head of the bytes as \<open>utf8.DecodeRune\<close> accepts it, 0 if none.\<close>

definition utf8_len :: "bytes \<Rightarrow> nat" where
  "utf8_len s =
     (if is_rune (take 1 s) then 1 else if is_rune (take 2 s) then 2
      else if is_rune (take 3 s) then 3 else if is_rune (take 4 s) then 4 else 0)"

definition utf8_enc :: "nat \<Rightarrow> bytes" where
  "utf8_enc u =
     (if u < 128 then [char_of u]
      else if u < 2048 then [char_of (192 + u div 64), char_of (128 + u mod 64)]
      else if u < 65536 then
        [char_of (224 + u div 4096), char_of (128 + u div 64 mod 64), char_of (128 + u mod 64)]
      else
        [char_of (240 + u div 262144), char_of (128 + u div 4096 mod 64),
         char_of (128 + u div 64 mod 64), char_of (128 + u mod 64)])"

definition replacement_char :: bytes where
  "replacement_char = [CHR 0xEF, CHR 0xBF, CHR 0xBD]"

text \<open>\<open>utf8.ValidString\<close>\<close>

fun utf8_valid :: "bytes \<Rightarrow> bool" where
  "utf8_valid [] = True"
| "utf8_valid (c # cs) =
     (let n = utf8_len (c # cs) in n \<noteq> 0 \<and> utf8_valid (drop (n - 1) cs))"

lemma rune_take_length: "\<not> is_rune (take k s) \<Longrightarrow> is_rune (take m s) \<Longrightarrow> k < m \<Longrightarrow> k < length s"
  by (metis linorder_le_less_linear order.strict_trans1 take_all less_imp_le)

lemma utf8_len_le: "utf8_len s \<le> length s"
proof (cases s)
  case (Cons a r)
  then show ?thesis
    using rune_take_length [of 1 s 2] rune_take_length [of 2 s 3] rune_take_length [of 3 s 4]
    by (auto simp: utf8_len_def Suc_le_eq simp del: take_Suc_Cons)
qed (simp add: utf8_len_def)

lemma utf8_len_ascii [simp]: "byte_val c < 128 \<Longrightarrow> utf8_len (c # cs) = 1"
  by (simp add: utf8_len_def byte_in_def)

lemma utf8_len_cong:
  assumes "\<And>k. k \<le> utf8_len y \<Longrightarrow> take k x = take k y" "utf8_len y \<noteq> 0"
  shows "utf8_len x = utf8_len y"
proof -
  have e: "utf8_len y \<ge> k \<Longrightarrow> is_rune (take k x) = is_rune (take k y)" for k
    using assms(1) by simp
  show ?thesis
    using assms(2) e [of 1] e [of 2] e [of 3] e [of 4]
    unfolding utf8_len_def by (simp split: if_splits)
qed

lemma utf8_len_append:
  assumes "utf8_len s \<noteq> 0"
  shows "utf8_len (take (utf8_len s) s @ t) = utf8_len s"
  by (rule utf8_len_cong) (use assms utf8_len_le [of s] in auto)

lemma ascii_utf8_valid: "\<forall>c \<in> set s. byte_val c < 128 \<Longrightarrow> utf8_valid s"
  by (induction s) (auto simp: Let_def)

lemma b64_utf8_valid: "utf8_valid (b64_enc bs)"
  by (rule ascii_utf8_valid) (simp add: b64_ascii)

section \<open>Marshal\<close>

definition hex_digit :: "nat \<Rightarrow> char" where
  "hex_digit n = char_of (if n < 10 then 48 + n else 87 + n)"

definition quote_char :: char where "quote_char = CHR 0x22"
definition backslash :: char where "backslash = CHR 0x5C"

text \<open>One byte below 128 inside a string, with \<open>escapeHTML\<close> set as in \<open>json.Marshal\<close>.\<close>

definition escape_ascii :: "char \<Rightarrow> string" where
  "escape_ascii c =
     (let n = byte_val c in
      if n = 34 \<or> n = 92 then [backslash, c]
      else if n = 8 then [backslash, CHR ''b'']
      else if n = 12 then [backslash, CHR ''f'']
      else if n = 10 then [backslash, CHR ''n'']
      else if n = 13 then [backslash, CHR ''r'']
      else if n = 9 then [backslash, CHR ''t'']
      else if n < 32 \<or> n = 60 \<or> n = 62 \<or> n = 38
      then [backslash, CHR ''u'', CHR ''0'', CHR ''0'', hex_digit (n div 16), hex_digit (n mod 16)]
      else [c])"

text \<open>Invalid bytes become \<open>U+FFFD\<close>, and \<open>U+2028\<close> and \<open>U+2029\<close> are escaped.\<close>

fun escape :: "string \<Rightarrow> string" where
  "escape [] = []"
| "escape (c # cs) =
     (if byte_val c < 128 then escape_ascii c @ escape cs
      else let n = utf8_len (c # cs) in
        if n = 0 then backslash # ''ufffd'' @ escape cs
        else let u = take n (c # cs) in
          (if u = [CHR 0xE2, CHR 0x80, CHR 0xA8] then backslash # ''u2028''
           else if u = [CHR 0xE2, CHR 0x80, CHR 0xA9] then backslash # ''u2029'' else u)
          @ escape (drop (n - 1) cs))"

definition quoted :: "string \<Rightarrow> string" where
  "quoted s = quote_char # escape s @ [quote_char]"

definition bracketed :: "char \<Rightarrow> string list \<Rightarrow> char \<Rightarrow> string" where
  "bracketed l parts r = l # join CHR '','' parts @ [r]"

definition array_text :: "string list \<Rightarrow> string" where
  "array_text ts = bracketed (CHR ''['') ts (CHR '']'')"

definition member_text :: "string \<times> string \<Rightarrow> string" where
  "member_text kt = quoted (fst kt) @ CHR '':'' # snd kt"

definition object_text :: "(string \<times> string) list \<Rightarrow> string" where
  "object_text kts = bracketed (CHR 0x7B) (map member_text kts) (CHR 0x7D)"

text \<open>
  \<open>json.Marshal\<close>; \<open>None\<close> is \<open>UnsupportedValueError\<close>. Map keys are sorted as byte strings; the
  struct \<open>StructuredClaim\<close> has no tags, so its fields keep their Go names and order, and its
  selector list is nil when it is empty (as \<open>Structured\<close> leaves it).
\<close>

fun json_enc :: "gval \<Rightarrow> string option"
and json_enc_list :: "gval list \<Rightarrow> string list option"
and json_enc_fields :: "(string \<times> gval) list \<Rightarrow> (string \<times> string) list option" where
  "json_enc GNil = Some ''null''"
| "json_enc (GBool b) = Some (if b then ''true'' else ''false'')"
| "json_enc (GString s) = Some (quoted s)"
| "json_enc (GFloat f) = f64_fmt f"
| "json_enc (GInt i) = Some (show_int i)"
| "json_enc (GStrings ss) = Some (array_text (map quoted ss))"
| "json_enc (GSlice vs) = map_option array_text (json_enc_list vs)"
| "json_enc (GMap kvs) = map_option (\<lambda>kts. object_text (sort_key fst kts)) (json_enc_fields kvs)"
| "json_enc (GStruct fs sel) =
     map_option (\<lambda>kts. object_text
         [(''Fields'', object_text (sort_key fst kts)),
          (''SelectiveFields'', if sel = [] then ''null'' else array_text (map quoted sel))])
       (json_enc_fields fs)"
| "json_enc_list [] = Some []"
| "json_enc_list (v # vs) =
     (case json_enc v of None \<Rightarrow> None
      | Some t \<Rightarrow> map_option ((#) t) (json_enc_list vs))"
| "json_enc_fields [] = Some []"
| "json_enc_fields ((k, v) # kvs) =
     (case json_enc v of None \<Rightarrow> None
      | Some t \<Rightarrow> map_option ((#) (k, t)) (json_enc_fields kvs))"

end
