(* ===== verification/Json_Decode.thy ===== *)
theory Json_Decode
  imports Go_Json
begin

text \<open>
  \<open>json.Unmarshal\<close>: a syntax tree of the whole input, then the decoding a target asks for.
  Numbers stay text until a target turns them into a \<open>float64\<close>, so a number that overflows is
  an error only where it is decoded.
\<close>

datatype json =
    JNull
  | JBool bool
  | JNum bool string string int
  | JStr string
  | JArr "json list"
  | JObj "(string \<times> json) list"

section \<open>Scanning\<close>

definition is_ws :: "char \<Rightarrow> bool" where
  "is_ws c \<longleftrightarrow> c = CHR '' '' \<or> c = CHR 0x09 \<or> c = CHR 0x0A \<or> c = CHR 0x0D"

definition skip_ws :: "string \<Rightarrow> string" where
  "skip_ws s = dropWhile is_ws s"

text \<open>Numbers: sign, integer digits without superfluous zeros, fraction, exponent.\<close>

definition scan_int :: "string \<Rightarrow> (string \<times> string) option" where
  "scan_int s =
     (case s of [] \<Rightarrow> None
      | c # r \<Rightarrow>
        if c = CHR ''0'' then Some (''0'', r)
        else if is_digit c then Some (c # takeWhile is_digit r, dropWhile is_digit r)
        else None)"

definition scan_frac :: "string \<Rightarrow> (string \<times> string) option" where
  "scan_frac s =
     (case s of [] \<Rightarrow> Some ([], [])
      | c # r \<Rightarrow>
        if c = CHR ''.'' then
          (let ds = takeWhile is_digit r in
           if ds = [] then None else Some (ds, dropWhile is_digit r))
        else Some ([], s))"

definition exp_sign :: "string \<Rightarrow> bool \<times> string" where
  "exp_sign r =
     (case r of [] \<Rightarrow> (False, [])
      | d # t \<Rightarrow> if d = CHR ''-'' then (True, t) else if d = CHR ''+'' then (False, t) else (False, r))"

definition scan_exp :: "string \<Rightarrow> (int \<times> string) option" where
  "scan_exp s =
     (case s of [] \<Rightarrow> Some (0, [])
      | c # r \<Rightarrow>
        if c = CHR ''e'' \<or> c = CHR ''E'' then
          (let ds = takeWhile is_digit (snd (exp_sign r)) in
           if ds = [] then None
           else Some (if fst (exp_sign r) then - int (digits_val ds) else int (digits_val ds),
                      dropWhile is_digit (snd (exp_sign r))))
        else Some (0, s))"

definition minus_sign :: "string \<Rightarrow> bool \<times> string" where
  "minus_sign s = (case s of [] \<Rightarrow> (False, []) | c # r \<Rightarrow> if c = CHR ''-'' then (True, r) else (False, s))"

definition scan_number :: "string \<Rightarrow> (json \<times> string) option" where
  "scan_number s =
     (case scan_int (snd (minus_sign s)) of None \<Rightarrow> None
      | Some (ip, s1) \<Rightarrow>
        (case scan_frac s1 of None \<Rightarrow> None
         | Some (fp, s2) \<Rightarrow>
           (case scan_exp s2 of None \<Rightarrow> None
            | Some (e, s3) \<Rightarrow> Some (JNum (fst (minus_sign s)) ip fp e, s3))))"

text \<open>Strings: the escapes, surrogate pairs, and the repair of invalid UTF-8 and lone surrogates.\<close>

definition hex_val :: "char \<Rightarrow> nat option" where
  "hex_val c =
     (let n = byte_val c in
      if 48 \<le> n \<and> n \<le> 57 then Some (n - 48)
      else if 97 \<le> n \<and> n \<le> 102 then Some (n - 87)
      else if 65 \<le> n \<and> n \<le> 70 then Some (n - 55)
      else None)"

fun hex4 :: "string \<Rightarrow> (nat \<times> string) option" where
  "hex4 (a # b # c # d # r) =
     (case (hex_val a, hex_val b, hex_val c, hex_val d) of
        (Some w, Some x, Some y, Some z) \<Rightarrow> Some (w * 4096 + x * 256 + y * 16 + z, r)
      | _ \<Rightarrow> None)"
| "hex4 _ = None"

definition low_surrogate :: "string \<Rightarrow> (nat \<times> string) option" where
  "low_surrogate s =
     (case s of
        b # u # r \<Rightarrow>
          if b = backslash \<and> u = CHR ''u'' then
            (case hex4 r of
               Some (v, r') \<Rightarrow> if 56320 \<le> v \<and> v < 57344 then Some (v, r') else None
             | None \<Rightarrow> None)
          else None
      | _ \<Rightarrow> None)"

text \<open>After the backslash: the bytes the escape stands for, and the rest.\<close>

definition scan_escape :: "string \<Rightarrow> (bytes \<times> string) option" where
  "scan_escape s =
     (case s of [] \<Rightarrow> None
      | c # r \<Rightarrow>
        if c = quote_char \<or> c = backslash \<or> c = CHR ''/'' then Some ([c], r)
        else if c = CHR ''b'' then Some ([CHR 0x08], r)
        else if c = CHR ''f'' then Some ([CHR 0x0C], r)
        else if c = CHR ''n'' then Some ([CHR 0x0A], r)
        else if c = CHR ''r'' then Some ([CHR 0x0D], r)
        else if c = CHR ''t'' then Some ([CHR 0x09], r)
        else if c = CHR ''u'' then
          (case hex4 r of None \<Rightarrow> None
           | Some (v, r') \<Rightarrow>
             if 55296 \<le> v \<and> v < 56320 then
               (case low_surrogate r' of
                  Some (w, r'') \<Rightarrow>
                    Some (utf8_enc (65536 + (v - 55296) * 1024 + (w - 56320)), r'')
                | None \<Rightarrow> Some (replacement_char, r'))
             else if 56320 \<le> v \<and> v < 57344 then Some (replacement_char, r')
             else Some (utf8_enc v, r'))
        else None)"

lemma hex4_shorter: "hex4 s = Some (v, r) \<Longrightarrow> length r < length s"
  by (cases s rule: hex4.cases) (auto split: option.splits)

lemma low_surrogate_shorter: "low_surrogate s = Some (v, r) \<Longrightarrow> length r < length s"
  by (auto simp: low_surrogate_def dest!: hex4_shorter split: list.splits if_splits option.splits)

lemma scan_escape_shorter: "scan_escape s = Some (out, r) \<Longrightarrow> length r < length s"
  by (auto simp: scan_escape_def dest!: hex4_shorter low_surrogate_shorter
      split: list.splits if_splits option.splits)

definition prepend :: "bytes \<Rightarrow> (bytes \<times> string) option \<Rightarrow> (bytes \<times> string) option" where
  "prepend out r = map_option (\<lambda>(s, t). (out @ s, t)) r"

lemma prepend_simps [simp]:
  "prepend out None = None"
  "prepend out (Some (s, t)) = Some (out @ s, t)"
  by (simp_all add: prepend_def)

text \<open>The rest of a string after its opening quote: its bytes and what follows the closing quote.\<close>

function scan_string :: "string \<Rightarrow> (bytes \<times> string) option" where
  "scan_string [] = None"
| "scan_string (c # cs) =
     (if c = quote_char then Some ([], cs)
      else if c = backslash then
        (case scan_escape cs of None \<Rightarrow> None
         | Some (out, r) \<Rightarrow> prepend out (scan_string r))
      else if byte_val c < 32 then None
      else let n = utf8_len (c # cs) in
        if n = 0 then prepend replacement_char (scan_string cs)
        else prepend (take n (c # cs)) (scan_string (drop (n - 1) cs)))"
  by pat_completeness auto
termination
  by (relation "measure length") (auto dest!: scan_escape_shorter)

section \<open>Parsing\<close>

text \<open>\<open>encoding/json\<close> gives up below this nesting depth.\<close>

definition json_max_depth :: nat where
  "json_max_depth = 10000"

definition literal :: "string \<Rightarrow> json \<Rightarrow> string \<Rightarrow> (json \<times> string) option" where
  "literal w v s = (if take (length w) s = w then Some (v, drop (length w) s) else None)"

fun parse_value :: "nat \<Rightarrow> nat \<Rightarrow> string \<Rightarrow> (json \<times> string) option"
and parse_elems :: "nat \<Rightarrow> nat \<Rightarrow> string \<Rightarrow> (json list \<times> string) option"
and parse_members :: "nat \<Rightarrow> nat \<Rightarrow> string \<Rightarrow> ((string \<times> json) list \<times> string) option" where
  "parse_value 0 d s = None"
| "parse_value (Suc f) d s =
     (case skip_ws s of [] \<Rightarrow> None
      | c # r \<Rightarrow>
        if c = CHR 0x7B then
          (if d \<ge> json_max_depth then None
           else if take 1 (skip_ws r) = [CHR 0x7D] then Some (JObj [], drop 1 (skip_ws r))
           else map_option (\<lambda>(kvs, t). (JObj kvs, t)) (parse_members f (d + 1) r))
        else if c = CHR ''['' then
          (if d \<ge> json_max_depth then None
           else if take 1 (skip_ws r) = [CHR '']''] then Some (JArr [], drop 1 (skip_ws r))
           else map_option (\<lambda>(vs, t). (JArr vs, t)) (parse_elems f (d + 1) r))
        else if c = quote_char then map_option (\<lambda>(b, t). (JStr b, t)) (scan_string r)
        else if c = CHR ''t'' then literal ''true'' (JBool True) (c # r)
        else if c = CHR ''f'' then literal ''false'' (JBool False) (c # r)
        else if c = CHR ''n'' then literal ''null'' JNull (c # r)
        else scan_number (c # r))"
| "parse_elems 0 d s = None"
| "parse_elems (Suc f) d s =
     (case parse_value f d s of None \<Rightarrow> None
      | Some (v, r) \<Rightarrow>
        (case skip_ws r of [] \<Rightarrow> None
         | c # t \<Rightarrow>
           if c = CHR '','' then map_option (\<lambda>(vs, u). (v # vs, u)) (parse_elems f d t)
           else if c = CHR '']'' then Some ([v], t)
           else None))"
| "parse_members 0 d s = None"
| "parse_members (Suc f) d s =
     (case skip_ws s of [] \<Rightarrow> None
      | q # r \<Rightarrow>
        if q \<noteq> quote_char then None
        else (case scan_string r of None \<Rightarrow> None
        | Some (k, r1) \<Rightarrow>
          (case skip_ws r1 of [] \<Rightarrow> None
           | c1 # r2 \<Rightarrow>
             if c1 \<noteq> CHR '':'' then None
             else (case parse_value f d r2 of None \<Rightarrow> None
             | Some (v, r3) \<Rightarrow>
               (case skip_ws r3 of [] \<Rightarrow> None
                | c # t \<Rightarrow>
                  if c = CHR '','' then
                    map_option (\<lambda>(kvs, u). ((k, v) # kvs, u)) (parse_members f d t)
                  else if c = CHR 0x7D then Some ([(k, v)], t)
                  else None)))))"

definition json_fuel :: "string \<Rightarrow> nat" where
  "json_fuel s = 2 * length s + 2"

text \<open>The syntax tree of an input: one value, and nothing but white space after it.\<close>

definition parse_json :: "string \<Rightarrow> json option" where
  "parse_json s =
     (case parse_value (json_fuel s) 0 s of None \<Rightarrow> None
      | Some (v, r) \<Rightarrow> if skip_ws r = [] then Some v else None)"

section \<open>Decoding\<close>

text \<open>A number as \<open>strconv.ParseFloat\<close> reads it; \<open>None\<close> when it overflows.\<close>

definition num_value :: "bool \<Rightarrow> string \<Rightarrow> string \<Rightarrow> int \<Rightarrow> f64 option" where
  "num_value neg ip fp e = f64_of_decimal neg (digits_val (ip @ fp)) (e - int (length fp))"

text \<open>Into \<open>any\<close>: objects become maps by assignment in text order, so the last duplicate key wins.\<close>

fun to_any :: "json \<Rightarrow> gval option"
and to_any_list :: "json list \<Rightarrow> gval list option"
and to_any_fields :: "(string \<times> json) list \<Rightarrow> (string \<times> gval) list option" where
  "to_any JNull = Some GNil"
| "to_any (JBool b) = Some (GBool b)"
| "to_any (JNum neg ip fp e) = map_option GFloat (num_value neg ip fp e)"
| "to_any (JStr s) = Some (GString s)"
| "to_any (JArr vs) = map_option GSlice (to_any_list vs)"
| "to_any (JObj kvs) = map_option (\<lambda>m. GMap (assign_all [] m)) (to_any_fields kvs)"
| "to_any_list [] = Some []"
| "to_any_list (v # vs) =
     (case to_any v of None \<Rightarrow> None
      | Some x \<Rightarrow> map_option ((#) x) (to_any_list vs))"
| "to_any_fields [] = Some []"
| "to_any_fields ((k, v) # kvs) =
     (case to_any v of None \<Rightarrow> None
      | Some x \<Rightarrow> map_option ((#) (k, x)) (to_any_fields kvs))"

definition unmarshal_any :: "string \<Rightarrow> gval option" where
  "unmarshal_any s = Option.bind (parse_json s) to_any"

text \<open>Into a nil \<open>map[string]any\<close>: \<open>null\<close> leaves it nil, which reads as the empty map.\<close>

definition unmarshal_map :: "string \<Rightarrow> gmap option" where
  "unmarshal_map s =
     (case parse_json s of
        Some (JObj kvs) \<Rightarrow> map_option (assign_all []) (to_any_fields kvs)
      | Some JNull \<Rightarrow> Some []
      | _ \<Rightarrow> None)"

text \<open>
  Into \<open>[]json.RawMessage\<close>: the elements undecoded (here as syntax trees), \<open>null\<close> as the nil slice.
  Decoding an element into a \<open>string\<close> leaves the empty string when the element is \<open>null\<close>.
\<close>

definition unmarshal_raws :: "string \<Rightarrow> json list option" where
  "unmarshal_raws s =
     (case parse_json s of
        Some (JArr vs) \<Rightarrow> Some vs
      | Some JNull \<Rightarrow> Some []
      | _ \<Rightarrow> None)"

definition raw_string :: "json \<Rightarrow> string option" where
  "raw_string v = (case v of JStr s \<Rightarrow> Some s | JNull \<Rightarrow> Some [] | _ \<Rightarrow> None)"

section \<open>Decoded values are Go values\<close>

text \<open>\<open>go_value\<close>: every map in the value has distinct keys.\<close>

fun go_value :: "gval \<Rightarrow> bool"
and go_values :: "gval list \<Rightarrow> bool"
and go_fields :: "(string \<times> gval) list \<Rightarrow> bool" where
  "go_value (GSlice vs) = go_values vs"
| "go_value (GMap kvs) = (distinct (map fst kvs) \<and> go_fields kvs)"
| "go_value (GStruct fs sel) = (distinct (map fst fs) \<and> go_fields fs)"
| "go_value _ = True"
| "go_values [] = True"
| "go_values (v # vs) = (go_value v \<and> go_values vs)"
| "go_fields [] = True"
| "go_fields ((k, v) # kvs) = (go_value v \<and> go_fields kvs)"

lemma go_fields_iff: "go_fields kvs \<longleftrightarrow> (\<forall>kv \<in> set kvs. go_value (snd kv))"
  by (induction kvs) auto

lemma go_assign_all: "go_fields m \<Longrightarrow> go_fields kvs \<Longrightarrow> go_fields (assign_all m kvs)"
  using set_assign_all [of m kvs] by (auto simp: go_fields_iff)

lemma to_any_go_value:
  "to_any j = Some v \<Longrightarrow> go_value v"
  "to_any_list js = Some vs \<Longrightarrow> go_values vs"
  "to_any_fields kjs = Some kvs \<Longrightarrow> go_fields kvs"
  by (induction j and js and kjs arbitrary: v and vs and kvs rule: to_any_to_any_list_to_any_fields.induct)
     (auto split: option.splits intro!: distinct_assign_all go_assign_all)

lemma unmarshal_map_go:
  "unmarshal_map s = Some m \<Longrightarrow> distinct (map fst m) \<and> go_fields m"
  by (auto simp: unmarshal_map_def split: option.splits json.splits
      intro!: distinct_assign_all go_assign_all dest: to_any_go_value(3))

end
