(* ===== verification/Json_Roundtrip.thy ===== *)
theory Json_Roundtrip
  imports Json_Decode
begin

text \<open>
  What \<open>json.Unmarshal\<close> makes of the output of \<open>json.Marshal\<close>: strings and keys come back
  unchanged when they are valid UTF-8 (\<open>scan_string_escaped\<close>), every marshalled text is one
  well-formed value (\<open>json_enc_reads\<close>, by induction on the value, with the fuel and the nesting
  depth it needs), and decoding it gives the value back up to the change of representation
  \<open>json_norm\<close> (\<open>unmarshal_marshal\<close>).
\<close>

section \<open>Strings\<close>

lemma quote_neq_backslash [simp]: "quote_char \<noteq> backslash" "backslash \<noteq> quote_char"
  by (simp_all add: quote_char_def backslash_def)

lemma scan_string_quote [simp]: "scan_string (quote_char # r) = Some ([], r)"
  by simp

lemma hex_val_digit: "n < 16 \<Longrightarrow> hex_val (hex_digit n) = Some n"
  by (auto simp: hex_val_def hex_digit_def Let_def)

lemma hex4_digits:
  "a < 16 \<Longrightarrow> b < 16 \<Longrightarrow>
     hex4 (CHR ''0'' # CHR ''0'' # hex_digit a # hex_digit b # r) = Some (a * 16 + b, r)"
proof -
  have "hex_val (CHR ''0'') = Some 0" by (simp add: hex_val_def)
  then show "a < 16 \<Longrightarrow> b < 16 \<Longrightarrow> ?thesis" by (simp add: hex_val_digit)
qed

lemma scan_escape_u:
  assumes "hex4 r = Some (v, r')" "v < 55296 \<or> 57344 \<le> v"
  shows "scan_escape (CHR ''u'' # r) = Some (utf8_enc v, r')"
  using assms by (auto simp: scan_escape_def quote_char_def backslash_def)

lemma scan_string_escape:
  "scan_escape cs = Some (out, r) \<Longrightarrow> scan_string (backslash # cs) = prepend out (scan_string r)"
  by (simp add: backslash_def quote_char_def)

lemma char_eqI: "byte_val c = byte_val d \<Longrightarrow> c = d"
  by simp

lemmas escape_simps = escape_ascii_def scan_escape_def quote_char_def backslash_def

lemma scan_escape_ascii:
  assumes "byte_val c < 128"
  shows "scan_string (escape_ascii c @ r) = prepend [c] (scan_string r)"
proof -
  let ?n = "byte_val c"
  consider (self) "?n = 34 \<or> ?n = 92" | (b) "?n = 8" | (f) "?n = 12" | (n) "?n = 10"
    | (r) "?n = 13" | (t) "?n = 9"
    | (u) "?n < 32 \<or> ?n = 60 \<or> ?n = 62 \<or> ?n = 38" "?n \<notin> {34, 92, 8, 12, 10, 13, 9}"
    | (raw) "?n \<ge> 32" "?n \<notin> {34, 92, 60, 62, 38}"
    by fastforce
  then show ?thesis
  proof cases
    case self
    then have c: "c = quote_char \<or> c = backslash"
      using char_eqI [of c quote_char] char_eqI [of c backslash]
      by (auto simp: quote_char_def backslash_def simp del: of_char_eq_iff)
    then have "escape_ascii c = [backslash, c]" using self by (simp add: escape_ascii_def)
    moreover have "scan_escape (c # r) = Some ([c], r)" using c by (auto simp: scan_escape_def)
    ultimately show ?thesis by (simp add: scan_string_escape)
  next
    case u
    then have "escape_ascii c @ r = backslash # CHR ''u'' # CHR ''0'' # CHR ''0''
        # hex_digit (?n div 16) # hex_digit (?n mod 16) # r"
      by (auto simp: escape_ascii_def Let_def)
    moreover have "?n div 16 < 16" "?n mod 16 < 16" using assms by auto
    then have "scan_escape (CHR ''u'' # CHR ''0'' # CHR ''0''
        # hex_digit (?n div 16) # hex_digit (?n mod 16) # r) = Some (utf8_enc ?n, r)"
      using assms by (intro scan_escape_u) (simp_all add: hex4_digits del: hex4.simps)
    moreover have "utf8_enc ?n = [c]" using assms by (simp add: utf8_enc_def)
    ultimately show ?thesis by (simp add: scan_string_escape)
  next
    case raw
    then have "escape_ascii c = [c]" by (auto simp: escape_ascii_def Let_def)
    moreover have "c \<noteq> quote_char" "c \<noteq> backslash"
      using raw by (auto simp: quote_char_def backslash_def)
    ultimately show ?thesis using raw assms by simp
  next
    case b
    then have "c = CHR 0x08" by (intro char_eqI) simp
    then show ?thesis by (simp add: escape_simps)
  next
    case f
    then have "c = CHR 0x0C" by (intro char_eqI) simp
    then show ?thesis by (simp add: escape_simps)
  next
    case n
    then have "c = CHR 0x0A" by (intro char_eqI) simp
    then show ?thesis by (simp add: escape_simps)
  next
    case r
    then have "c = CHR 0x0D" by (intro char_eqI) simp
    then show ?thesis by (simp add: escape_simps)
  next
    case t
    then have "c = CHR 0x09" by (intro char_eqI) simp
    then show ?thesis by (simp add: escape_simps)
  qed
qed

lemma scan_string_rune:
  assumes "128 \<le> byte_val c" and "utf8_len (c # cs) = n" and "n \<noteq> 0"
  shows "scan_string (take n (c # cs) @ r) = prepend (take n (c # cs)) (scan_string r)"
proof -
  obtain m where n: "n = Suc m" using assms(3) by (cases n) auto
  have len: "length (take n (c # cs)) = n" using utf8_len_le [of "c # cs"] assms(2) by simp
  have u: "utf8_len (take n (c # cs) @ r) = n" using utf8_len_append [of "c # cs" r] assms by simp
  have ch: "c \<noteq> quote_char" "c \<noteq> backslash" "\<not> byte_val c < 32"
    using assms(1) by (auto simp: quote_char_def backslash_def)
  have hd: "take n (c # cs) @ r = c # (take m cs @ r)" by (simp add: n)
  have "drop m (take m cs @ r) = r" "take n (c # take m cs @ r) = take n (c # cs)"
    using len by (simp_all add: n)
  then show ?thesis using u ch unfolding hd by (simp add: n del: take_Suc_Cons)
qed

lemma scan_string_uXXXX:
  "scan_string (backslash # ''u2028'' @ r) = prepend [CHR 0xE2, CHR 0x80, CHR 0xA8] (scan_string r)"
  "scan_string (backslash # ''u2029'' @ r) = prepend [CHR 0xE2, CHR 0x80, CHR 0xA9] (scan_string r)"
  by (rule scan_string_escape, simp add: scan_escape_def quote_char_def backslash_def hex_val_def
      utf8_enc_def, code_simp)+

theorem scan_string_escaped:
  "utf8_valid s \<Longrightarrow> scan_string (escape s @ quote_char # r) = Some (s, r)"
proof (induction s rule: utf8_valid.induct)
  case (2 c cs)
  let ?n = "utf8_len (c # cs)"
  have n: "?n \<noteq> 0" "utf8_valid (drop (?n - 1) cs)" using "2.prems" by (auto simp: Let_def)
  have IH: "scan_string (escape (drop (?n - 1) cs) @ quote_char # r) = Some (drop (?n - 1) cs, r)"
    using "2.IH" n(2) by simp
  have whole: "take ?n (c # cs) @ drop (?n - 1) cs = c # cs"
    using n(1) by (cases "?n") auto
  show ?case
  proof (cases "byte_val c < 128")
    case True
    then show ?thesis using IH by (simp add: scan_escape_ascii)
  next
    case False
    let ?u = "take ?n (c # cs)"
    have "escape (c # cs) @ quote_char # r =
        (if ?u = [CHR 0xE2, CHR 0x80, CHR 0xA8] then backslash # ''u2028''
         else if ?u = [CHR 0xE2, CHR 0x80, CHR 0xA9] then backslash # ''u2029'' else ?u)
        @ escape (drop (?n - 1) cs) @ quote_char # r" (is "_ = ?e @ ?rest")
      using False n(1) by (simp add: Let_def)
    moreover have "scan_string (?e @ ?rest) = prepend ?u (scan_string ?rest)"
      using scan_string_rune [OF _ refl n(1), of ?rest] False
        scan_string_uXXXX [of ?rest] by (simp only: split: if_splits) auto
    ultimately show ?thesis using IH whole by (simp del: escape.simps)
  qed
qed simp

section \<open>Numbers\<close>

text \<open>What may follow a value inside a document: nothing, or a structural character.\<close>

definition stops :: "string \<Rightarrow> bool" where
  "stops r \<longleftrightarrow> (case r of [] \<Rightarrow> True | c # _ \<Rightarrow> c = CHR '','' \<or> c = CHR '']'' \<or> c = CHR 0x7D)"

lemma stops_simps [simp]:
  "stops []" "stops (CHR '','' # r)" "stops (CHR '']'' # r)" "stops (CHR 0x7D # r)"
  by (simp_all add: stops_def)

lemma stops_head:
  "stops (c # r) \<Longrightarrow> \<not> is_digit c \<and> c \<noteq> CHR ''.'' \<and> c \<noteq> CHR ''e'' \<and> c \<noteq> CHR ''E'' \<and> \<not> is_ws c"
  by (auto simp: stops_def is_digit_def is_ws_def)

lemma stops_digit: "stops r \<Longrightarrow> takeWhile is_digit r = [] \<and> dropWhile is_digit r = r"
  by (cases r) (auto dest: stops_head)

lemma digits_then:
  assumes "stops r"
  shows "takeWhile is_digit (x @ r) = takeWhile is_digit x"
    and "dropWhile is_digit (x @ r) = dropWhile is_digit x @ r"
  by (induction x) (simp_all add: stops_digit [OF assms])

lemma scan_int_then: "scan_int s = Some (a, t) \<Longrightarrow> stops r \<Longrightarrow> scan_int (s @ r) = Some (a, t @ r)"
  by (auto simp: scan_int_def digits_then split: list.splits if_splits)

lemma scan_frac_stops: "stops r \<Longrightarrow> scan_frac r = Some ([], r)"
  by (cases r) (auto simp: scan_frac_def dest: stops_head)

lemma scan_exp_stops: "stops r \<Longrightarrow> scan_exp r = Some (0, r)"
  by (cases r) (auto simp: scan_exp_def dest: stops_head)

lemma scan_frac_then:
  assumes "scan_frac s = Some (a, t)" "stops r"
  shows "scan_frac (s @ r) = Some (a, t @ r)"
proof (cases s)
  case Nil
  then show ?thesis using assms scan_frac_stops by (auto simp: scan_frac_def)
next
  case (Cons c cs)
  then show ?thesis
    using assms(1) digits_then [OF assms(2)] by (auto simp: scan_frac_def Let_def split: if_splits)
qed

lemma exp_sign_append: "s \<noteq> [] \<Longrightarrow> exp_sign (s @ r) = (fst (exp_sign s), snd (exp_sign s) @ r)"
  by (cases s) (auto simp: exp_sign_def)

lemma scan_exp_then:
  assumes "scan_exp s = Some (a, t)" "stops r"
  shows "scan_exp (s @ r) = Some (a, t @ r)"
proof (cases s)
  case Nil
  then show ?thesis using assms scan_exp_stops by (auto simp: scan_exp_def)
next
  case (Cons c cs)
  show ?thesis
  proof (cases "c = CHR ''e'' \<or> c = CHR ''E''")
    case True
    then have "cs \<noteq> []" using assms(1) Cons by (auto simp: scan_exp_def exp_sign_def)
    then show ?thesis
      using assms(1) Cons True
      by (auto simp: scan_exp_def exp_sign_append digits_then [OF assms(2)] Let_def split: if_splits)
  next
    case False
    then show ?thesis using assms(1) by (auto simp: scan_exp_def Cons)
  qed
qed

lemma minus_sign_append:
  "s \<noteq> [] \<Longrightarrow> minus_sign (s @ r) = (fst (minus_sign s), snd (minus_sign s) @ r)"
  by (cases s) (auto simp: minus_sign_def)

lemma scan_number_then:
  assumes "scan_number s = Some (j, t)" "stops r"
  shows "scan_number (s @ r) = Some (j, t @ r)"
proof -
  have s: "s \<noteq> []" using assms(1) by (auto simp: scan_number_def minus_sign_def scan_int_def)
  obtain ip s1 fp s2 e where
    "scan_int (snd (minus_sign s)) = Some (ip, s1)" "scan_frac s1 = Some (fp, s2)"
    "scan_exp s2 = Some (e, t)" "j = JNum (fst (minus_sign s)) ip fp e"
    using assms(1) by (auto simp: scan_number_def split: option.splits)
  then show ?thesis
    using assms(2) by (simp add: scan_number_def minus_sign_append [OF s]
        scan_int_then scan_frac_then scan_exp_then)
qed

lemma scan_number_show:
  "scan_number (show_int i) = Some (JNum (i < 0) (show_nat (nat \<bar>i\<bar>)) [] 0, [])"
proof -
  have int: "scan_int (show_nat n) = Some (show_nat n, [])" for n
  proof (cases "show_nat n")
    case (Cons c r)
    have all: "\<forall>x \<in> set (show_nat n). is_digit x" using show_nat_digits by blast
    show ?thesis
    proof (cases "c = CHR ''0''")
      case True
      then have "n = 0" using hd_show_nat_zero [of n] Cons by simp
      then show ?thesis by (simp add: scan_int_def)
    next
      case False
      then show ?thesis using all Cons by (simp add: scan_int_def)
    qed
  qed simp
  have neg: "\<exists>c r. show_nat n = c # r \<and> c \<noteq> CHR ''-''" for n
  proof (cases "show_nat n")
    case (Cons c r)
    then have "is_digit c" using show_nat_digits [of c n] by simp
    then have "c \<noteq> CHR ''-''" by (auto simp: is_digit_def)
    then show ?thesis using Cons by simp
  qed simp
  have rest: "scan_frac [] = Some ([], [])" "scan_exp [] = Some (0, [])"
    by (simp_all add: scan_frac_def scan_exp_def)
  have "minus_sign (show_nat n) = (False, show_nat n)" for n
    using neg [of n] by (auto simp: minus_sign_def)
  moreover have "minus_sign (CHR ''-'' # r) = (True, r)" for r by (simp add: minus_sign_def)
  ultimately show ?thesis by (simp add: show_int_def scan_number_def int rest)
qed

section \<open>Documents\<close>

text \<open>The syntax tree of a marshalled value, and the nesting depth of its text.\<close>

fun json_view :: "gval \<Rightarrow> json"
and json_view_list :: "gval list \<Rightarrow> json list"
and json_view_fields :: "(string \<times> gval) list \<Rightarrow> (string \<times> json) list" where
  "json_view GNil = JNull"
| "json_view (GBool b) = JBool b"
| "json_view (GString s) = JStr s"
| "json_view (GFloat f) =
     (case Option.bind (f64_fmt f) scan_number of Some (j, []) \<Rightarrow> j | _ \<Rightarrow> JNull)"
| "json_view (GInt i) = JNum (i < 0) (show_nat (nat \<bar>i\<bar>)) [] 0"
| "json_view (GStrings ss) = JArr (map JStr ss)"
| "json_view (GSlice vs) = JArr (json_view_list vs)"
| "json_view (GMap kvs) = JObj (sort_key fst (json_view_fields kvs))"
| "json_view (GStruct fs sel) =
     JObj [(''Fields'', JObj (sort_key fst (json_view_fields fs))),
           (''SelectiveFields'', if sel = [] then JNull else JArr (map JStr sel))]"
| "json_view_list [] = []"
| "json_view_list (v # vs) = json_view v # json_view_list vs"
| "json_view_fields [] = []"
| "json_view_fields ((k, v) # kvs) = (k, json_view v) # json_view_fields kvs"

fun json_depth :: "gval \<Rightarrow> nat"
and json_depth_list :: "gval list \<Rightarrow> nat"
and json_depth_fields :: "(string \<times> gval) list \<Rightarrow> nat" where
  "json_depth (GStrings ss) = 1"
| "json_depth (GSlice vs) = Suc (json_depth_list vs)"
| "json_depth (GMap kvs) = Suc (json_depth_fields kvs)"
| "json_depth (GStruct fs sel) = Suc (Suc (json_depth_fields fs))"
| "json_depth _ = 0"
| "json_depth_list [] = 0"
| "json_depth_list (v # vs) = max (json_depth v) (json_depth_list vs)"
| "json_depth_fields [] = 0"
| "json_depth_fields ((k, v) # kvs) = max (json_depth v) (json_depth_fields kvs)"

text \<open>
  The values that survive the trip through text: strings and keys are valid UTF-8, and a float has
  a decimal. (That its decimal reads back as the same float is a separate question, asked where
  the value is decoded.)
\<close>

definition float_text_ok :: "f64 \<Rightarrow> bool" where
  "float_text_ok f =
     (case Option.bind (f64_fmt f) scan_number of Some (j, []) \<Rightarrow> True | _ \<Rightarrow> False)"

fun json_ok :: "gval \<Rightarrow> bool"
and json_ok_list :: "gval list \<Rightarrow> bool"
and json_ok_fields :: "(string \<times> gval) list \<Rightarrow> bool" where
  "json_ok (GString s) = utf8_valid s"
| "json_ok (GFloat f) = float_text_ok f"
| "json_ok (GStrings ss) = list_all utf8_valid ss"
| "json_ok (GSlice vs) = json_ok_list vs"
| "json_ok (GMap kvs) = json_ok_fields kvs"
| "json_ok (GStruct fs sel) = (json_ok_fields fs \<and> list_all utf8_valid sel)"
| "json_ok _ = True"
| "json_ok_list [] = True"
| "json_ok_list (v # vs) = (json_ok v \<and> json_ok_list vs)"
| "json_ok_fields [] = True"
| "json_ok_fields ((k, v) # kvs) = (utf8_valid k \<and> json_ok v \<and> json_ok_fields kvs)"

text \<open>
  \<open>reads D t j\<close>: inside any document, with \<open>D\<close> levels of nesting to spare and enough fuel, the
  parser takes the text \<open>t\<close> for the value \<open>j\<close>.
\<close>

definition value_start :: "string \<Rightarrow> bool" where
  "value_start t \<longleftrightarrow> (\<exists>c r. t = c # r \<and> \<not> is_ws c \<and> c \<noteq> CHR '']'')"

definition reads :: "nat \<Rightarrow> string \<Rightarrow> json \<Rightarrow> bool" where
  "reads D t j \<longleftrightarrow>
     value_start t \<and>
     (\<forall>f d r. d + D \<le> json_max_depth \<longrightarrow> 2 * length t + 1 \<le> f \<longrightarrow> stops r \<longrightarrow>
        parse_value f d (t @ r) = Some (j, r))"

lemma readsI:
  assumes "value_start t"
    and "\<And>f d r. d + D \<le> json_max_depth \<Longrightarrow> 2 * length t \<le> f \<Longrightarrow> stops r \<Longrightarrow>
      parse_value (Suc f) d (t @ r) = Some (j, r)"
  shows "reads D t j"
  unfolding reads_def
proof (intro conjI allI impI)
  fix f d r
  assume "d + D \<le> json_max_depth" "2 * length t + 1 \<le> f" "stops r"
  then show "parse_value f d (t @ r) = Some (j, r)" using assms(2) by (cases f) auto
qed (rule assms(1))

lemma readsD:
  "reads D t j \<Longrightarrow> d + D \<le> json_max_depth \<Longrightarrow> 2 * length t + 1 \<le> f \<Longrightarrow> stops r \<Longrightarrow>
     parse_value f d (t @ r) = Some (j, r)"
  by (simp add: reads_def)

lemma reads_mono: "reads D t j \<Longrightarrow> D \<le> E \<Longrightarrow> reads E t j"
  by (auto simp: reads_def)

lemma skip_ws_id: "\<not> is_ws c \<Longrightarrow> skip_ws (c # r) = c # r"
  by (simp add: skip_ws_def)

lemma structural_not_ws [simp]:
  "\<not> is_ws (CHR 0x7B)" "\<not> is_ws (CHR ''['')" "\<not> is_ws quote_char" "\<not> is_ws (CHR '':'')"
  "\<not> is_ws (CHR '','')" "\<not> is_ws (CHR '']'')" "\<not> is_ws (CHR 0x7D)"
  "\<not> is_ws (CHR ''t'')" "\<not> is_ws (CHR ''f'')" "\<not> is_ws (CHR ''n'')"
  by (simp_all add: is_ws_def quote_char_def)

lemma reads_literal:
  "reads D ''null'' JNull" "reads D ''true'' (JBool True)" "reads D ''false'' (JBool False)"
  by (rule readsI; simp add: value_start_def skip_ws_id literal_def quote_char_def)+

lemma reads_string:
  assumes "utf8_valid s"
  shows "reads D (quoted s) (JStr s)"
proof (rule readsI)
  show "value_start (quoted s)" by (simp add: value_start_def quoted_def) (simp add: quote_char_def)
  show "parse_value (Suc f) d (quoted s @ r) = Some (JStr s, r)" for f d r
    using scan_string_escaped [OF assms, of r]
    by (simp add: quoted_def skip_ws_id) (simp add: quote_char_def)
qed

lemma reads_number:
  assumes "scan_number t = Some (j, [])"
  shows "reads D t j"
proof -
  obtain c r where t: "t = c # r" and c: "is_digit c \<or> c = CHR ''-''"
  proof (cases t)
    case (Cons c r)
    have "is_digit (CHR ''0'')" by (simp add: is_digit_def)
    then have "is_digit c \<or> c = CHR ''-''"
      using assms Cons by (auto simp: scan_number_def minus_sign_def scan_int_def
          split: option.splits if_splits)
    then show ?thesis using Cons that by blast
  qed (use assms in \<open>auto simp: scan_number_def minus_sign_def scan_int_def\<close>)
  have ch: "\<not> is_ws c" "c \<noteq> CHR 0x7B" "c \<noteq> CHR ''[''" "c \<noteq> CHR '']''" "c \<noteq> quote_char"
    "c \<noteq> CHR ''t''" "c \<noteq> CHR ''f''" "c \<noteq> CHR ''n''"
    using c by (auto simp: is_digit_def is_ws_def quote_char_def)
  show ?thesis
  proof (rule readsI)
    show "value_start t" using t ch by (auto simp: value_start_def)
    show "parse_value (Suc f) d (t @ q) = Some (j, q)" if "stops q" for f d q
      using scan_number_then [OF assms that] ch by (simp add: t skip_ws_id)
  qed
qed

text \<open>Element and member lists: each element reads as its tree, so the list does.\<close>

lemma value_start_skip: "value_start t \<Longrightarrow> skip_ws (t @ r) = t @ r"
  by (auto simp: value_start_def skip_ws_id)

lemma parse_elems_reads:
  "zs \<noteq> [] \<Longrightarrow> \<forall>z \<in> set zs. reads D (fst z) (snd z) \<Longrightarrow> d + D \<le> json_max_depth \<Longrightarrow>
     2 * length (join (CHR '','') (map fst zs)) + 2 \<le> f \<Longrightarrow>
     parse_elems f d (join (CHR '','') (map fst zs) @ CHR '']'' # r) = Some (map snd zs, r)"
proof (induction zs arbitrary: f)
  case (Cons z zs)
  obtain f' where f: "f = Suc f'" using Cons.prems(4) by (cases f) auto
  show ?case
  proof (cases zs)
    case Nil
    have "parse_value f' d (fst z @ CHR '']'' # r) = Some (snd z, CHR '']'' # r)"
      using Cons.prems Nil f by (intro readsD [of D]) auto
    then show ?thesis using Nil f by (simp add: skip_ws_id)
  next
    case (Cons y ys)
    let ?rest = "join (CHR '','') (map fst zs) @ CHR '']'' # r"
    have len: "2 * length (fst z) + 1 \<le> f'" "2 * length (join (CHR '','') (map fst zs)) + 2 \<le> f'"
      using Cons.prems(4) Cons f by auto
    have "parse_value f' d (fst z @ CHR '','' # ?rest) = Some (snd z, CHR '','' # ?rest)"
      using Cons.prems len by (intro readsD [of D]) auto
    moreover have "parse_elems f' d ?rest = Some (map snd zs, r)"
      using Cons.prems len Cons by (intro Cons.IH) auto
    ultimately show ?thesis using Cons f by (simp add: skip_ws_id)
  qed
qed simp

lemma parse_member:
  assumes "utf8_valid k" "reads D t j" "d + D \<le> json_max_depth" "2 * length t + 1 \<le> f" "stops r"
  shows "parse_members (Suc f) d (member_text (k, t) @ r) =
    (case r of [] \<Rightarrow> None
     | c # u \<Rightarrow>
       if c = CHR '','' then map_option (\<lambda>(kvs, w). ((k, j) # kvs, w)) (parse_members f d u)
       else if c = CHR 0x7D then Some ([(k, j)], u) else None)"
proof -
  have "member_text (k, t) @ r = quote_char # escape k @ quote_char # CHR '':'' # t @ r"
    by (simp add: member_text_def quoted_def)
  moreover have "scan_string (escape k @ quote_char # CHR '':'' # t @ r) = Some (k, CHR '':'' # t @ r)"
    using assms(1) by (rule scan_string_escaped)
  moreover have "parse_value f d (t @ r) = Some (j, r)"
    using assms(2-5) by (intro readsD [of D])
  moreover have "skip_ws r = r" using assms(5) by (cases r) (auto simp: skip_ws_def dest: stops_head)
  ultimately show ?thesis by (simp add: skip_ws_id)
qed

lemma parse_members_reads:
  "zs \<noteq> [] \<Longrightarrow> \<forall>(k, t, j) \<in> set zs. utf8_valid k \<and> reads D t j \<Longrightarrow> d + D \<le> json_max_depth \<Longrightarrow>
     2 * length (join (CHR '','') (map (\<lambda>(k, t, j). member_text (k, t)) zs)) + 2 \<le> f \<Longrightarrow>
     parse_members f d (join (CHR '','') (map (\<lambda>(k, t, j). member_text (k, t)) zs) @ CHR 0x7D # r) =
       Some (map (\<lambda>(k, t, j). (k, j)) zs, r)"
proof (induction zs arbitrary: f)
  case (Cons z zs)
  obtain k t j where z: "z = (k, t, j)" by (cases z)
  obtain f' where f: "f = Suc f'" using Cons.prems(4) by (cases f) auto
  have len: "length t \<le> length (member_text (k, t))" by (simp add: member_text_def)
  show ?case
  proof (cases zs)
    case Nil
    have "2 * length t + 1 \<le> f'" using Cons.prems(4) Nil f z len by simp
    then show ?thesis
      using parse_member [of k D t j d f' "CHR 0x7D # r"] Cons.prems Nil f z by simp
  next
    case (Cons y ys)
    let ?rest = "join (CHR '','') (map (\<lambda>(k, t, j). member_text (k, t)) zs) @ CHR 0x7D # r"
    have l: "2 * length t + 1 \<le> f'"
      "2 * length (join (CHR '','') (map (\<lambda>(k, t, j). member_text (k, t)) zs)) + 2 \<le> f'"
      using Cons.prems(4) Cons f z len by auto
    have "parse_members f' d ?rest = Some (map (\<lambda>(k, t, j). (k, j)) zs, r)"
      using Cons.prems l Cons by (intro Cons.IH) auto
    then show ?thesis
      using parse_member [of k D t j d f' "CHR '','' # ?rest"] Cons.prems l Cons f z by simp
  qed
qed simp

lemma value_start_join: "value_start t \<Longrightarrow> value_start (join c (t # ts))"
  by (cases ts) (auto simp: value_start_def)

lemma reads_array:
  assumes "\<forall>z \<in> set zs. reads D (fst z) (snd z)"
  shows "reads (Suc D) (array_text (map fst zs)) (JArr (map snd zs))"
proof (rule readsI)
  show "value_start (array_text (map fst zs))"
    by (simp add: value_start_def array_text_def bracketed_def)
  fix f d r
  assume d: "d + Suc D \<le> json_max_depth" and f: "2 * length (array_text (map fst zs)) \<le> f"
  let ?j = "join (CHR '','') (map fst zs)"
  have whole: "array_text (map fst zs) @ r = CHR ''['' # ?j @ CHR '']'' # r"
    by (simp add: array_text_def bracketed_def)
  show "parse_value (Suc f) d (array_text (map fst zs) @ r) = Some (JArr (map snd zs), r)"
  proof (cases zs)
    case Nil
    then show ?thesis unfolding whole using d by (simp add: skip_ws_id)
  next
    case (Cons z ys)
    have "value_start ?j"
      using Cons assms by (simp add: value_start_join reads_def)
    then obtain c q where j: "?j = c # q" "\<not> is_ws c" "c \<noteq> CHR '']''"
      by (auto simp: value_start_def)
    have "parse_elems f (d + 1) (?j @ CHR '']'' # r) = Some (map snd zs, r)"
      using Cons assms d f by (intro parse_elems_reads [of _ D]) (auto simp: array_text_def bracketed_def)
    then show ?thesis unfolding whole using d j by (simp add: skip_ws_id)
  qed
qed

lemma reads_object:
  assumes "\<forall>(k, t, j) \<in> set zs. utf8_valid k \<and> reads D t j"
  shows "reads (Suc D) (object_text (map (\<lambda>(k, t, j). (k, t)) zs))
    (JObj (map (\<lambda>(k, t, j). (k, j)) zs))" (is "reads _ ?t ?v")
proof (rule readsI)
  show "value_start ?t"
    by (simp add: value_start_def object_text_def bracketed_def)
  fix f d r
  assume d: "d + Suc D \<le> json_max_depth" and f: "2 * length ?t \<le> f"
  let ?j = "join (CHR '','') (map (\<lambda>(k, t, j). member_text (k, t)) zs)"
  have t: "?t = CHR 0x7B # ?j @ [CHR 0x7D]"
    by (simp add: object_text_def bracketed_def comp_def case_prod_unfold)
  then have whole: "?t @ r = CHR 0x7B # ?j @ CHR 0x7D # r" by simp
  have len: "2 * length ?j + 2 \<le> f" using f unfolding t by simp
  show "parse_value (Suc f) d (?t @ r) = Some (?v, r)"
  proof (cases zs)
    case Nil
    then show ?thesis unfolding whole using d by (simp add: skip_ws_id)
  next
    case (Cons z ys)
    then obtain q where j: "?j = quote_char # q"
      by (cases z; cases ys) (simp_all add: member_text_def quoted_def)
    have "parse_members f (d + 1) (?j @ CHR 0x7D # r) = Some (map (\<lambda>(k, t, j). (k, j)) zs, r)"
      using Cons assms d len by (intro parse_members_reads [of _ D]) simp_all
    then show ?thesis unfolding whole using d j by (simp add: skip_ws_id) (simp add: quote_char_def)
  qed
qed

text \<open>Sorting the members commutes with dropping the text or the tree.\<close>

lemma sort_key_map_fst:
  assumes "\<And>x. fst (g x) = fst x"
  shows "sort_key fst (map g xs) = map g (sort_key fst xs)"
proof -
  have ins: "insort_key fst (g x) (map g xs) = map g (insort_key fst x xs)" for x xs
    by (induction xs) (auto simp: assms)
  show ?thesis by (induction xs) (auto simp: ins)
qed

lemma reads_sorted_object:
  assumes "\<forall>(k, t, j) \<in> set zs. utf8_valid k \<and> reads D t j"
  shows "reads (Suc D) (object_text (sort_key fst (map (\<lambda>(k, t, j). (k, t)) zs)))
    (JObj (sort_key fst (map (\<lambda>(k, t, j). (k, j)) zs)))"
proof -
  have "sort_key fst (map (\<lambda>(k, t, j). (k, t)) zs) = map (\<lambda>(k, t, j). (k, t)) (sort_key fst zs)"
    "sort_key fst (map (\<lambda>(k, t, j). (k, j)) zs) = map (\<lambda>(k, t, j). (k, j)) (sort_key fst zs)"
    by (rule sort_key_map_fst; simp split: prod.splits)+
  then show ?thesis using reads_object [of "sort_key fst zs" D] assms by simp
qed

lemma reads_strings:
  assumes "list_all utf8_valid ss"
  shows "reads (Suc D) (array_text (map quoted ss)) (JArr (map JStr ss))"
  using reads_array [of "map (\<lambda>s. (quoted s, JStr s)) ss" D] assms
  by (auto simp: comp_def list_all_iff reads_string)

theorem json_enc_reads:
  "json_ok v \<Longrightarrow> \<exists>t. json_enc v = Some t \<and> reads (json_depth v) t (json_view v)"
  "json_ok_list vs \<Longrightarrow> \<exists>zs. json_enc_list vs = Some (map fst zs) \<and> json_view_list vs = map snd zs
     \<and> (\<forall>z \<in> set zs. reads (json_depth_list vs) (fst z) (snd z))"
  "json_ok_fields kvs \<Longrightarrow> \<exists>zs. json_enc_fields kvs = Some (map (\<lambda>(k, t, j). (k, t)) zs)
     \<and> json_view_fields kvs = map (\<lambda>(k, t, j). (k, j)) zs
     \<and> (\<forall>(k, t, j) \<in> set zs. utf8_valid k \<and> reads (json_depth_fields kvs) t j)"
proof (induction v and vs and kvs rule: json_enc_json_enc_list_json_enc_fields.induct)
  case (4 f)
  then show ?case
    by (auto simp: float_text_ok_def reads_number split: option.splits bind_splits list.splits)
next
  case (5 i)
  show ?case by (simp add: reads_number scan_number_show)
next
  case (6 ss)
  then show ?case using reads_strings [of ss 0] by simp
next
  case (7 vs)
  then show ?case using reads_array by fastforce
next
  case (8 kvs)
  then show ?case using reads_sorted_object by fastforce
next
  case (9 fs sel)
  then obtain zs where zs: "json_enc_fields fs = Some (map (\<lambda>(k, t, j). (k, t)) zs)"
    "json_view_fields fs = map (\<lambda>(k, t, j). (k, j)) zs"
    "\<forall>(k, t, j) \<in> set zs. utf8_valid k \<and> reads (json_depth_fields fs) t j" by auto
  let ?sel = "if sel = [] then ''null'' else array_text (map quoted sel)"
  let ?D = "Suc (json_depth_fields fs)"
  have "reads ?D ?sel (if sel = [] then JNull else JArr (map JStr sel))"
    using 9 reads_strings [of sel "json_depth_fields fs"] by (auto simp: reads_literal)
  moreover have "utf8_valid ''Fields''" "utf8_valid ''SelectiveFields''"
    by (simp_all add: ascii_utf8_valid)
  ultimately show ?case
    using reads_object [of "[(''Fields'', _, _), (''SelectiveFields'', ?sel, _)]" ?D]
      reads_sorted_object [OF zs(3)] zs by simp
next
  case (11 v vs)
  then obtain t zs where v: "json_enc v = Some t" "reads (json_depth v) t (json_view v)"
    "json_enc_list vs = Some (map fst zs)" "json_view_list vs = map snd zs"
    "\<forall>z \<in> set zs. reads (json_depth_list vs) (fst z) (snd z)" by auto
  show ?case
    by (rule exI [of _ "(t, json_view v) # zs"]) (use v in \<open>auto intro: reads_mono\<close>)
next
  case (13 k v kvs)
  then obtain t zs where v: "json_enc v = Some t" "reads (json_depth v) t (json_view v)"
    "json_enc_fields kvs = Some (map (\<lambda>(k, t, j). (k, t)) zs)"
    "json_view_fields kvs = map (\<lambda>(k, t, j). (k, j)) zs"
    "\<forall>(k, t, j) \<in> set zs. utf8_valid k \<and> reads (json_depth_fields kvs) t j" by auto
  show ?case
    by (rule exI [of _ "(k, t, json_view v) # zs"])
      (use v 13 in \<open>auto intro: reads_mono\<close>)
qed (auto simp: reads_literal reads_string)

section \<open>Decoding what was marshalled\<close>

text \<open>
  \<open>json_norm v\<close> is what \<open>v\<close> becomes on its way through JSON: integers turn into floats, string
  slices and structs into \<open>[]any\<close> and maps, and maps list their keys in order.
\<close>

fun json_norm :: "gval \<Rightarrow> gval"
and json_norm_list :: "gval list \<Rightarrow> gval list"
and json_norm_fields :: "(string \<times> gval) list \<Rightarrow> (string \<times> gval) list" where
  "json_norm (GInt i) = (case f64_of_int i of Some f \<Rightarrow> GFloat f | None \<Rightarrow> GNil)"
| "json_norm (GStrings ss) = GSlice (map GString ss)"
| "json_norm (GSlice vs) = GSlice (json_norm_list vs)"
| "json_norm (GMap kvs) = GMap (sort_key fst (json_norm_fields kvs))"
| "json_norm (GStruct fs sel) =
     GMap [(''Fields'', GMap (sort_key fst (json_norm_fields fs))),
           (''SelectiveFields'', if sel = [] then GNil else GSlice (map GString sel))]"
| "json_norm v = v"
| "json_norm_list [] = []"
| "json_norm_list (v # vs) = json_norm v # json_norm_list vs"
| "json_norm_fields [] = []"
| "json_norm_fields ((k, v) # kvs) = (k, json_norm v) # json_norm_fields kvs"

text \<open>
  \<open>decodes v\<close>: integers lie in the range of a float, floats print with enough digits to be read
  back, keys are distinct (as they are in a Go map).
\<close>

fun whole_literal :: "json \<times> string \<Rightarrow> f64 option" where
  "whole_literal (JNum s ip fp e, []) = num_value s ip fp e"
| "whole_literal _ = None"

definition float_reads_back :: "f64 \<Rightarrow> bool" where
  "float_reads_back f \<longleftrightarrow>
     Option.bind (Option.bind (f64_fmt f) scan_number) whole_literal = Some f"

lemma whole_literal_Some:
  "whole_literal jr = Some f \<longleftrightarrow> (\<exists>s ip fp e. jr = (JNum s ip fp e, []) \<and> num_value s ip fp e = Some f)"
  by (cases jr rule: whole_literal.cases) auto

fun decodes :: "gval \<Rightarrow> bool"
and decodes_list :: "gval list \<Rightarrow> bool"
and decodes_fields :: "(string \<times> gval) list \<Rightarrow> bool" where
  "decodes (GFloat f) = float_reads_back f"
| "decodes (GInt i) = (f64_of_int i \<noteq> None)"
| "decodes (GSlice vs) = decodes_list vs"
| "decodes (GMap kvs) = (distinct (map fst kvs) \<and> decodes_fields kvs)"
| "decodes (GStruct fs sel) = (distinct (map fst fs) \<and> decodes_fields fs)"
| "decodes _ = True"
| "decodes_list [] = True"
| "decodes_list (v # vs) = (decodes v \<and> decodes_list vs)"
| "decodes_fields [] = True"
| "decodes_fields ((k, v) # kvs) = (decodes v \<and> decodes_fields kvs)"

lemma num_value_show: "num_value s (show_nat n) [] 0 = f64_of_ratio s n 1"
  by (simp add: num_value_def f64_of_decimal_def)

lemma to_any_fields_map:
  "(\<forall>kv \<in> set kvs. to_any (snd kv) = Some (g kv)) \<Longrightarrow>
     to_any_fields kvs = Some (map (\<lambda>kv. (fst kv, g kv)) kvs)"
  by (induction kvs) auto

lemma to_any_strings [simp]: "to_any_list (map JStr ss) = Some (map GString ss)"
  by (induction ss) auto

lemma to_any_fields_iff:
  "to_any_fields kvs = Some m \<longleftrightarrow>
     list_all2 (\<lambda>kj kv. fst kj = fst kv \<and> to_any (snd kj) = Some (snd kv)) kvs m"
proof (induction kvs arbitrary: m)
  case (Cons kv kvs)
  then show ?case by (cases kv) (auto simp: list_all2_Cons1 split: option.splits)
qed auto

lemma list_all2_insort_key:
  "list_all2 (\<lambda>a b. fst a = fst b \<and> P a b) xs ys \<Longrightarrow> fst a = fst b \<Longrightarrow> P a b \<Longrightarrow>
     list_all2 (\<lambda>a b. fst a = fst b \<and> P a b) (insort_key fst a xs) (insort_key fst b ys)"
  by (induction rule: list_all2_induct) auto

lemma list_all2_sort_key:
  "list_all2 (\<lambda>a b. fst a = fst b \<and> P a b) xs ys \<Longrightarrow>
     list_all2 (\<lambda>a b. fst a = fst b \<and> P a b) (sort_key fst xs) (sort_key fst ys)"
  by (induction rule: list_all2_induct) (auto intro: list_all2_insort_key)

lemma to_any_fields_sort:
  assumes "to_any_fields kvs = Some m"
  shows "to_any_fields (sort_key fst kvs) = Some (sort_key fst m)"
  using list_all2_sort_key [OF assms [unfolded to_any_fields_iff]] by (simp only: to_any_fields_iff)

lemma map_fst_json_norm_fields [simp]: "map fst (json_norm_fields kvs) = map fst kvs"
  by (induction kvs) auto

lemma map_fst_json_view_fields [simp]: "map fst (json_view_fields kvs) = map fst kvs"
  by (induction kvs) auto

lemma distinct_sort_fst: "distinct (map fst m) \<Longrightarrow> distinct (map fst (sort_key fst m))"
  by (simp add: distinct_map)

lemma assign_all_sorted:
  "distinct (map fst m) \<Longrightarrow> assign_all [] (sort_key fst m) = sort_key fst m"
  using assign_all_new [of "sort_key fst m" "[]"] by (simp add: distinct_sort_fst)

lemma json_view_decodes:
  "decodes v \<Longrightarrow> to_any (json_view v) = Some (json_norm v)"
  "decodes_list vs \<Longrightarrow> to_any_list (json_view_list vs) = Some (json_norm_list vs)"
  "decodes_fields kvs \<Longrightarrow> to_any_fields (json_view_fields kvs) = Some (json_norm_fields kvs)"
proof (induction v and vs and kvs rule: json_view_json_view_list_json_view_fields.induct)
  case (4 f)
  then obtain x s ip fp e where "f64_fmt f = Some x" "scan_number x = Some (JNum s ip fp e, [])"
    "num_value s ip fp e = Some f"
    by (auto simp: float_reads_back_def bind_eq_Some_conv whole_literal_Some)
  then show ?case by simp
next
  case (5 i)
  then show ?case by (auto simp: num_value_show f64_of_int_def)
next
  case (8 kvs)
  then show ?case by (simp add: to_any_fields_sort assign_all_sorted)
next
  case (9 fs sel)
  then have "to_any (JObj (sort_key fst (json_view_fields fs)))
      = Some (GMap (sort_key fst (json_norm_fields fs)))"
    by (simp add: to_any_fields_sort assign_all_sorted)
  moreover have "to_any (if sel = [] then JNull else JArr (map JStr sel))
      = Some (if sel = [] then GNil else GSlice (map GString sel))" by simp
  ultimately show ?case by (simp del: to_any.simps(5,6) add: to_any.simps(6) [of "_ # _"])
qed auto

definition portable :: "gval \<Rightarrow> bool" where
  "portable v \<longleftrightarrow> json_ok v \<and> decodes v \<and> json_depth v \<le> json_max_depth"

theorem parse_json_enc:
  assumes "json_ok v" "json_depth v \<le> json_max_depth"
  shows "\<exists>t. json_enc v = Some t \<and> parse_json t = Some (json_view v)"
proof -
  obtain t where t: "json_enc v = Some t" "reads (json_depth v) t (json_view v)"
    using json_enc_reads(1) assms(1) by blast
  have "parse_value (json_fuel t) 0 (t @ []) = Some (json_view v, [])"
    using assms(2) by (intro readsD [OF t(2)]) (auto simp: json_fuel_def)
  then show ?thesis using t(1) by (simp add: parse_json_def skip_ws_def)
qed

text \<open>\<open>Unmarshal\<close> inverts \<open>Marshal\<close>, up to the representation change of \<open>json_norm\<close>.\<close>

theorem unmarshal_marshal:
  assumes "portable v"
  obtains t where "json_enc v = Some t" "unmarshal_any t = Some (json_norm v)"
  using assms parse_json_enc [of v] json_view_decodes(1) [of v]
  by (auto simp: portable_def unmarshal_any_def)

theorem unmarshal_marshal_map:
  assumes "portable (GMap m)"
  obtains t where "json_enc (GMap m) = Some t"
    "unmarshal_map t = Some (sort_key fst (json_norm_fields m))"
  using assms parse_json_enc [of "GMap m"] json_view_decodes(3) [of m]
  by (auto simp: portable_def unmarshal_map_def to_any_fields_sort assign_all_sorted)

theorem unmarshal_marshal_raws:
  assumes "json_ok (GSlice vs)" "json_depth (GSlice vs) \<le> json_max_depth"
  obtains t where "json_enc (GSlice vs) = Some t" "unmarshal_raws t = Some (json_view_list vs)"
  using parse_json_enc [OF assms] by (auto simp: unmarshal_raws_def)

interpretation json: codec "\<lambda>v. the (json_enc v)" unmarshal_any portable json_norm
  by unfold_locales (metis option.sel unmarshal_marshal)

text \<open>Integers of at most 53 bits decode to floats of the same value.\<close>

lemma decodes_int: "\<bar>i\<bar> < 2 ^ 53 \<Longrightarrow> decodes (GInt i)"
  by (metis decodes.simps(2) f64_of_int_exact option.distinct(1))

end
