(* ===== verification/Disclosure.thy ===== *)
theory Disclosure
  imports Hashutil Json_Roundtrip
begin

text \<open>
  \<open>disclosure.go\<close>: the base64url-encoded JSON arrays \<open>[salt, key, value]\<close> and \<open>[salt, value]\<close>.

  \<open>crypto/rand\<close> is a parameter of the model, an \<open>rng\<close>: what the \<open>i\<close>-th call of \<open>rand.Read\<close> writes
  into a buffer of \<open>n\<close> bytes, \<open>None\<close> when it reports an error. The operations that draw salts
  thread the number of calls made so far.
\<close>

section \<open>Salts\<close>

type_synonym rng = "nat \<Rightarrow> nat \<Rightarrow> bytes option"

definition DefaultSaltBytes :: nat where "DefaultSaltBytes = 16"
definition minDisclosureElements :: nat where "minDisclosureElements = 2"

definition randomSalt :: "rng \<Rightarrow> nat \<Rightarrow> nat \<Rightarrow> (goerr + string) \<times> nat" where
  "randomSalt R n i =
     ((case R i n of None \<Rightarrow> Inl (LibError ''rand.Read'') | Some b \<Rightarrow> Inr (b64_enc b)), Suc i)"

section \<open>Construction and encoding\<close>

record disclosure =
  Salt :: string
  Key :: string
  Value :: gval

definition salt_error :: "goerr \<Rightarrow> goerr" where
  "salt_error e = Errorf [Txt ''sdjwt: generating disclosure salt: '', Wrapped e]"

definition NewDisclosure :: "rng \<Rightarrow> string \<Rightarrow> gval \<Rightarrow> nat \<Rightarrow> (goerr + disclosure) \<times> nat" where
  "NewDisclosure R key val i =
     (case randomSalt R DefaultSaltBytes i of
        (Inl e, j) \<Rightarrow> (Inl (salt_error e), j)
      | (Inr salt, j) \<Rightarrow> (Inr \<lparr>Salt = salt, Key = key, Value = val\<rparr>, j))"

definition NewArrayDisclosure :: "rng \<Rightarrow> gval \<Rightarrow> nat \<Rightarrow> (goerr + disclosure) \<times> nat" where
  "NewArrayDisclosure R val i =
     (case randomSalt R DefaultSaltBytes i of
        (Inl e, j) \<Rightarrow> (Inl (salt_error e), j)
      | (Inr salt, j) \<Rightarrow> (Inr \<lparr>Salt = salt, Key = [], Value = val\<rparr>, j))"

definition disclosure_array :: "disclosure \<Rightarrow> gval list" where
  "disclosure_array d =
     (if Key d \<noteq> [] then [GString (Salt d), GString (Key d), Value d]
      else [GString (Salt d), Value d])"

definition Encode :: "disclosure \<Rightarrow> goerr + string" where
  "Encode d =
     (case json_enc (GSlice (disclosure_array d)) of
        None \<Rightarrow> Inl (Errorf [Txt ''sdjwt: encoding disclosure: '', Wrapped (LibError ''json.Marshal'')])
      | Some b \<Rightarrow> Inr (b64_enc b))"

text \<open>\<open>(*Disclosure).Digest\<close>: the encoded disclosure and its digest.\<close>

definition Disclosure_Digest :: "crypto \<Rightarrow> hash \<Rightarrow> disclosure \<Rightarrow> goerr + (string \<times> string)" where
  "Disclosure_Digest C h d =
     res_bind (Encode d) (\<lambda>encoded.
       res_bind (map_err (\<lambda>e. Errorf [Txt ''sdjwt: digesting disclosure: '', Wrapped e])
                   (Digest C h encoded))
         (\<lambda>digest. Inr (encoded, digest)))"

section \<open>Parsing\<close>

definition invalid_with :: "string \<Rightarrow> part list \<Rightarrow> goerr" where
  "invalid_with key ps = DisclosureError key (Errorf (Wrapped (Sentinel ErrDisclosureInvalid) # ps))"

definition parse_object_form :: "string \<Rightarrow> json \<Rightarrow> json \<Rightarrow> goerr + disclosure" where
  "parse_object_form salt k v =
     (case raw_string k of
        None \<Rightarrow> Inl (invalid_with [] [Txt '': key is not a string''])
      | Some key \<Rightarrow>
        (case to_any v of
           None \<Rightarrow> Inl (invalid_with key [Txt '': value not parseable''])
         | Some val \<Rightarrow> Inr \<lparr>Salt = salt, Key = key, Value = val\<rparr>))"

definition parse_array_form :: "string \<Rightarrow> json \<Rightarrow> goerr + disclosure" where
  "parse_array_form salt v =
     (case to_any v of
        None \<Rightarrow> Inl (invalid_with [] [Txt '': value not parseable''])
      | Some val \<Rightarrow> Inr \<lparr>Salt = salt, Key = [], Value = val\<rparr>)"

definition parse_elements :: "json list \<Rightarrow> goerr + disclosure" where
  "parse_elements arr =
     (if length arr < minDisclosureElements then
        Inl (invalid_with []
          [Txt '': expected at least '', Txt (show_nat minDisclosureElements),
           Txt '' elements, got '', Txt (show_nat (length arr))])
      else
        (case raw_string (arr ! 0) of
           None \<Rightarrow> Inl (invalid_with [] [Txt '': salt is not a string''])
         | Some salt \<Rightarrow>
           if length arr = 3 then parse_object_form salt (arr ! 1) (arr ! 2)
           else parse_array_form salt (arr ! 1)))"

definition ParseDisclosure :: "string \<Rightarrow> goerr + disclosure" where
  "ParseDisclosure encoded =
     (case b64_dec encoded of
        None \<Rightarrow> Inl (invalid_with []
                  [Txt '': base64 decode: '', Printed (LibError ''base64.DecodeString'')])
      | Some b \<Rightarrow>
        (case unmarshal_raws b of
           None \<Rightarrow> Inl (invalid_with []
                     [Txt '': JSON parse: '', Printed (LibError ''json.Unmarshal'')])
         | Some arr \<Rightarrow> parse_elements arr))"

section \<open>Facts\<close>

lemma invalid_with_is [simp]: "errors_Is (invalid_with k ps) s \<longleftrightarrow> s = ErrDisclosureInvalid"
  by (auto simp: invalid_with_def)

lemma parse_elements_err:
  "parse_elements arr = Inl e \<Longrightarrow> \<exists>k ps. e = invalid_with k ps"
  by (auto simp: parse_elements_def parse_object_form_def parse_array_form_def
      split: if_splits option.splits)

lemma ParseDisclosure_err: "ParseDisclosure enc = Inl e \<Longrightarrow> \<exists>k ps. e = invalid_with k ps"
  by (auto simp: ParseDisclosure_def dest: parse_elements_err split: option.splits)

text \<open>The disclosures the wire format carries: text that survives JSON, and a value that does.\<close>

definition ok_disclosure :: "disclosure \<Rightarrow> bool" where
  "ok_disclosure d \<longleftrightarrow>
     utf8_valid (Salt d) \<and> utf8_valid (Key d) \<and> json_ok (Value d) \<and> decodes (Value d)
     \<and> Suc (json_depth (Value d)) \<le> json_max_depth"

definition norm_disclosure :: "disclosure \<Rightarrow> disclosure" where
  "norm_disclosure d = d\<lparr>Value := json_norm (Value d)\<rparr>"

lemma parse_elements_view:
  assumes "decodes (Value d)"
  shows "parse_elements (json_view_list (disclosure_array d)) = Inr (norm_disclosure d)"
  using json_view_decodes(1) [OF assms]
  by (auto simp: parse_elements_def disclosure_array_def minDisclosureElements_def raw_string_def
      parse_object_form_def parse_array_form_def norm_disclosure_def numeral_2_eq_2)

lemma encode_ok:
  assumes "ok_disclosure d"
  obtains t where "json_enc (GSlice (disclosure_array d)) = Some t"
    "unmarshal_raws t = Some (json_view_list (disclosure_array d))" "Encode d = Inr (b64_enc t)"
proof -
  have "json_ok (GSlice (disclosure_array d))"
    "json_depth (GSlice (disclosure_array d)) \<le> json_max_depth"
    using assms by (auto simp: ok_disclosure_def disclosure_array_def)
  then obtain t where "json_enc (GSlice (disclosure_array d)) = Some t"
    "unmarshal_raws t = Some (json_view_list (disclosure_array d))"
    by (rule unmarshal_marshal_raws)
  then show ?thesis using that by (simp add: Encode_def del: json_enc.simps)
qed

lemma parse_encode:
  assumes "ok_disclosure d" "Encode d = Inr s"
  shows "ParseDisclosure s = Inr (norm_disclosure d)"
proof -
  obtain t where "unmarshal_raws t = Some (json_view_list (disclosure_array d))" "s = b64_enc t"
    using assms by (metis encode_ok sum.inject(2))
  then show ?thesis
    using assms(1) by (simp add: ParseDisclosure_def b64_dec_enc parse_elements_view ok_disclosure_def)
qed

definition encode_or_empty :: "disclosure \<Rightarrow> string" where
  "encode_or_empty d = (case Encode d of Inl _ \<Rightarrow> [] | Inr s \<Rightarrow> s)"

definition parse_disclosure_option :: "string \<Rightarrow> disclosure option" where
  "parse_disclosure_option s = (case ParseDisclosure s of Inl _ \<Rightarrow> None | Inr d \<Rightarrow> Some d)"

interpretation disc: codec encode_or_empty parse_disclosure_option ok_disclosure norm_disclosure
proof
  fix d assume d: "ok_disclosure d"
  then obtain s where "Encode d = Inr s" by (metis encode_ok)
  then show "parse_disclosure_option (encode_or_empty d) = Some (norm_disclosure d)"
    using parse_encode [OF d] by (simp add: encode_or_empty_def parse_disclosure_option_def)
qed

text \<open>An encoded disclosure is a segment of a presentation: not empty, no separator.\<close>

lemma Encode_segment: "Encode d = Inr s \<Longrightarrow> s \<noteq> [] \<and> CHR ''~'' \<notin> set s"
  by (auto simp: Encode_def array_text_def bracketed_def split: option.splits)


text \<open>What the array forms accept.\<close>

lemma disclosure_eq_iff:
  "\<lparr>Salt = s, Key = k, Value = v\<rparr> = d \<longleftrightarrow> s = Salt d \<and> k = Key d \<and> v = Value d"
  by (cases d) auto

lemma parse_elements_3:
  "parse_elements [a1, a2, a3] = Inr d \<longleftrightarrow>
     raw_string a1 = Some (Salt d) \<and> raw_string a2 = Some (Key d) \<and> to_any a3 = Some (Value d)"
  by (simp add: parse_elements_def minDisclosureElements_def parse_object_form_def
      numeral_3_eq_3 disclosure_eq_iff split: option.splits)

lemma parse_elements_else:
  assumes "length rest \<noteq> 1"
  shows "parse_elements (a1 # a2 # rest) = Inr d \<longleftrightarrow>
     raw_string a1 = Some (Salt d) \<and> Key d = [] \<and> to_any a2 = Some (Value d)"
  using assms
  by (simp add: parse_elements_def minDisclosureElements_def parse_array_form_def
      numeral_3_eq_3 disclosure_eq_iff split: option.splits) auto

section \<open>Properties\<close>

text \<open>
  C32: a disclosure with a value JSON can carry is read back from its encoding as it was, salt and key
  included, the value in its JSON form.
\<close>
theorem disclosure_roundtrip:
  assumes "ok_disclosure d"
  shows "\<exists>s. Encode d = Inr s \<and> ParseDisclosure s = Inr (d\<lparr>Value := json_norm (Value d)\<rparr>)"
  using parse_encode [OF assms] encode_ok [OF assms] unfolding norm_disclosure_def by metis

definition sample_disclosure :: disclosure where
  "sample_disclosure = \<lparr>Salt = ''_26bc4LT'', Key = ''family_name'', Value = GSlice [GString ''M'', GNil]\<rparr>"

lemma sample_ok: "ok_disclosure sample_disclosure"
  by (simp add: ok_disclosure_def sample_disclosure_def json_max_depth_def ascii_utf8_valid)

theorem disclosure_roundtrip_witness:
  "\<exists>s. Encode sample_disclosure = Inr s
    \<and> ParseDisclosure s = Inr (sample_disclosure\<lparr>Value := GSlice [GString ''M'', GNil]\<rparr>)"
  using disclosure_roundtrip [OF sample_ok] by (simp add: sample_disclosure_def)

text \<open>
  Different salts give different encodings, whatever the keys and values are, so equal claims
  cannot be recognised by equal disclosures.
\<close>
lemma salted_encodings_differ:
  assumes "ok_disclosure d" and "ok_disclosure e" and "Salt d \<noteq> Salt e"
  shows "Encode d \<noteq> Encode e"
proof
  assume eq: "Encode d = Encode e"
  obtain s where "Encode d = Inr s" using encode_ok [OF assms(1)] by metis
  then have "norm_disclosure d = norm_disclosure e"
    using parse_encode [OF assms(1)] parse_encode [OF assms(2)] eq by simp
  then show False using assms(3) by (simp add: norm_disclosure_def) (metis disclosure.select_convs(1) disclosure.update_convs(3) disclosure.surjective)
qed

text \<open>
  C38: \<open>ParseDisclosure\<close> accepts exactly the base64url texts of JSON arrays of at least two elements
  whose first element is a string or null; three elements are salt, key and value, and any other
  number is read as salt and value with the rest ignored. Every other input is a
  \<open>DisclosureError\<close> that \<open>errors.Is\<close> identifies as \<open>ErrDisclosureInvalid\<close>.
\<close>
theorem ParseDisclosure_accepts:
  "(ParseDisclosure s = Inr d \<longleftrightarrow>
     (\<exists>b a1 a2 rest. b64_dec s = Some b \<and> unmarshal_raws b = Some (a1 # a2 # rest)
        \<and> raw_string a1 = Some (Salt d)
        \<and> (if length rest = 1
             then raw_string a2 = Some (Key d) \<and> to_any (rest ! 0) = Some (Value d)
             else Key d = [] \<and> to_any a2 = Some (Value d))))
   \<and> ((\<exists>d. ParseDisclosure s = Inr d)
      \<or> (\<exists>k ps. ParseDisclosure s = Inl (DisclosureError k (Errorf ps))
           \<and> errors_Is (DisclosureError k (Errorf ps)) ErrDisclosureInvalid))"
proof
  have elems: "parse_elements (a1 # a2 # rest) = Inr d \<longleftrightarrow>
      raw_string a1 = Some (Salt d)
        \<and> (if length rest = 1
             then raw_string a2 = Some (Key d) \<and> to_any (rest ! 0) = Some (Value d)
             else Key d = [] \<and> to_any a2 = Some (Value d))" for a1 a2 rest
    by (cases "length rest = 1") (auto simp: length_Suc_conv parse_elements_3 parse_elements_else)
  have short: "parse_elements arr \<noteq> Inr d" if "\<nexists>a1 a2 rest. arr = a1 # a2 # rest" for arr
  proof -
    have "length arr < 2"
    proof (cases arr)
      case (Cons a r)
      then show ?thesis using that by (cases r) auto
    qed simp
    then show ?thesis by (simp add: parse_elements_def minDisclosureElements_def)
  qed
  show "ParseDisclosure s = Inr d \<longleftrightarrow>
     (\<exists>b a1 a2 rest. b64_dec s = Some b \<and> unmarshal_raws b = Some (a1 # a2 # rest)
        \<and> raw_string a1 = Some (Salt d)
        \<and> (if length rest = 1
             then raw_string a2 = Some (Key d) \<and> to_any (rest ! 0) = Some (Value d)
             else Key d = [] \<and> to_any a2 = Some (Value d)))" (is "_ \<longleftrightarrow> ?R")
  proof
    assume "ParseDisclosure s = Inr d"
    then obtain b arr where b: "b64_dec s = Some b" "unmarshal_raws b = Some arr"
      and arr: "parse_elements arr = Inr d"
      by (auto simp: ParseDisclosure_def split: option.splits)
    from short arr obtain a1 a2 rest where a: "arr = a1 # a2 # rest" by metis
    from b arr elems show ?R unfolding a by (intro exI conjI) auto
  next
    assume ?R
    then obtain b a1 a2 rest where "b64_dec s = Some b" "unmarshal_raws b = Some (a1 # a2 # rest)"
      "parse_elements (a1 # a2 # rest) = Inr d"
      using elems by (elim exE conjE) simp
    then show "ParseDisclosure s = Inr d" by (simp add: ParseDisclosure_def)
  qed
  show "(\<exists>d. ParseDisclosure s = Inr d)
      \<or> (\<exists>k ps. ParseDisclosure s = Inl (DisclosureError k (Errorf ps))
           \<and> errors_Is (DisclosureError k (Errorf ps)) ErrDisclosureInvalid)"
    using ParseDisclosure_err [of s] by (cases "ParseDisclosure s") (auto simp: invalid_with_def)
qed

end
