(* ===== verification/Float_Roundtrip.thy ===== *)
theory Float_Roundtrip
  imports Json_Roundtrip
begin

text \<open>
  Floats through their text: the decimal that \<open>json.Marshal\<close> prints for a \<open>float64\<close> is a JSON number,
  and \<open>json.Unmarshal\<close> reads it back as the float that was printed.
\<close>

section \<open>Scaling a ratio\<close>

lemma ratio_less_pow_scale: "0 < c \<Longrightarrow> ratio_less_pow (c * n) (c * d) p = ratio_less_pow n d p"
  by (simp add: ratio_less_pow_def mult.assoc)

lemma ratio_less_mono:
  assumes "ratio_less_pow n d p" "p \<le> q"
  shows "ratio_less_pow n d q"
proof -
  have pow: "(2::nat) ^ a \<le> 2 ^ b" if "a \<le> b" for a b :: nat using that by (simp add: power_increasing)
  consider "0 \<le> p" | "p < 0" "0 \<le> q" | "q < 0" using assms(2) by linarith
  then show ?thesis
  proof cases
    case 1
    have "d * 2 ^ nat p \<le> d * 2 ^ nat q" by (intro mult_le_mono2 pow nat_mono assms(2))
    moreover have "n < d * 2 ^ nat p" "0 \<le> q" using assms 1 by (simp_all add: ratio_less_pow_def)
    ultimately show ?thesis by (simp only: ratio_less_pow_def if_True less_le_trans)
  next
    case 2
    have "n < d" by (rule le_less_trans [of _ "n * 2 ^ nat (- p)"]) (use assms 2 in \<open>simp_all add: ratio_less_pow_def\<close>)
    then have "n < d * 2 ^ nat q" by (rule less_le_trans) simp
    then show ?thesis using 2 by (simp add: ratio_less_pow_def)
  next
    case 3
    have "n * 2 ^ nat (- q) \<le> n * 2 ^ nat (- p)" using assms(2) by (intro mult_le_mono2 pow nat_mono) simp
    also have "\<dots> < d" using assms 3 by (simp add: ratio_less_pow_def)
    finally show ?thesis using 3 by (simp add: ratio_less_pow_def)
  qed
qed

lemma ratio_log_bounds:
  assumes "0 < n" "0 < d"
  shows "ratio_less_pow n d (int (log2_floor n) - int (log2_floor d) + 1)"
    and "\<not> ratio_less_pow n d (int (log2_floor n) - int (log2_floor d) - 1)"
proof -
  let ?a = "log2_floor n" and ?b = "log2_floor d"
  note n = log2_floor_bounds [OF assms(1)] and d = log2_floor_bounds [OF assms(2)]
  show "ratio_less_pow n d (int ?a - int ?b + 1)"
  proof (cases "?b \<le> Suc ?a")
    case True
    then obtain k where k: "Suc ?a = ?b + k" using le_Suc_ex by blast
    then have p: "int ?a - int ?b + 1 = int k" by linarith
    have "n < 2 ^ (?b + k)" using n(2) unfolding k .
    also have "\<dots> \<le> d * 2 ^ k" using d(1) by (simp add: power_add)
    finally show ?thesis unfolding p by (simp add: ratio_less_pow_def)
  next
    case False
    then obtain k where k: "?b = Suc ?a + k" "0 < k" by (metis le_Suc_ex nat_le_linear add_0_right gr0I)
    then have p: "int ?a - int ?b + 1 = - int k" by linarith
    have "n * 2 ^ k < 2 ^ Suc ?a * 2 ^ k" using n(2) by simp
    also have "\<dots> \<le> d" using d(1) unfolding k by (simp only: power_add)
    finally show ?thesis unfolding p using k(2) by (simp add: ratio_less_pow_def)
  qed
  show "\<not> ratio_less_pow n d (int ?a - int ?b - 1)"
  proof (cases "Suc ?b \<le> ?a")
    case True
    then obtain k where k: "?a = Suc ?b + k" using le_Suc_ex by blast
    then have p: "int ?a - int ?b - 1 = int k" by linarith
    have "d * 2 ^ k \<le> 2 ^ Suc ?b * 2 ^ k" using d(2) by (intro mult_le_mono1) simp
    also have "\<dots> \<le> n" using n(1) unfolding k by (simp only: power_add)
    finally show ?thesis unfolding p by (simp add: ratio_less_pow_def)
  next
    case False
    then obtain k where k: "Suc ?b = ?a + k" "0 < k" by (metis le_Suc_ex nat_le_linear add_0_right gr0I)
    then have p: "int ?a - int ?b - 1 = - int k" by linarith
    have "d \<le> 2 ^ (?a + k)" using d(2) unfolding k by simp
    also have "\<dots> \<le> n * 2 ^ k" using n(1) by (simp add: power_add)
    finally show ?thesis unfolding p using k(2) by (simp add: ratio_less_pow_def)
  qed
qed

text \<open>\<open>ulp_exp\<close> is the exponent that puts the ratio into \<open>[2^52, 2^53)\<close>, or the least one there is.\<close>

lemma ulp_exp_window:
  assumes "0 < n" "0 < d"
  obtains k where "ulp_exp n d = max (k - 52) (- 1074)" "\<not> ratio_less_pow n d k" "ratio_less_pow n d (k + 1)"
proof -
  let ?e = "int (log2_floor n) - int (log2_floor d)"
  note b = ratio_log_bounds [OF assms]
  show ?thesis
  proof (cases "ratio_less_pow n d ?e")
    case True
    then show ?thesis using b(2) that [of "?e - 1"] by (simp add: ulp_exp_def Let_def)
  next
    case False
    then show ?thesis using b(1) that [of ?e] by (simp add: ulp_exp_def Let_def)
  qed
qed

lemma ulp_exp_scale:
  assumes "0 < c" "0 < n" "0 < d"
  shows "ulp_exp (c * n) (c * d) = ulp_exp n d"
proof -
  obtain k where k: "ulp_exp n d = max (k - 52) (- 1074)" "\<not> ratio_less_pow n d k" "ratio_less_pow n d (k + 1)"
    by (rule ulp_exp_window [OF assms(2,3)])
  have "0 < c * n" "0 < c * d" using assms by simp_all
  then obtain l where l: "ulp_exp (c * n) (c * d) = max (l - 52) (- 1074)"
    "\<not> ratio_less_pow n d l" "ratio_less_pow n d (l + 1)"
    using ulp_exp_window [of "c * n" "c * d"] unfolding ratio_less_pow_scale [OF assms(1)] by blast
  have "\<not> k + 1 \<le> l" using ratio_less_mono [OF k(3)] l(2) by blast
  moreover have "\<not> l + 1 \<le> k" using ratio_less_mono [OF l(3)] k(2) by blast
  ultimately have "k = l" by linarith
  then show ?thesis using k(1) l(1) by simp
qed

lemma round_half_even_scale: "0 < c \<Longrightarrow> round_half_even (c * n) (c * d) = round_half_even n d"
  by (simp add: round_half_even_def Let_def mult_mod_right [symmetric])

lemma f64_of_ratio_scale:
  assumes "0 < c" "0 < d"
  shows "f64_of_ratio s (c * n) (c * d) = f64_of_ratio s n d"
proof (cases "n = 0")
  case False
  then have u: "ulp_exp (c * n) (c * d) = ulp_exp n d" using assms by (intro ulp_exp_scale) simp_all
  have "round_half_even (c * n) (c * d * x) = round_half_even n (d * x)"
    "round_half_even (c * n * x) (c * d) = round_half_even (n * x) d" for x
    using round_half_even_scale [OF assms(1)] by (simp_all add: mult.assoc)
  then have "(case ratio_shift (c * n) (c * d) e of (n', d') \<Rightarrow> round_half_even n' d')
      = (case ratio_shift n d e of (n', d') \<Rightarrow> round_half_even n' d')" for e
    by (simp add: ratio_shift_def)
  then show ?thesis using False assms(1) unfolding f64_of_ratio_def u by simp
qed (simp add: f64_of_ratio_def)

section \<open>The text of a float\<close>

lemma f64_of_ratio_sign:
  "f64_of_ratio s n d = map_option (\<lambda>f. case f of Fin _ m e \<Rightarrow> Fin s m e | _ \<Rightarrow> f) (f64_of_ratio False n d)"
  by (simp add: f64_of_ratio_def Let_def split: prod.splits)

lemma f64_of_decimal_sign:
  "f64_of_decimal False x p = Some (Fin False m e) \<Longrightarrow> f64_of_decimal s x p = Some (Fin s m e)"
  using f64_of_ratio_sign [of s] by (auto simp: f64_of_decimal_def split: if_splits)

lemma f64_of_decimal_trailing: "f64_of_decimal s (x * 10) p = f64_of_decimal s x (p + 1)"
proof -
  consider "0 \<le> p" | "p = - 1" | "p < - 1" by linarith
  then show ?thesis
  proof cases
    case 1
    then show ?thesis by (simp add: f64_of_decimal_def nat_add_distrib mult.assoc)
  next
    case 2
    then show ?thesis using f64_of_ratio_scale [of 10 1 s x] by (simp add: f64_of_decimal_def mult.commute)
  next
    case 3
    then obtain k where k: "nat (- p) = Suc k" "nat (- (p + 1)) = k" by (cases "nat (- p)") auto
    then show ?thesis using f64_of_ratio_scale [of 10 "10 ^ k" s x] 3 by (simp add: f64_of_decimal_def mult.commute)
  qed
qed

lemma f64_of_decimal_zeros: "0 \<le> p \<Longrightarrow> f64_of_decimal s (x * 10 ^ nat p) 0 = f64_of_decimal s x p"
  by (simp add: f64_of_decimal_def)

lemma first_some_Some: "first_some f xs = Some y \<Longrightarrow> \<exists>x \<in> set xs. f x = Some y"
  by (induction xs) (auto split: option.splits)

lemma dec_candidate_reads:
  "dec_candidate f n d k j = Some (x, p) \<Longrightarrow> f64_of_decimal False x p = Some f"
  by (auto simp: dec_candidate_def Let_def split: if_splits prod.splits)

lemma shortest_reads:
  assumes "shortest m e = Some (x, p)" "0 < m"
  shows "f64_of_decimal False x p = Some (Fin False m e)" "0 < x"
proof -
  let ?n = "if e \<ge> 0 then m * 2 ^ nat e else m" and ?d = "if e \<ge> 0 then 1 else 2 ^ nat (- e)"
  obtain z where c: "first_some (dec_candidate (Fin False m e) ?n ?d (dec_exp ?n ?d)) [1..<18] = Some z"
    and z: "(case z of (x, p) \<Rightarrow> if x = 10 then (1, p + 1) else (x, p)) = (x, p)"
    using assms(1) unfolding shortest_def Let_def map_option_eq_Some by blast
  obtain x0 p0 where "z = (x0, p0)" by (cases z)
  with c z have c: "first_some (dec_candidate (Fin False m e) ?n ?d (dec_exp ?n ?d)) [1..<18] = Some (x0, p0)"
    and xp: "(x, p) = (if x0 = 10 then (1, p0 + 1) else (x0, p0))" by simp_all
  have r: "f64_of_decimal False x0 p0 = Some (Fin False m e)"
    using dec_candidate_reads first_some_Some [OF c] by blast
  then show v: "f64_of_decimal False x p = Some (Fin False m e)"
    using xp f64_of_decimal_trailing [of False 1 p0] by (simp split: if_splits)
  show "0 < x"
  proof (rule ccontr)
    assume "\<not> 0 < x"
    then show False using v assms(2) by (auto simp: f64_of_decimal_def f64_of_ratio_def split: if_splits)
  qed
qed

definition stops_digits :: "string \<Rightarrow> bool" where
  "stops_digits r \<longleftrightarrow> (case r of [] \<Rightarrow> True | c # _ \<Rightarrow> \<not> is_digit c)"

lemma digits_scan:
  assumes "\<forall>c \<in> set ds. is_digit c" "stops_digits r"
  shows "takeWhile is_digit (ds @ r) = ds" "dropWhile is_digit (ds @ r) = r"
  using assms by (cases r; simp add: stops_digits_def)+

lemma scan_int_digits:
  assumes "\<forall>c \<in> set ds. is_digit c" "ds \<noteq> []" "hd ds \<noteq> CHR ''0''" "stops_digits r"
  shows "scan_int (ds @ r) = Some (ds, r)"
  using assms digits_scan [of "tl ds" r] by (cases ds) (simp_all add: scan_int_def)

lemma scan_frac_digits:
  assumes "\<forall>c \<in> set ds. is_digit c" "ds \<noteq> []" "stops_digits r"
  shows "scan_frac (CHR ''.'' # ds @ r) = Some (ds, r)"
  using assms(2) digits_scan [OF assms(1,3)] by (simp add: scan_frac_def)

lemma scan_exp_digits:
  "scan_exp (CHR ''e'' # CHR ''-'' # show_nat n) = Some (- int n, [])"
  "scan_exp (CHR ''e'' # CHR ''+'' # show_nat n) = Some (int n, [])"
proof -
  have d: "takeWhile is_digit (show_nat n) = show_nat n" "dropWhile is_digit (show_nat n) = []"
    using show_nat_digits by (simp_all add: takeWhile_eq_all_conv dropWhile_eq_Nil_conv)
  have "exp_sign (CHR ''-'' # show_nat n) = (True, show_nat n)" "exp_sign (CHR ''+'' # show_nat n) = (False, show_nat n)"
    by (simp_all add: exp_sign_def)
  then show "scan_exp (CHR ''e'' # CHR ''-'' # show_nat n) = Some (- int n, [])"
    "scan_exp (CHR ''e'' # CHR ''+'' # show_nat n) = Some (int n, [])"
    by (simp_all add: scan_exp_def Let_def d)
qed

text \<open>The four layouts of a positive decimal.\<close>

lemma f64_layout_scans:
  assumes "0 < x"
  obtains ip fp e where "scan_number (f64_layout x p) = Some (JNum False ip fp e, [])"
    "f64_of_decimal s (digits_val (ip @ fp)) (e - int (length fp)) = f64_of_decimal s x p"
    "\<exists>c r. f64_layout x p = c # r \<and> is_digit c"
proof -
  let ?s = "show_nat x"
  have dig: "\<forall>c \<in> set ?s. is_digit c" and hd: "hd ?s \<noteq> CHR ''0''"
    using show_nat_digits hd_show_nat_zero assms by auto
  obtain c r where s: "?s = c # r" by (cases ?s) simp_all
  have c: "is_digit c" "c \<noteq> CHR ''0''" "\<forall>d \<in> set r. is_digit d" using dig hd s by simp_all
  have sign: "minus_sign (d # t) = (False, d # t)" if "is_digit d" for d t
    using that by (auto simp: minus_sign_def is_digit_def)
  have zero: "is_digit (CHR ''0'')" by (simp add: is_digit_def)
  have val: "digits_val (c # r) = x" using s digits_val_show [of x] by simp
  let ?q = "int (length ?s) + p"
  have len: "length ?s = Suc (length r)" by (simp add: s)
  consider (sci) "?q < - 5 \<or> ?q > 21" | (small) "- 5 \<le> ?q" "?q \<le> 0"
    | (whole) "0 < ?q" "?q \<le> 21" "0 \<le> p" | (point) "0 < ?q" "?q \<le> 21" "p < 0"
    by linarith
  then show ?thesis
  proof cases
    case sci
    define E where "E = (if ?q - 1 < 0 then ''e-'' @ show_nat (nat (1 - ?q)) else ''e+'' @ show_nat (nat (?q - 1)))"
    have E: "scan_exp E = Some (?q - 1, [])" "stops_digits E" "scan_frac E = Some ([], E)"
      using scan_exp_digits by (auto simp: E_def stops_digits_def is_digit_def scan_frac_def)
    let ?f = "if r \<noteq> [] then CHR ''.'' # r else []"
    have t: "f64_layout x p = c # ?f @ E"
      using sci by (simp add: f64_layout_def Let_def E_def s)
    have "stops_digits (?f @ E)" using E(2) by (simp add: stops_digits_def is_digit_def)
    then have "scan_int ([c] @ ?f @ E) = Some ([c], ?f @ E)" using c by (intro scan_int_digits) simp_all
    moreover have "scan_frac (?f @ E) = Some (r, E)"
      using scan_frac_digits [OF c(3) _ E(2)] E(3) by auto
    ultimately have "scan_number (f64_layout x p) = Some (JNum False [c] r (?q - 1), [])"
      using E(1) by (simp add: t scan_number_def sign c(1))
    then show ?thesis using that [of "[c]" r "?q - 1"] t c(1) val len by simp
  next
    case small
    let ?z = "replicate (nat (- ?q)) (CHR ''0'')"
    have t: "f64_layout x p = CHR ''0'' # CHR ''.'' # (?z @ ?s) @ []"
      using small by (simp add: f64_layout_def Let_def)
    have "\<forall>d \<in> set (?z @ ?s). is_digit d" "?z @ ?s \<noteq> []" using dig zero by auto
    then have "scan_frac (CHR ''.'' # (?z @ ?s) @ []) = Some (?z @ ?s, [])"
      by (rule scan_frac_digits) (simp add: stops_digits_def)
    then have "scan_number (f64_layout x p) = Some (JNum False ''0'' (?z @ ?s) 0, [])"
      unfolding t by (simp add: scan_number_def sign zero scan_int_def scan_exp_def)
    moreover have "digits_val (''0'' @ ?z @ ?s) = x"
      using digits_val_lead [of "Suc (nat (- ?q))" ?s] by simp
    moreover have "0 - int (length (?z @ ?s)) = p" using small by simp
    ultimately show ?thesis using that [of "''0''" "?z @ ?s" 0] t zero by simp
  next
    case whole
    let ?z = "replicate (nat p) (CHR ''0'')"
    have t: "f64_layout x p = (?s @ ?z) @ []"
      using whole by (simp add: f64_layout_def Let_def)
    have "scan_int ((?s @ ?z) @ []) = Some (?s @ ?z, [])"
      by (rule scan_int_digits) (use dig zero hd in \<open>auto simp: stops_digits_def s\<close>)
    then have "scan_number (f64_layout x p) = Some (JNum False (?s @ ?z) [] 0, [])"
      unfolding t using sign [OF c(1)] by (simp add: scan_number_def s scan_frac_def scan_exp_def)
    moreover have "digits_val (?s @ ?z) = x * 10 ^ nat p" by simp
    moreover have "\<exists>c r. f64_layout x p = c # r \<and> is_digit c" using t c(1) s by simp
    ultimately show ?thesis using that [of "?s @ ?z" "[]" 0] f64_of_decimal_zeros [OF whole(3)] by simp
  next
    case point
    let ?a = "take (nat ?q) ?s" and ?b = "drop (nat ?q) ?s"
    have t: "f64_layout x p = ?a @ CHR ''.'' # ?b @ []"
      using point by (simp add: f64_layout_def Let_def)
    have sub: "set ?a \<subseteq> set ?s" "set ?b \<subseteq> set ?s" by (rule set_take_subset, rule set_drop_subset)
    obtain a where a: "?a = c # a" using point by (cases "nat ?q") (simp_all add: s)
    have "scan_int (?a @ CHR ''.'' # ?b @ []) = Some (?a, CHR ''.'' # ?b @ [])"
      by (rule scan_int_digits) (use dig sub(1) c(2) a in \<open>auto simp: stops_digits_def is_digit_def\<close>)
    moreover have "?b \<noteq> []" using point by (simp add: s)
    then have "scan_frac (CHR ''.'' # ?b @ []) = Some (?b, [])"
      by (intro scan_frac_digits) (use dig sub(2) in \<open>auto simp: stops_digits_def\<close>)
    ultimately have "scan_number (f64_layout x p) = Some (JNum False ?a ?b 0, [])"
      unfolding t using sign [OF c(1)] by (simp add: scan_number_def a scan_exp_def)
    moreover have p: "0 - int (length ?b) = p" using point by simp
    moreover have "digits_val (?a @ ?b) = x" by (simp only: append_take_drop_id digits_val_show)
    moreover have "\<exists>c r. f64_layout x p = c # r \<and> is_digit c" using t c(1) a by simp
    ultimately show ?thesis using that [of ?a ?b 0] unfolding p by simp
  qed
qed

section \<open>Reading back\<close>

text \<open>The one normal form a zero has; every float that is read has it.\<close>

definition normal_zero :: "f64 \<Rightarrow> bool" where
  "normal_zero f \<longleftrightarrow> (\<forall>s e. f = Fin s 0 e \<longrightarrow> e = - 1074)"

lemma shifted_large:
  assumes "\<not> ratio_less_pow n d (52 + u)" "ratio_shift n d u = (n', d')"
  shows "d' * 2 ^ 52 \<le> n'"
proof -
  consider "0 \<le> u" | "u < 0" "0 \<le> 52 + u" | "52 + u < 0" by linarith
  then show ?thesis
  proof cases
    case 1
    then have "nat (52 + u) = nat u + 52" by simp
    then show ?thesis using assms 1 by (simp add: ratio_less_pow_def ratio_shift_def power_add)
  next
    case 2
    then have "52 = nat (52 + u) + nat (- u)" by simp
    then have "(2::nat) ^ 52 = 2 ^ nat (52 + u) * 2 ^ nat (- u)" by (metis power_add)
    moreover have "d * 2 ^ nat (52 + u) * 2 ^ nat (- u) \<le> n * 2 ^ nat (- u)"
      using assms(1) 2 by (intro mult_le_mono1) (simp add: ratio_less_pow_def)
    ultimately show ?thesis using assms(2) 2 by (auto simp: ratio_shift_def mult.assoc)
  next
    case 3
    then have "nat (- u) = nat (- (52 + u)) + 52" by simp
    then have "n * 2 ^ nat (- u) = n * 2 ^ nat (- (52 + u)) * 2 ^ 52" by (simp only: power_add mult.assoc)
    moreover have "d * 2 ^ 52 \<le> n * 2 ^ nat (- (52 + u)) * 2 ^ 52"
      using assms(1) 3 by (intro mult_le_mono1) (simp add: ratio_less_pow_def)
    ultimately show ?thesis using assms(2) 3 by (auto simp: ratio_shift_def)
  qed
qed

lemma f64_of_ratio_normal_zero:
  assumes "f64_of_ratio s n d = Some f" "0 < d"
  shows "normal_zero f"
proof (cases "n = 0")
  case True
  then show ?thesis using assms by (auto simp: f64_of_ratio_def normal_zero_def)
next
  case False
  let ?e = "ulp_exp n d"
  obtain k where k: "?e = max (k - 52) (- 1074)" "\<not> ratio_less_pow n d k"
    using ulp_exp_window [of n d] False assms(2) by (metis neq0_conv)
  obtain n' d' where sh: "ratio_shift n d ?e = (n', d')" by (cases "ratio_shift n d ?e")
  have d': "0 < d'" using sh assms(2) by (auto simp: ratio_shift_def split: if_splits)
  have "?e = - 1074 \<or> 0 < round_half_even n' d'"
  proof (cases "?e = - 1074")
    case False
    then have "52 + ?e = k" using k(1) by (simp add: max_def split: if_splits)
    then have "d' * 2 ^ 52 \<le> n'" using shifted_large [of n d ?e] k(2) sh by simp
    then have "0 < n' div d'" using d' by (simp add: div_greater_zero_iff)
    then show ?thesis by (auto simp: round_half_even_def Let_def)
  qed simp
  then show ?thesis
    using assms(1) False sh by (auto simp: f64_of_ratio_def Let_def normal_zero_def split: if_splits)
qed

text \<open>What \<open>f64_fmt\<close> prints is a number, and it reads back as the float that was printed.\<close>

theorem f64_fmt_reads_back:
  assumes "f64_fmt f = Some t" "normal_zero f"
  shows "float_text_ok f" "float_reads_back f"
proof -
  obtain s m e where f: "f = Fin s m e" using assms by (cases f) (simp_all add: f64_fmt_def)
  define u where "u = (if m = 0 then ''0'' else (case the (shortest m e) of (x, p) \<Rightarrow> f64_layout x p))"
  have t: "t = (if s then CHR ''-'' # u else u)"
    using assms(1) by (auto simp: f f64_fmt_def u_def split: if_splits)
  have "\<exists>ip fp e'. scan_number u = Some (JNum False ip fp e', []) \<and> num_value s ip fp e' = Some f
     \<and> (\<exists>c r. u = c # r \<and> is_digit c)"
  proof (cases "m = 0")
    case True
    then have "scan_number u = Some (JNum False ''0'' [] 0, [])" "u = ''0''"
      by (simp_all add: u_def scan_number_def minus_sign_def scan_int_def scan_frac_def scan_exp_def)
    moreover have "num_value s ''0'' [] 0 = Some f"
      using assms(2) True digits_val_show [of 0]
      by (simp add: f normal_zero_def num_value_def f64_of_decimal_def f64_of_ratio_def)
    ultimately show ?thesis by (auto simp: is_digit_def)
  next
    case False
    then obtain x p where xp: "shortest m e = Some (x, p)" using assms(1) by (auto simp: f f64_fmt_def)
    have r: "f64_of_decimal False x p = Some (Fin False m e)" "0 < x"
      using shortest_reads [OF xp] False by simp_all
    have "f64_of_decimal s x p = Some f" unfolding f by (rule f64_of_decimal_sign [OF r(1)])
    moreover obtain ip fp e' where "scan_number (f64_layout x p) = Some (JNum False ip fp e', [])"
      "f64_of_decimal s (digits_val (ip @ fp)) (e' - int (length fp)) = f64_of_decimal s x p"
      "\<exists>c r. f64_layout x p = c # r \<and> is_digit c"
      by (rule f64_layout_scans [OF r(2)])
    moreover have "u = f64_layout x p" using False by (simp add: u_def xp)
    ultimately have "scan_number u = Some (JNum False ip fp e', [])" "num_value s ip fp e' = Some f"
      "\<exists>c r. u = c # r \<and> is_digit c" unfolding num_value_def by simp_all
    then show ?thesis by blast
  qed
  then obtain ip fp e' c r where u: "scan_number u = Some (JNum False ip fp e', [])" "u = c # r" "is_digit c"
    and v: "num_value s ip fp e' = Some f" by blast
  have "minus_sign u = (False, u)" using u(2,3) by (auto simp: minus_sign_def is_digit_def)
  moreover have "minus_sign (CHR ''-'' # u) = (True, u)" by (simp add: minus_sign_def)
  ultimately have "scan_number t = Some (JNum s ip fp e', [])"
    using u(1) by (auto simp: t scan_number_def split: option.splits)
  then show "float_text_ok f" "float_reads_back f"
    using assms(1) v by (simp_all add: float_text_ok_def float_reads_back_def)
qed

end
