(* ===== verification/Jwt.thy ===== *)
theory Jwt
  imports Disclosure Float_Roundtrip
begin

text \<open>
  Compact JWTs and the keys they are verified with: \<open>decodeJWT\<close>, \<open>verifyJWTSignature\<close> and the JWK
  helpers of \<open>verifier.go\<close>, \<open>signJWT\<close> and \<open>buildCnf\<close> of \<open>issuer.go\<close>, the \<open>Signer\<close> interface of
  \<open>crypto.go\<close>.
\<close>

definition dot :: char where "dot = CHR ''.''"

section \<open>Keys and signers\<close>

text \<open>
  A \<open>crypto.PublicKey\<close>: one of the two types the program distinguishes, or a key of any other
  type, of which only its JSON matters (that of the value it carries).
\<close>

datatype pubkey =
    EcdsaKey curve nat nat
  | RsaKey nat int
  | OtherKey gval

record signer =
  Sign :: "bytes \<Rightarrow> goerr + bytes"
  Algorithm :: string
  KeyID :: string

section \<open>Decoding\<close>

text \<open>\<open>fmt.Errorf("what: %w", err)\<close> around an error of the standard library.\<close>

definition lib_error :: "string \<Rightarrow> string \<Rightarrow> goerr" where
  "lib_error what lib = Errorf [Txt what, Wrapped (LibError lib)]"

definition decodeJWT :: "string \<Rightarrow> goerr + (gmap \<times> gmap)" where
  "decodeJWT tok =
     (let parts = splitN dot 3 tok in
      if length parts \<noteq> 3 then Inl (Errorf [Txt ''not a three-part JWT''])
      else
        res_bind (of_option (lib_error ''header decode: '' ''base64.DecodeString'') (b64_dec (parts ! 0)))
          (\<lambda>hb. res_bind (of_option (lib_error ''payload decode: '' ''base64.DecodeString'')
                            (b64_dec (parts ! 1)))
          (\<lambda>pb. res_bind (of_option (lib_error ''header json: '' ''json.Unmarshal'') (unmarshal_map hb))
          (\<lambda>header. res_bind (of_option (lib_error ''payload json: '' ''json.Unmarshal'')
                                 (unmarshal_map pb))
          (\<lambda>payload. Inr (header, payload))))))"

lemma decodeJWT_go:
  "decodeJWT tok = Inr (h, p) \<Longrightarrow> distinct (map fst p) \<and> go_fields p"
  by (auto simp: decodeJWT_def Let_def res_bind_Inr_iff split: if_splits dest: unmarshal_map_go)

section \<open>Signatures\<close>

definition algToDigest :: "crypto \<Rightarrow> string \<Rightarrow> bytes \<Rightarrow> goerr + (bytes \<times> hash_for_alg)" where
  "algToDigest C alg data =
     (if alg \<in> {''ES256'', ''RS256'', ''PS256''} then Inr (sha256Sum C data, SHA256Alg)
      else if alg \<in> {''ES384'', ''RS384'', ''PS384''} then Inr (sha384Sum C data, SHA384Alg)
      else if alg \<in> {''ES512'', ''RS512'', ''PS512''} then Inr (sha512Sum C data, SHA512Alg)
      else Inl (Errorf [Txt ''unsupported algorithm '', Quot alg]))"

text \<open>The two halves of the signature are the big-endian integers \<open>r\<close> and \<open>s\<close>.\<close>

definition verifyECDSA :: "crypto \<Rightarrow> curve \<Rightarrow> nat \<Rightarrow> nat \<Rightarrow> bytes \<Rightarrow> bytes \<Rightarrow> goerr + unit" where
  "verifyECDSA C crv x y digest sig =
     (let l = length sig div 2 in
      if length sig \<noteq> 2 * l then
        Inl (Errorf [Txt ''invalid ECDSA signature length '', Txt (show_nat (length sig))])
      else let r = be_nat (take l sig); s = be_nat (drop l sig) in
        if \<not> ecdsa_Verify C crv x y digest r s then Inl (Sentinel ErrSignatureInvalid)
        else Inr ())"

definition verifyRSA ::
  "crypto \<Rightarrow> nat \<Rightarrow> int \<Rightarrow> bytes \<Rightarrow> bytes \<Rightarrow> string \<Rightarrow> hash_for_alg \<Rightarrow> goerr + unit" where
  "verifyRSA C n e digest sig alg h =
     (if take 2 alg = ''PS'' then
        (if rsa_VerifyPSS C n e (CryptoHash h) digest sig then Inr ()
         else Inl (LibError ''rsa.VerifyPSS''))
      else
        (if rsa_VerifyPKCS1v15 C n e (CryptoHash h) digest sig then Inr ()
         else Inl (LibError ''rsa.VerifyPKCS1v15'')))"

definition verifyJWTSignature :: "crypto \<Rightarrow> string \<Rightarrow> pubkey \<Rightarrow> string \<Rightarrow> goerr + unit" where
  "verifyJWTSignature C tok pub alg =
     (let parts = splitN dot 3 tok in
      if length parts \<noteq> 3 then Inl (Errorf [Txt ''invalid JWT format''])
      else
        res_bind (of_option (lib_error ''signature decode: '' ''base64.DecodeString'') (b64_dec (parts ! 2)))
          (\<lambda>sig. res_bind (algToDigest C alg (parts ! 0 @ dot # parts ! 1))
          (\<lambda>(digest, h).
            (case pub of
               EcdsaKey crv x y \<Rightarrow> verifyECDSA C crv x y digest sig
             | RsaKey n e \<Rightarrow> verifyRSA C n e digest sig alg h
             | OtherKey _ \<Rightarrow> Inl (Errorf [Txt ''unsupported public key type'']))))) "

section \<open>Confirmation keys\<close>

definition extractCnf :: "gmap \<Rightarrow> goerr + gmap" where
  "extractCnf payload =
     (case as_map (map_of payload ''cnf'') of
        None \<Rightarrow> Inl (Errorf [Txt ''cnf claim absent or wrong type''])
      | Some cnf \<Rightarrow>
        (case as_map (map_of cnf ''jwk'') of
           None \<Rightarrow> Inl (Errorf [Txt ''cnf.jwk absent or wrong type''])
         | Some jwk \<Rightarrow> Inr jwk))"

definition ecPublicKeyFromJWK :: "gmap \<Rightarrow> goerr + pubkey" where
  "ecPublicKeyFromJWK m =
     (let crv = string_or_empty (map_of m ''crv'');
          xStr = string_or_empty (map_of m ''x'');
          yStr = string_or_empty (map_of m ''y'') in
      res_bind (of_option (lib_error ''ec jwk x: '' ''base64.DecodeString'') (b64_dec xStr))
        (\<lambda>xb. res_bind (of_option (lib_error ''ec jwk y: '' ''base64.DecodeString'') (b64_dec yStr))
        (\<lambda>yb. res_bind (curveForName crv)
        (\<lambda>curve. Inr (EcdsaKey curve (be_nat xb) (be_nat yb))))))"

definition rsaPublicKeyFromJWK :: "gmap \<Rightarrow> goerr + pubkey" where
  "rsaPublicKeyFromJWK m =
     (let nStr = string_or_empty (map_of m ''n'');
          eStr = string_or_empty (map_of m ''e'') in
      res_bind (of_option (lib_error ''rsa jwk n: '' ''base64.DecodeString'') (b64_dec nStr))
        (\<lambda>nb. res_bind (of_option (lib_error ''rsa jwk e: '' ''base64.DecodeString'') (b64_dec eStr))
        (\<lambda>eb. let eInt = big_Int64 (be_nat eb) in Inr (RsaKey (be_nat nb) eInt))))"

text \<open>\<open>jwkToPublicKey\<close> takes an \<open>any\<close>; its first check is the type assertion to a map.\<close>

definition jwkToPublicKey :: "gval \<Rightarrow> goerr + pubkey" where
  "jwkToPublicKey jwk =
     (case as_map (Some jwk) of
        None \<Rightarrow> Inl (Errorf [Txt ''cnf is not a JWK map''])
      | Some m \<Rightarrow>
        let kty = string_or_empty (map_of m ''kty'') in
        if kty = ''EC'' then ecPublicKeyFromJWK m
        else if kty = ''RSA'' then rsaPublicKeyFromJWK m
        else Inl (Errorf [Txt ''unsupported JWK kty '', Quot kty]))"

text \<open>
  \<open>json.Marshal\<close> of a public key: the standard library's key structs have exported fields and no
  \<open>MarshalJSON\<close>, so an ECDSA key is an object with the fields \<open>Curve\<close> (an interface holding a
  struct without exported fields), \<open>X\<close> and \<open>Y\<close>, an RSA key one with \<open>N\<close> and \<open>E\<close>, all numbers.
\<close>

definition key_json :: "pubkey \<Rightarrow> gval" where
  "key_json pub =
     (case pub of
        EcdsaKey crv x y \<Rightarrow> GMap [(''Curve'', GMap []), (''X'', GInt (int x)), (''Y'', GInt (int y))]
      | RsaKey n e \<Rightarrow> GMap [(''N'', GInt (int n)), (''E'', GInt e)]
      | OtherKey v \<Rightarrow> v)"

definition buildCnf :: "pubkey \<Rightarrow> goerr + gmap" where
  "buildCnf pub =
     (case json_enc (key_json pub) of
        None \<Rightarrow> Inl (lib_error ''marshalling holder public key: '' ''json.Marshal'')
      | Some b \<Rightarrow>
        (case unmarshal_map b of
           None \<Rightarrow> Inl (LibError ''json.Unmarshal'')
         | Some jwk \<Rightarrow> Inr [(''jwk'', GMap jwk)]))"

section \<open>Signing\<close>

text \<open>The header both JWTs of the program carry; \<open>kid\<close> is left out when the signer has none.\<close>

definition jwt_header :: "string \<Rightarrow> signer \<Rightarrow> gmap" where
  "jwt_header typ sg =
     [(''typ'', GString typ), (''alg'', GString (Algorithm sg))]
     @ (if KeyID sg \<noteq> [] then [(''kid'', GString (KeyID sg))] else [])"

text \<open>The part \<open>signJWT\<close> and \<open>buildKBJWT\<close> have in common, written out in both.\<close>

definition sign_compact :: "signer \<Rightarrow> gmap \<Rightarrow> gmap \<Rightarrow> goerr + string" where
  "sign_compact sg header payload =
     res_bind (of_option (LibError ''json.Marshal'') (json_enc (GMap header)))
       (\<lambda>hb. res_bind (of_option (LibError ''json.Marshal'') (json_enc (GMap payload)))
       (\<lambda>pb. let headerEnc = b64_enc hb; payloadEnc = b64_enc pb;
                 signingInput = headerEnc @ dot # payloadEnc in
          res_bind (Sign sg signingInput)
            (\<lambda>sig. Inr (join dot [headerEnc, payloadEnc, b64_enc sig]))))"

definition signJWT :: "signer \<Rightarrow> gmap \<Rightarrow> goerr + string" where
  "signJWT sg payload = sign_compact sg (jwt_header ''vc+sd-jwt'' sg) payload"

section \<open>Compact tokens\<close>

text \<open>What the signature check does once the token is cut and its signature decoded.\<close>

definition check_signature :: "crypto \<Rightarrow> pubkey \<Rightarrow> string \<Rightarrow> bytes \<Rightarrow> bytes \<Rightarrow> goerr + unit" where
  "check_signature C pub alg input sig =
     res_bind (algToDigest C alg input) (\<lambda>(digest, h).
       (case pub of
          EcdsaKey crv x y \<Rightarrow> verifyECDSA C crv x y digest sig
        | RsaKey n e \<Rightarrow> verifyRSA C n e digest sig alg h
        | OtherKey _ \<Rightarrow> Inl (Errorf [Txt ''unsupported public key type''])))"

definition compact :: "bytes \<Rightarrow> bytes \<Rightarrow> bytes \<Rightarrow> string" where
  "compact hb pb sig = b64_enc hb @ dot # b64_enc pb @ dot # b64_enc sig"

definition signing_input :: "bytes \<Rightarrow> bytes \<Rightarrow> string" where
  "signing_input hb pb = b64_enc hb @ dot # b64_enc pb"

lemma split_compact: "splitN dot 3 (compact hb pb sig) = [b64_enc hb, b64_enc pb, b64_enc sig]"
  unfolding compact_def by (rule split_3) (simp_all add: dot_def)

lemma decodeJWT_compact:
  assumes "unmarshal_map hb = Some h" "unmarshal_map pb = Some p"
  shows "decodeJWT (compact hb pb sig) = Inr (h, p)"
  using assms by (simp add: decodeJWT_def split_compact b64_dec_enc)

lemma verify_compact:
  "verifyJWTSignature C (compact hb pb sig) pub alg = check_signature C pub alg (signing_input hb pb) sig"
  by (simp add: verifyJWTSignature_def split_compact b64_dec_enc check_signature_def signing_input_def)

lemma compact_segment: "compact hb pb sig \<noteq> [] \<and> CHR ''~'' \<notin> set (compact hb pb sig)"
  by (simp add: compact_def dot_def)

lemma sign_compact_iff:
  "sign_compact sg header payload = Inr tok \<longleftrightarrow>
     (\<exists>hb pb sig. json_enc (GMap header) = Some hb \<and> json_enc (GMap payload) = Some pb
        \<and> Sign sg (signing_input hb pb) = Inr sig \<and> tok = compact hb pb sig)"
  by (auto simp: sign_compact_def res_bind_Inr_iff signing_input_def compact_def Let_def
      simp del: json_enc.simps)

text \<open>The headers the program writes, read back.\<close>

lemma jwt_header_portable:
  assumes "utf8_valid typ" "utf8_valid (Algorithm sg)" "utf8_valid (KeyID sg)"
  shows "portable (GMap (jwt_header typ sg))"
proof -
  have "utf8_valid ''typ''" "utf8_valid ''alg''" "utf8_valid ''kid''"
    by (rule ascii_utf8_valid; simp)+
  then show ?thesis
    using assms by (auto simp: portable_def jwt_header_def json_max_depth_def)
qed

definition header_view :: "gmap \<Rightarrow> gmap" where
  "header_view m = sort_key fst (json_norm_fields m)"

lemma decode_signed:
  assumes "portable (GMap header)" "portable (GMap payload)"
    and "sign_compact sg header payload = Inr tok"
  shows "decodeJWT tok = Inr (header_view header, header_view payload)"
proof -
  obtain hb pb sig where "json_enc (GMap header) = Some hb" "json_enc (GMap payload) = Some pb"
    and tok: "tok = compact hb pb sig"
    using assms(3) by (auto simp: sign_compact_iff simp del: json_enc.simps)
  then have "unmarshal_map hb = Some (header_view header)"
    "unmarshal_map pb = Some (header_view payload)"
    using assms(1,2) unmarshal_marshal_map unfolding header_view_def by (metis option.inject)+
  then show ?thesis unfolding tok by (rule decodeJWT_compact)
qed

lemma map_of_json_norm_fields: "map_of (json_norm_fields m) k = map_option json_norm (map_of m k)"
  by (induction m) auto

lemma map_of_view:
  "distinct (map fst m) \<Longrightarrow> map_of (header_view m) k = map_option json_norm (map_of m k)"
  by (simp add: header_view_def map_of_sort_key map_of_json_norm_fields)

section \<open>Which signatures are accepted\<close>

text \<open>
  The algorithm names by the hash they use, and the primitive's verdict for a key. An elliptic-curve
  key is used whatever the family of the algorithm, and an RSA key with PSS padding exactly for the
  names that start with \<open>PS\<close>.
\<close>

definition alg_hash :: "string \<Rightarrow> hash option" where
  "alg_hash alg =
     (if alg \<in> {''ES256'', ''RS256'', ''PS256''} then Some SHA256
      else if alg \<in> {''ES384'', ''RS384'', ''PS384''} then Some SHA384
      else if alg \<in> {''ES512'', ''RS512'', ''PS512''} then Some SHA512
      else None)"

definition hash_sum :: "crypto \<Rightarrow> hash \<Rightarrow> bytes \<Rightarrow> bytes" where
  "hash_sum C h data =
     (if h = SHA256 then sha256 C data else if h = SHA384 then sha384 C data else sha512 C data)"

fun primitive_accepts :: "crypto \<Rightarrow> pubkey \<Rightarrow> string \<Rightarrow> hash \<Rightarrow> bytes \<Rightarrow> bytes \<Rightarrow> bool" where
  "primitive_accepts C (EcdsaKey crv x y) alg h digest sig \<longleftrightarrow>
     even (length sig)
     \<and> ecdsa_Verify C crv x y digest (be_nat (take (length sig div 2) sig))
         (be_nat (drop (length sig div 2) sig))"
| "primitive_accepts C (RsaKey n e) alg h digest sig \<longleftrightarrow>
     (if take 2 alg = ''PS'' then rsa_VerifyPSS C n e h digest sig
      else rsa_VerifyPKCS1v15 C n e h digest sig)"
| "primitive_accepts C (OtherKey v) alg h digest sig \<longleftrightarrow> False"

lemma algToDigest_eq:
  "algToDigest C alg data =
     (case alg_hash alg of
        None \<Rightarrow> Inl (Errorf [Txt ''unsupported algorithm '', Quot alg])
      | Some h \<Rightarrow> Inr (hash_sum C h data, h))"
  by (simp add: algToDigest_def alg_hash_def hash_sum_def sha256Sum_def sha384Sum_def sha512Sum_def
      SHA256Alg_def SHA384Alg_def SHA512Alg_def hash_codes)

lemma verifyECDSA_iff:
  "verifyECDSA C crv x y digest sig = Inr () \<longleftrightarrow>
     primitive_accepts C (EcdsaKey crv x y) alg h digest sig"
proof -
  have "length sig \<noteq> 2 * (length sig div 2) \<longleftrightarrow> odd (length sig)" by presburger
  then show ?thesis by (simp only: verifyECDSA_def Let_def primitive_accepts.simps) simp
qed

lemma verifyRSA_iff:
  "verifyRSA C n e digest sig alg h = Inr () \<longleftrightarrow> primitive_accepts C (RsaKey n e) alg h digest sig"
  by (simp add: verifyRSA_def CryptoHash_def)

lemma check_signature_iff:
  "check_signature C pub alg input sig = Inr () \<longleftrightarrow>
     (\<exists>h. alg_hash alg = Some h \<and> primitive_accepts C pub alg h (hash_sum C h input) sig)"
  by (cases pub; cases "alg_hash alg")
     (auto simp: check_signature_def algToDigest_eq verifyECDSA_iff verifyRSA_iff
       simp del: primitive_accepts.simps(1,2))

text \<open>A signer's signatures are accepted by a public key.\<close>

definition signs_for :: "crypto \<Rightarrow> signer \<Rightarrow> pubkey \<Rightarrow> bool" where
  "signs_for C sg pub \<longleftrightarrow>
     (\<forall>m sig. Sign sg m = Inr sig \<longrightarrow> check_signature C pub (Algorithm sg) m sig = Inr ())"

lemma be_nat_Nil [simp]: "be_nat [] = 0"
  by (simp add: be_nat_def)

lemma be_nat_snoc [simp]: "be_nat (bs @ [b]) = be_nat bs * 256 + byte_val b"
  by (simp add: be_nat_def)

lemma be_nat_less: "be_nat bs < 256 ^ length bs"
proof (induction bs rule: rev_induct)
  case (snoc b bs)
  have "byte_val b < 256" by simp
  then have "be_nat bs * 256 + byte_val b < (be_nat bs + 1) * 256" by simp
  also have "\<dots> \<le> 256 ^ length bs * 256" using snoc by (intro mult_right_mono) auto
  finally show ?case by simp
qed simp

section \<open>A concrete scheme\<close>

text \<open>
  An instance of the primitives, the signer and the randomness for the examples of the
  development: the hashes are the identity, a signature repeats the signed bytes twice, and the
  verification compares both halves with the digest. It satisfies what the theorems ask of a
  scheme and is easy to evaluate.
\<close>

definition toy_crypto :: crypto where
  "toy_crypto =
     \<lparr>sha256 = (\<lambda>m. m), sha384 = (\<lambda>m. m), sha512 = (\<lambda>m. m),
      ecdsa_Verify = (\<lambda>crv x y d r s. r = be_nat d \<and> s = be_nat d),
      rsa_VerifyPKCS1v15 = (\<lambda>n e h d sig. sig = d), rsa_VerifyPSS = (\<lambda>n e h d sig. sig = d)\<rparr>"

definition toy_signer :: "string \<Rightarrow> signer" where
  "toy_signer kid = \<lparr>Sign = (\<lambda>m. Inr (m @ m)), Algorithm = ''ES256'', KeyID = kid\<rparr>"

definition toy_key :: pubkey where "toy_key = EcdsaKey P256 1 2"

definition toy_rng :: rng where
  "toy_rng i n = Some (replicate n (char_of i))"

lemma toy_signs_for: "signs_for toy_crypto (toy_signer kid) toy_key"
proof -
  have "length m + length m = 2 * length m" for m :: string by simp
  then have "(length m + length m) div 2 = length m" for m :: string by (metis nonzero_mult_div_cancel_left zero_neq_numeral)
  then show ?thesis
    by (simp add: signs_for_def check_signature_iff toy_signer_def toy_key_def alg_hash_def hash_sum_def
        hash_codes toy_crypto_def)
qed

lemma toy_signer_utf8: "utf8_valid kid \<Longrightarrow> utf8_valid (Algorithm (toy_signer kid)) \<and> utf8_valid (KeyID (toy_signer kid))"
  by (simp add: toy_signer_def ascii_utf8_valid)

section \<open>Properties\<close>

lemma verifyJWTSignature_cases:
  "verifyJWTSignature C tok pub alg = Inr () \<longleftrightarrow>
     (\<exists>h p s sig. splitN dot 3 tok = [h, p, s] \<and> b64_dec s = Some sig
        \<and> check_signature C pub alg (h @ dot # p) sig = Inr ())"
proof (cases "length (splitN dot 3 tok) = 3")
  case True
  then obtain h p s where parts: "splitN dot 3 tok = [h, p, s]"
    by (auto simp: numeral_3_eq_3 length_Suc_conv)
  have "verifyJWTSignature C tok pub alg =
    res_bind (of_option (lib_error ''signature decode: '' ''base64.DecodeString'') (b64_dec s))
      (check_signature C pub alg (h @ dot # p))"
    by (simp add: verifyJWTSignature_def parts check_signature_def [abs_def])
  then show ?thesis by (auto simp: parts res_bind_Inr_iff)
next
  case False
  then show ?thesis by (auto simp: verifyJWTSignature_def Let_def)
qed

lemma wrap64_cong: "(wrap64 x - x) mod 2 ^ 64 = 0"
proof -
  have "wrap64 x - x = - (2 ^ 64 * ((x + 2 ^ 63) div 2 ^ 64))"
    unfolding wrap64_def by (simp only: minus_mult_div_eq_mod [symmetric])
  then show ?thesis by simp
qed

text \<open>
  C34: a compact token is accepted by a key and an algorithm name exactly when it has three parts,
  its signature part is base64url, the name is one of the nine the verifier knows, and the
  primitive of the key's type accepts the signature over the hash of the first two parts.
\<close>
theorem verifyJWTSignature_iff:
  "verifyJWTSignature C tok pub alg = Inr () \<longleftrightarrow>
     (\<exists>hd pl s sig h. splitN dot 3 tok = [hd, pl, s] \<and> b64_dec s = Some sig \<and> alg_hash alg = Some h
        \<and> primitive_accepts C pub alg h (hash_sum C h (hd @ dot # pl)) sig)"
  by (auto simp: verifyJWTSignature_cases check_signature_iff)

text \<open>
  C33: what \<open>signJWT\<close> signs is what \<open>decodeJWT\<close> reads: the payload comes back as JSON carries it,
  the header names the signer's algorithm and key, and a key the signer signs for accepts the
  token.
\<close>
theorem signJWT_decodeJWT:
  assumes "portable (GMap payload)" and "distinct (map fst payload)"
    and "utf8_valid (Algorithm sg)" and "utf8_valid (KeyID sg)"
    and "signs_for C sg pub" and "signJWT sg payload = Inr tok"
  shows "\<exists>h p. decodeJWT tok = Inr (h, p)
    \<and> (\<forall>k. map_of p k = map_option json_norm (map_of payload k))
    \<and> string_or_empty (map_of h ''alg'') = Algorithm sg
    \<and> string_or_empty (map_of h ''kid'') = KeyID sg
    \<and> verifyJWTSignature C tok pub (string_or_empty (map_of h ''alg'')) = Inr ()"
proof -
  let ?h = "jwt_header ''vc+sd-jwt'' sg"
  have "portable (GMap ?h)"
    using assms(3,4) by (intro jwt_header_portable) (rule ascii_utf8_valid; simp)
  then have dec: "decodeJWT tok = Inr (header_view ?h, header_view payload)"
    using assms(1,6) by (intro decode_signed) (simp_all add: signJWT_def)
  have "distinct (map fst ?h)" by (simp add: jwt_header_def)
  then have hd: "map_of (header_view ?h) k = map_option json_norm (map_of ?h k)" for k
    by (rule map_of_view)
  have alg: "string_or_empty (map_of (header_view ?h) ''alg'') = Algorithm sg"
    and kid: "string_or_empty (map_of (header_view ?h) ''kid'') = KeyID sg"
    unfolding hd by (simp_all add: jwt_header_def)
  obtain hb pb sig where "Sign sg (signing_input hb pb) = Inr sig" "tok = compact hb pb sig"
    using assms(6) by (auto simp: signJWT_def sign_compact_iff simp del: json_enc.simps)
  then have "verifyJWTSignature C tok pub (Algorithm sg) = Inr ()"
    using assms(5) by (simp add: verify_compact signs_for_def)
  then show ?thesis using dec map_of_view [OF assms(2)] alg kid by auto
qed

theorem signJWT_decodeJWT_witness:
  "\<exists>tok h p. signJWT (toy_signer ''k1'') [(''iss'', GString ''a'')] = Inr tok
    \<and> decodeJWT tok = Inr (h, p) \<and> map_of p ''iss'' = Some (GString ''a'')
    \<and> string_or_empty (map_of h ''kid'') = ''k1''
    \<and> verifyJWTSignature toy_crypto tok toy_key (string_or_empty (map_of h ''alg'')) = Inr ()"
proof -
  let ?p = "[(''iss'', GString ''a'')]"
  have k: "utf8_valid ''k1''" "utf8_valid ''iss''" "utf8_valid ''a''" by (rule ascii_utf8_valid; simp)+
  have port: "portable (GMap ?p)" using k by (simp add: portable_def json_max_depth_def)
  obtain hb where hb: "json_enc (GMap (jwt_header ''vc+sd-jwt'' (toy_signer ''k1''))) = Some hb"
    by (simp add: jwt_header_def toy_signer_def)
  obtain pb where pb: "json_enc (GMap ?p) = Some pb" by simp
  have tok: "signJWT (toy_signer ''k1'') ?p = Inr
      (compact hb pb (signing_input hb pb @ signing_input hb pb))"
    unfolding signJWT_def sign_compact_iff using hb pb by (simp add: toy_signer_def del: json_enc.simps)
  show ?thesis
    using signJWT_decodeJWT [OF port _ _ _ toy_signs_for tok] tok toy_signer_utf8 [OF k(1)]
    by (auto simp: toy_signer_def)
qed

text \<open>
  C40: the RSA exponent of a JWK is the low 64 bits of its \<open>e\<close> member read as a signed number: seven
  bytes or fewer are taken as they are, longer ones wrap around, possibly to a small or negative
  exponent.
\<close>
theorem rsa_exponent:
  assumes "map_of m ''n'' = Some (GString (b64_enc nb))"
    and "map_of m ''e'' = Some (GString (b64_enc eb))"
  shows "\<exists>e. rsaPublicKeyFromJWK m = Inr (RsaKey (be_nat nb) e)
    \<and> - (2 ^ 63) \<le> e \<and> e < 2 ^ 63 \<and> (e - int (be_nat eb)) mod 2 ^ 64 = 0
    \<and> (length eb \<le> 7 \<longrightarrow> e = int (be_nat eb))"
proof -
  let ?e = "wrap64 (int (be_nat eb))"
  have "(?e - int (be_nat eb)) mod 2 ^ 64 = 0" by (rule wrap64_cong)
  moreover have "?e = int (be_nat eb)" if "length eb \<le> 7"
  proof -
    have "(256::nat) ^ length eb \<le> 256 ^ 7" using that by (intro power_increasing) auto
    then have "be_nat eb < 2 ^ 63" using be_nat_less [of eb] by simp
    then show ?thesis by (intro wrap64_id) (simp add: int64_range_def)
  qed
  moreover have "rsaPublicKeyFromJWK m = Inr (RsaKey (be_nat nb) ?e)"
    using assms by (simp add: rsaPublicKeyFromJWK_def b64_dec_enc big_Int64_def Let_def)
  moreover have "int64_range ?e" by simp
  ultimately show ?thesis by (auto simp: int64_range_def)
qed

theorem rsa_exponent_witness:
  "\<exists>e. rsaPublicKeyFromJWK [(''n'', GString (b64_enc ''abc'')), (''e'', GString (b64_enc ''b''))]
      = Inr (RsaKey (be_nat ''abc'') e)
    \<and> - (2 ^ 63) \<le> e \<and> e < 2 ^ 63 \<and> (e - int (be_nat ''b'')) mod 2 ^ 64 = 0
    \<and> (length ''b'' \<le> 7 \<longrightarrow> e = int (be_nat ''b''))"
  by (rule rsa_exponent) simp_all

end
