(* ===== verification/Token.thy ===== *)
theory Token
  imports Errors
begin

text \<open>
  \<open>token.go\<close>: the wire format \<open>issuerJWT~disc1~...~discN~kbJWT\<close>.
\<close>

definition tilde :: char where "tilde = CHR ''~''"

record token =
  IssuerJWT :: string
  Disclosures :: "string list"
  KBJWT :: string

text \<open>\<open>(*Token).String\<close>, \<open>Prefix\<close> and \<open>HasKeyBinding\<close>.\<close>

definition String :: "token \<Rightarrow> string" where
  "String t = join tilde (IssuerJWT t # Disclosures t @ [KBJWT t])"

definition Prefix :: "token \<Rightarrow> string" where
  "Prefix t = join tilde (IssuerJWT t # Disclosures t) @ [tilde]"

definition HasKeyBinding :: "token \<Rightarrow> bool" where
  "HasKeyBinding t \<longleftrightarrow> KBJWT t \<noteq> []"

text \<open>The loop over the middle segments: an empty one is an error, the others are kept.\<close>

fun keep_segments :: "string list \<Rightarrow> string list \<Rightarrow> goerr + string list" where
  "keep_segments acc [] = Inr acc"
| "keep_segments acc (d # ds) =
     (if d = [] then Inl (Sentinel ErrInvalidFormat) else keep_segments (acc @ [d]) ds)"

definition Parse :: "string \<Rightarrow> goerr + token" where
  "Parse raw =
     (if raw = [] then Inl (Sentinel ErrInvalidFormat)
      else let parts = split tilde raw in
        if length parts < 2 then Inl (Sentinel ErrInvalidFormat)
        else let issuerJWT = parts ! 0 in
          if issuerJWT = [] then Inl (Sentinel ErrInvalidFormat)
          else let last_part = parts ! (length parts - 1);
                   middle = take (length parts - 2) (drop 1 parts) in
            res_bind (keep_segments [] middle)
              (\<lambda>ds. Inr \<lparr>IssuerJWT = issuerJWT, Disclosures = ds, KBJWT = last_part\<rparr>))"

section \<open>Well-formed tokens\<close>

text \<open>The tokens that have a text: no separator inside a segment, no empty segment but the last.\<close>

definition wf_token :: "token \<Rightarrow> bool" where
  "wf_token t \<longleftrightarrow>
     IssuerJWT t \<noteq> [] \<and> tilde \<notin> set (IssuerJWT t) \<and> tilde \<notin> set (KBJWT t)
     \<and> list_all (\<lambda>d. d \<noteq> [] \<and> tilde \<notin> set d) (Disclosures t)"

lemma keep_segments_Inr: "keep_segments acc ds = Inr r \<longleftrightarrow> [] \<notin> set ds \<and> r = acc @ ds"
  by (induction ds arbitrary: acc) auto

lemma keep_segments_Inl: "keep_segments acc ds = Inl e \<longleftrightarrow> [] \<in> set ds \<and> e = Sentinel ErrInvalidFormat"
  by (induction ds arbitrary: acc) auto

lemma Parse_err: "Parse raw = Inl e \<Longrightarrow> e = Sentinel ErrInvalidFormat"
  by (auto simp: Parse_def Let_def res_bind_Inl_iff keep_segments_Inl split: if_splits)

lemma split_three_pieces:
  assumes "2 \<le> length ps"
  shows "ps = ps ! 0 # take (length ps - 2) (drop 1 ps) @ [ps ! (length ps - 1)]"
proof -
  obtain a b l where "ps = a # b # l" using assms by (auto simp: numeral_2_eq_2 Suc_le_length_iff)
  then obtain r where ps: "ps = a # r" and r: "r \<noteq> []" by blast
  then obtain m l where "r = m @ [l]" by (metis rev_exhaust)
  then show ?thesis using ps by simp
qed

text \<open>A token comes out of \<open>Parse\<close> exactly when it is well formed and the input is its text.\<close>

lemma Parse_iff: "Parse raw = Inr t \<longleftrightarrow> wf_token t \<and> String t = raw"
proof
  assume P: "Parse raw = Inr t"
  let ?ps = "split tilde raw"
  have len: "2 \<le> length ?ps" and iss: "?ps ! 0 \<noteq> []"
    and mid: "[] \<notin> set (take (length ?ps - 2) (drop 1 ?ps))"
    and t: "t = \<lparr>IssuerJWT = ?ps ! 0, Disclosures = take (length ?ps - 2) (drop 1 ?ps),
      KBJWT = ?ps ! (length ?ps - 1)\<rparr>"
    using P by (auto simp: Parse_def Let_def res_bind_Inr_iff keep_segments_Inr split: if_splits)
  have "String t = raw"
    using split_three_pieces [OF len] by (simp add: t String_def join_split)
  moreover have "tilde \<notin> set p" if "p \<in> set ?ps" for p
    using that by (rule split_parts_no_sep)
  then have "wf_token t"
    using len iss mid unfolding t wf_token_def list_all_iff
    by (auto dest: in_set_takeD in_set_dropD)
  ultimately show "wf_token t \<and> String t = raw" by simp
next
  assume "wf_token t \<and> String t = raw"
  then have wf: "wf_token t" and raw: "raw = String t" by auto
  have ps: "split tilde raw = IssuerJWT t # Disclosures t @ [KBJWT t]"
    unfolding raw String_def by (rule split_join) (use wf in \<open>auto simp: wf_token_def list_all_iff\<close>)
  have "raw \<noteq> []" using ps wf by (auto simp: wf_token_def)
  then show "Parse raw = Inr t"
    using ps wf
    by (auto simp: Parse_def Let_def res_bind_Inr_iff keep_segments_Inr nth_append wf_token_def
        list_all_iff)
qed

definition parse_option :: "string \<Rightarrow> token option" where
  "parse_option raw = (case Parse raw of Inl _ \<Rightarrow> None | Inr t \<Rightarrow> Some t)"

interpretation wire: exact_codec String parse_option wf_token
proof
  fix t assume "wf_token t"
  then have "Parse (String t) = Inr t" by (simp add: Parse_iff)
  then show "parse_option (String t) = Some t" by (simp add: parse_option_def)
qed

lemma String_Prefix: "String t = Prefix t @ KBJWT t"
proof -
  have "join s (ps @ [q]) = join s ps @ s # q" if "ps \<noteq> []" for s :: char and ps q
    using that by (induction s ps rule: join.induct) (auto simp: join_Cons)
  then show ?thesis by (simp add: String_def Prefix_def flip: append_Cons)
qed

lemma Prefix_String: "Prefix t = String (t\<lparr>KBJWT := []\<rparr>)"
  by (simp add: String_Prefix Prefix_def)

text \<open>The prefix determines everything of the token but its KB-JWT.\<close>

lemma Prefix_inj:
  assumes "wf_token t" "wf_token u" "Prefix t = Prefix u"
  shows "IssuerJWT t = IssuerJWT u \<and> Disclosures t = Disclosures u"
proof -
  have "t\<lparr>KBJWT := []\<rparr> = u\<lparr>KBJWT := []\<rparr>"
    using assms wire.enc_inj [of "t\<lparr>KBJWT := []\<rparr>" "u\<lparr>KBJWT := []\<rparr>"]
    by (auto simp: Prefix_String wf_token_def)
  then show ?thesis by (metis token.surjective token.update_convs(3) token.ext_inject)
qed

section \<open>Properties\<close>

text \<open>
  C27: parsing and printing presentations are inverse: \<open>Parse\<close> returns a token exactly when the token
  is well formed and the input is its text, and reports every other input as a format error. This includes
  the text of a token without KB-JWT followed by one more tilde, which the tests of the program present
  and expect to be parsed.
\<close>
theorem parse_string_roundtrip:
  "(Parse raw = Inr t \<longleftrightarrow> wf_token t \<and> String t = raw)
    \<and> ((\<exists>u. wf_token u \<and> String u = raw) \<or> Parse raw = Inl (Sentinel ErrInvalidFormat))"
proof -
  have "(\<exists>u. wf_token u \<and> String u = raw) \<or> Parse raw = Inl (Sentinel ErrInvalidFormat)"
    by (cases "Parse raw") (use Parse_err Parse_iff in blast)+
  then show ?thesis using Parse_iff by blast
qed

text \<open>
  C28: the text of a presentation is the prefix hashed by key binding followed by the KB-JWT, and two
  well-formed presentations have the same prefix exactly when they carry the same issuer JWT and the
  same disclosures in the same order.
\<close>
theorem prefix_determines_disclosures:
  assumes "wf_token t" and "wf_token u"
  shows "String t = Prefix t @ KBJWT t
    \<and> (Prefix t = Prefix u \<longleftrightarrow> IssuerJWT t = IssuerJWT u \<and> Disclosures t = Disclosures u)"
  using Prefix_inj [OF assms] by (auto simp: String_Prefix) (simp add: Prefix_def)

theorem prefix_determines_disclosures_witness:
  "let t = \<lparr>IssuerJWT = ''a.b.c'', Disclosures = [''d'', ''e''], KBJWT = ''k''\<rparr>;
       u = \<lparr>IssuerJWT = ''a.b.c'', Disclosures = [''e''], KBJWT = []\<rparr> in
   String t = Prefix t @ KBJWT t \<and> Prefix t \<noteq> Prefix u"
  using prefix_determines_disclosures
    [of "\<lparr>IssuerJWT = ''a.b.c'', Disclosures = [''d'', ''e''], KBJWT = ''k''\<rparr>"
        "\<lparr>IssuerJWT = ''a.b.c'', Disclosures = [''e''], KBJWT = []\<rparr>"]
  by (simp add: wf_token_def tilde_def)

end
