(* ===== verification/Go_Time.thy ===== *)
theory Go_Time
  imports Go_Bytes "HOL-Library.Signed_Division"
begin

text \<open>
  Go's \<open>time.Time\<close> without a monotonic reading, which is what \<open>time.Now().UTC()\<close>,
  \<open>time.Unix\<close> and their sums are: signed 64-bit seconds since year 1 and nanoseconds in
  \<open>[0, 10^9)\<close>. \<open>Add\<close> saturates the seconds, \<open>Unix\<close> wraps them; a \<open>Duration\<close> is signed 64-bit
  nanoseconds.
\<close>

datatype gtime = Time (tsec: int) (tnsec: int)

definition unix_to_internal :: int where
  "unix_to_internal = 62135596800"

definition wf_time :: "gtime \<Rightarrow> bool" where
  "wf_time t \<longleftrightarrow> int64_range (tsec t) \<and> 0 \<le> tnsec t \<and> tnsec t < 1000000000"

text \<open>\<open>time.Unix(sec, 0)\<close> and \<open>t.Unix()\<close>.\<close>

definition time_unix :: "int \<Rightarrow> gtime" where
  "time_unix s = Time (wrap64 (s + unix_to_internal)) 0"

definition unix_of :: "gtime \<Rightarrow> int" where
  "unix_of t = wrap64 (tsec t - unix_to_internal)"

definition is_zero_time :: "gtime \<Rightarrow> bool" where
  "is_zero_time t \<longleftrightarrow> tsec t = 0 \<and> tnsec t = 0"

text \<open>\<open>t.addSec(d)\<close>: on overflow the seconds saturate.\<close>

definition add_sec :: "int \<Rightarrow> int \<Rightarrow> int" where
  "add_sec s d =
     (let sum = wrap64 (s + d) in
      if (sum > s) = (d > 0) then sum
      else if d > 0 then 2 ^ 63 - 1 else - (2 ^ 63 - 1))"

text \<open>\<open>t.Add(d)\<close>: Go divides the duration with truncation towards zero.\<close>

definition time_add :: "gtime \<Rightarrow> int \<Rightarrow> gtime" where
  "time_add t d =
     (let dsec = d sdiv 1000000000;
          nsec = tnsec t + d smod 1000000000 in
      if nsec \<ge> 1000000000 then Time (add_sec (tsec t) (dsec + 1)) (nsec - 1000000000)
      else if nsec < 0 then Time (add_sec (tsec t) (dsec - 1)) (nsec + 1000000000)
      else Time (add_sec (tsec t) dsec) nsec)"

text \<open>\<open>After\<close> and \<open>Before\<close> compare seconds, then nanoseconds: the type's linear order.\<close>

instantiation gtime :: linorder
begin

definition less_eq_gtime :: "gtime \<Rightarrow> gtime \<Rightarrow> bool" where
  "less_eq_gtime t u \<longleftrightarrow> tsec t < tsec u \<or> tsec t = tsec u \<and> tnsec t \<le> tnsec u"

definition less_gtime :: "gtime \<Rightarrow> gtime \<Rightarrow> bool" where
  "less_gtime t u \<longleftrightarrow> tsec t < tsec u \<or> tsec t = tsec u \<and> tnsec t < tnsec u"

instance
  by standard (auto simp: less_eq_gtime_def less_gtime_def gtime.expand)

end

definition time_after :: "gtime \<Rightarrow> gtime \<Rightarrow> bool" where
  "time_after t u \<longleftrightarrow> u < t"

definition time_before :: "gtime \<Rightarrow> gtime \<Rightarrow> bool" where
  "time_before t u \<longleftrightarrow> t < u"

section \<open>The instant a time stands for\<close>

text \<open>Away from the ends of the 64-bit range, \<open>Add\<close> is addition of nanoseconds.\<close>

definition nanos :: "gtime \<Rightarrow> int" where
  "nanos t = tsec t * 1000000000 + tnsec t"

lemma less_by_nanos:
  assumes "0 \<le> tnsec t" "tnsec t < 1000000000" "0 \<le> tnsec u" "tnsec u < 1000000000"
  shows "t < u \<longleftrightarrow> nanos t < nanos u"
  using assms unfolding less_gtime_def nanos_def by linarith

lemma add_sec_exact: "int64_range s \<Longrightarrow> int64_range (s + d) \<Longrightarrow> add_sec s d = s + d"
  by (simp add: add_sec_def wrap64_id)

lemma sdiv_smod_billion:
  fixes d :: int
  shows "d sdiv 1000000000 * 1000000000 + d smod 1000000000 = d"
    and "- 1000000000 < d smod 1000000000" and "d smod 1000000000 < 1000000000"
proof -
  show "d sdiv 1000000000 * 1000000000 + d smod 1000000000 = d"
    by (rule sdiv_mult_smod_eq)
  show "- 1000000000 < d smod 1000000000" "d smod 1000000000 < 1000000000"
    by (auto simp: signed_modulo_int_def sgn_if)
qed

lemma add_sec_range [simp]: "int64_range (add_sec s d)"
  by (auto simp: add_sec_def Let_def) (auto simp: int64_range_def)

lemma wf_time_add: "wf_time t \<Longrightarrow> wf_time (time_add t d)"
  using sdiv_smod_billion [of d] by (auto simp: time_add_def Let_def wf_time_def)

lemma time_add_nanos:
  assumes "wf_time t" and "int64_range (tsec t + d sdiv 1000000000 - 1)"
    and "int64_range (tsec t + d sdiv 1000000000 + 1)"
  shows "nanos (time_add t d) = nanos t + d"
proof -
  let ?q = "d sdiv 1000000000"
  have t: "int64_range (tsec t)" using assms(1) by (simp add: wf_time_def)
  have ok: "int64_range (tsec t + ?q)" using assms(2,3) by (auto simp: int64_range_def)
  have ex: "add_sec (tsec t) (?q + 1) = tsec t + ?q + 1"
    "add_sec (tsec t) (?q - 1) = tsec t + ?q - 1" "add_sec (tsec t) ?q = tsec t + ?q"
    using add_sec_exact [OF t, of "?q + 1"] add_sec_exact [OF t, of "?q - 1"]
      add_sec_exact [OF t ok] assms(2,3) by (simp_all add: algebra_simps)
  show ?thesis
    unfolding time_add_def Let_def nanos_def using sdiv_smod_billion(1) [of d] by (auto simp: ex)
qed

lemma unix_of_time_unix: "int64_range s \<Longrightarrow> unix_of (time_unix s) = s"
proof -
  assume s: "int64_range s"
  have "\<exists>k. wrap64 (s + unix_to_internal) = s + unix_to_internal + k * 2 ^ 64"
    by (simp add: wrap64_def minus_mod_eq_mult_div [symmetric])
       (rule exI [of _ "- ((s + unix_to_internal + 2 ^ 63) div 2 ^ 64)"],
         simp add: minus_div_mult_eq_mod [symmetric])
  then obtain k where k: "wrap64 (s + unix_to_internal) = s + unix_to_internal + k * 2 ^ 64"
    by blast
  have "unix_of (time_unix s) = wrap64 (s + k * 2 ^ 64)"
    by (simp add: unix_of_def time_unix_def k)
  also have "\<dots> = s" using s by (simp only: wrap64_shift wrap64_id)
  finally show ?thesis .
qed

end
