(* ===== verification/Issuer.thy ===== *)
theory Issuer
  imports Jwt Token Go_Time
begin

text \<open>
  \<open>issuer.go\<close>: the issuer's configuration, \<open>buildClaimsObject\<close> and \<open>Issue\<close>.

  A claims map is an association list; its order is the order in which the \<open>range\<close> statements of
  this run visit it. \<open>buildClaimsObject\<close> appends to the caller's disclosure list and draws
  salts, also when it fails in the middle: both are in the state it threads.
\<close>

section \<open>Configuration\<close>

record issuer_config =
  hashAlg :: hash
  decoyCount :: int
  schemaURI :: string
  tokenTTL :: int
  extraHeaders :: gmap

type_synonym issuer_option = "issuer_config \<Rightarrow> issuer_config"

record issuer =
  issuer_id :: string
  issuer_signer :: signer
  opts :: issuer_config

definition WithHashAlgorithm :: "hash \<Rightarrow> issuer_option" where
  "WithHashAlgorithm h c = c\<lparr>hashAlg := h\<rparr>"

definition WithDecoyDigests :: "int \<Rightarrow> issuer_option" where
  "WithDecoyDigests n c = c\<lparr>decoyCount := n\<rparr>"

definition WithSchemaURI :: "string \<Rightarrow> issuer_option" where
  "WithSchemaURI uri c = c\<lparr>schemaURI := uri\<rparr>"

definition WithTokenTTL :: "int \<Rightarrow> issuer_option" where
  "WithTokenTTL d c = c\<lparr>tokenTTL := d\<rparr>"

definition hour :: int where "hour = 3600000000000"

definition default_issuer_config :: issuer_config where
  "default_issuer_config =
     \<lparr>hashAlg = SHA256, decoyCount = 0, schemaURI = [], tokenTTL = 90 * 24 * hour, extraHeaders = []\<rparr>"

definition NewIssuer :: "string \<Rightarrow> signer \<Rightarrow> issuer_option list \<Rightarrow> issuer" where
  "NewIssuer issuerID sg os =
     \<lparr>issuer_id = issuerID, issuer_signer = sg, opts = foldl (\<lambda>c f. f c) default_issuer_config os\<rparr>"

definition maxNestingDepth :: nat where "maxNestingDepth = 16"

record issue_request =
  VCT :: string
  Subject :: string
  Claims :: gmap
  SelectiveFields :: "string list"
  HolderKey :: "pubkey option"
  NotBefore :: gtime
  ExpiresAt :: gtime

definition Structured :: "gmap \<Rightarrow> string list \<Rightarrow> gval" where
  "Structured flds selectiveFields = GStruct flds selectiveFields"

section \<open>Building the claims object\<close>

record issue_state =
  allDisclosures :: "string list"
  draws :: nat

text \<open>
  The statements the three cases of the type switch share: a fresh disclosure, its digest, and
  the encoded form appended to the disclosures of the token.
\<close>

definition disclose ::
  "crypto \<Rightarrow> rng \<Rightarrow> hash \<Rightarrow> string \<Rightarrow> gval \<Rightarrow> issue_state \<Rightarrow> (goerr + string) \<times> issue_state" where
  "disclose C R h k v st =
     (case NewDisclosure R k v (draws st) of
        (Inl e, j) \<Rightarrow> (Inl e, st\<lparr>draws := j\<rparr>)
      | (Inr d, j) \<Rightarrow>
        (case Disclosure_Digest C h d of
           Inl e \<Rightarrow> (Inl e, st\<lparr>draws := j\<rparr>)
         | Inr (encoded, digest) \<Rightarrow>
             (Inr digest, st\<lparr>allDisclosures := allDisclosures st @ [encoded], draws := j\<rparr>)))"

definition structured_error :: "string \<Rightarrow> goerr \<Rightarrow> goerr" where
  "structured_error k e = Errorf [Txt ''sdjwt: structured claim '', Quot k, Txt '': '', Wrapped e]"

text \<open>
  \<open>claims_loop\<close> is the \<open>range\<close> loop with its locals \<open>obj\<close> and \<open>sdDigests\<close>. A \<open>[]any\<close> is handled
  like every other plain value, as in the source.
\<close>

fun buildClaimsObject ::
  "crypto \<Rightarrow> rng \<Rightarrow> hash \<Rightarrow> gmap \<Rightarrow> string list \<Rightarrow> issue_state \<Rightarrow> nat
     \<Rightarrow> (goerr + gmap) \<times> issue_state"
and claims_loop ::
  "crypto \<Rightarrow> rng \<Rightarrow> hash \<Rightarrow> gmap \<Rightarrow> string list \<Rightarrow> issue_state \<Rightarrow> nat \<Rightarrow> gmap \<Rightarrow> string list
     \<Rightarrow> (goerr + (gmap \<times> string list)) \<times> issue_state" where
  "buildClaimsObject C R h claims sel st depth =
     (if depth > maxNestingDepth then (Inl (Sentinel ErrNestingTooDeep), st)
      else
        (case claims_loop C R h claims sel st depth [] [] of
           (Inl e, st') \<Rightarrow> (Inl e, st')
         | (Inr (obj, sdDigests), st') \<Rightarrow>
             (Inr (if length sdDigests > 0 then AList.update ''_sd'' (GStrings sdDigests) obj else obj),
              st')))"
| "claims_loop C R h [] sel st depth obj sdDigests = (Inr (obj, sdDigests), st)"
| "claims_loop C R h ((k, GStruct flds fsel) # r) sel st depth obj sdDigests =
     (case buildClaimsObject C R h flds fsel st (depth + 1) of
        (Inl e, st') \<Rightarrow> (Inl (structured_error k e), st')
      | (Inr nested, st') \<Rightarrow>
        if k \<in> set sel then
          (case disclose C R h k (GMap nested) st' of
             (Inl e, st'') \<Rightarrow> (Inl e, st'')
           | (Inr digest, st'') \<Rightarrow> claims_loop C R h r sel st'' depth obj (sdDigests @ [digest]))
        else claims_loop C R h r sel st' depth (AList.update k (GMap nested) obj) sdDigests)"
| "claims_loop C R h ((k, v) # r) sel st depth obj sdDigests =
     (if k \<in> set sel then
        (case disclose C R h k v st of
           (Inl e, st') \<Rightarrow> (Inl e, st')
         | (Inr digest, st') \<Rightarrow> claims_loop C R h r sel st' depth obj (sdDigests @ [digest]))
      else claims_loop C R h r sel st depth (AList.update k v obj) sdDigests)"

section \<open>Issue\<close>

text \<open>\<open>for range decoyCount\<close>: that many more random strings, in no relation to any disclosure.\<close>

fun add_decoys :: "rng \<Rightarrow> nat \<Rightarrow> string list \<Rightarrow> nat \<Rightarrow> (goerr + string list) \<times> nat" where
  "add_decoys R 0 existing i = (Inr existing, i)"
| "add_decoys R (Suc n) existing i =
     (case randomSalt R 32 i of
        (Inl e, j) \<Rightarrow> (Inl (Errorf [Txt ''sdjwt: generating decoy digest: '', Wrapped e]), j)
      | (Inr decoy, j) \<Rightarrow> add_decoys R n (existing @ [decoy]) j)"

definition with_decoys :: "rng \<Rightarrow> int \<Rightarrow> gmap \<Rightarrow> nat \<Rightarrow> (goerr + gmap) \<times> nat" where
  "with_decoys R n payload i =
     (if n > 0 then
        (let existing = (case as_strings (map_of payload ''_sd'') of None \<Rightarrow> [] | Some ss \<Rightarrow> ss) in
         case add_decoys R (nat n) existing i of
           (Inl e, j) \<Rightarrow> (Inl e, j)
         | (Inr ss, j) \<Rightarrow> (Inr (AList.update ''_sd'' (GStrings ss) payload), j))
      else (Inr payload, i))"

text \<open>The registered claims, in the order of the assignments.\<close>

definition registered ::
  "issuer \<Rightarrow> issue_request \<Rightarrow> gtime \<Rightarrow> string \<Rightarrow> gmap \<Rightarrow> gmap" where
  "registered I req now sdAlg payload =
     (let nbf = if is_zero_time (NotBefore req) then now else NotBefore req;
          exp = if is_zero_time (ExpiresAt req) then time_add now (tokenTTL (opts I))
                else ExpiresAt req;
          p1 = assign_all payload
            [(''iss'', GString (issuer_id I)), (''iat'', GInt (unix_of now)), (''nbf'', GInt (unix_of nbf)),
             (''exp'', GInt (unix_of exp)), (''vct'', GString (VCT req)),
             (''_sd_alg'', GString sdAlg)];
          p2 = if Subject req \<noteq> [] then AList.update ''sub'' (GString (Subject req)) p1 else p1 in
      if schemaURI (opts I) \<noteq> []
      then AList.update ''vct#integrity'' (GString (schemaURI (opts I))) p2 else p2)"

definition add_cnf :: "pubkey option \<Rightarrow> gmap \<Rightarrow> goerr + gmap" where
  "add_cnf key payload =
     (case key of
        None \<Rightarrow> Inr payload
      | Some pub \<Rightarrow>
          res_bind (map_err (\<lambda>e. Errorf [Txt ''sdjwt: building cnf claim: '', Wrapped e]) (buildCnf pub))
            (\<lambda>cnf. Inr (AList.update ''cnf'' (GMap cnf) payload)))"

definition drop_empty_sd :: "gmap \<Rightarrow> gmap" where
  "drop_empty_sd payload =
     (if as_strings (map_of payload ''_sd'') = Some [] then AList.delete ''_sd'' payload else payload)"

text \<open>The payload of the issuer JWT, from the finished claims object.\<close>

definition issuer_payload ::
  "issuer \<Rightarrow> issue_request \<Rightarrow> gtime \<Rightarrow> string \<Rightarrow> gmap \<Rightarrow> goerr + gmap" where
  "issuer_payload I req now sdAlg payload =
     res_bind (add_cnf (HolderKey req) (registered I req now sdAlg payload))
       (\<lambda>p. Inr (drop_empty_sd p))"

fun first_missing :: "gmap \<Rightarrow> string list \<Rightarrow> string option" where
  "first_missing claims [] = None"
| "first_missing claims (f # fs) =
     (if map_of claims f = None then Some f else first_missing claims fs)"

definition Issue ::
  "crypto \<Rightarrow> rng \<Rightarrow> gtime \<Rightarrow> issuer \<Rightarrow> issue_request \<Rightarrow> nat \<Rightarrow> (goerr + token) \<times> nat" where
  "Issue C R now I req i =
     (if VCT req = [] then (Inl (Errorf [Txt ''sdjwt: IssueRequest.VCT is required'']), i)
      else (case SDAlgFromHash (hashAlg (opts I)) of
        Inl e \<Rightarrow> (Inl (Errorf [Txt ''sdjwt: '', Wrapped e]), i)
      | Inr sdAlg \<Rightarrow>
     (case first_missing (Claims req) (SelectiveFields req) of
        Some f \<Rightarrow>
          (Inl (Errorf [Wrapped (Sentinel ErrSelectiveFieldNotFound), Txt '': '', Quot f]), i)
      | None \<Rightarrow>
     (case buildClaimsObject C R (hashAlg (opts I)) (Claims req) (SelectiveFields req)
             \<lparr>allDisclosures = [], draws = i\<rparr> 0 of
        (Inl e, st) \<Rightarrow> (Inl e, draws st)
      | (Inr obj, st) \<Rightarrow>
     (case with_decoys R (decoyCount (opts I)) obj (draws st) of
        (Inl e, j) \<Rightarrow> (Inl e, j)
      | (Inr payload, j) \<Rightarrow>
         (res_bind (issuer_payload I req now sdAlg payload)
           (\<lambda>p. res_bind (map_err (\<lambda>e. Errorf [Txt ''sdjwt: signing issuer JWT: '', Wrapped e])
                            (signJWT (issuer_signer I) p))
           (\<lambda>jwt. Inr \<lparr>IssuerJWT = jwt, Disclosures = allDisclosures st, KBJWT = []\<rparr>)), j))))))"

section \<open>The shape of a claims object\<close>

definition is_struct :: "gval \<Rightarrow> bool" where
  "is_struct v \<longleftrightarrow> (\<exists>fs sel. v = GStruct fs sel)"

lemma claims_loop_plain:
  "\<not> is_struct v \<Longrightarrow> claims_loop C R h ((k, v) # r) sel st d obj sd =
     (if k \<in> set sel then
        (case disclose C R h k v st of
           (Inl e, st') \<Rightarrow> (Inl e, st')
         | (Inr digest, st') \<Rightarrow> claims_loop C R h r sel st' d obj (sd @ [digest]))
      else claims_loop C R h r sel st d (AList.update k v obj) sd)"
  by (cases v) (auto simp: is_struct_def)

text \<open>The three ways one step of the loop goes on when it does not fail.\<close>

lemma claims_loop_step:
  assumes "claims_loop C R h ((k, v) # r) sel st d obj sd = (Inr out, st')"
  obtains (clear) "\<not> is_struct v" "k \<notin> set sel"
      "claims_loop C R h r sel st d (AList.update k v obj) sd = (Inr out, st')"
  | (hidden) w st1 st2 digest where "k \<in> set sel" "\<not> is_struct v \<Longrightarrow> w = v \<and> st1 = st"
      "\<And>fs fsel. v = GStruct fs fsel \<Longrightarrow> \<exists>nested. w = GMap nested
         \<and> buildClaimsObject C R h fs fsel st (d + 1) = (Inr nested, st1)"
      "disclose C R h k w st1 = (Inr digest, st2)"
      "claims_loop C R h r sel st2 d obj (sd @ [digest]) = (Inr out, st')"
  | (nested) fs fsel nested st1 where "v = GStruct fs fsel" "k \<notin> set sel"
      "buildClaimsObject C R h fs fsel st (d + 1) = (Inr nested, st1)"
      "claims_loop C R h r sel st1 d (AList.update k (GMap nested) obj) sd = (Inr out, st')"
proof (cases "is_struct v")
  case True
  then obtain fs fsel where v: "v = GStruct fs fsel" by (auto simp: is_struct_def)
  obtain nested st1 where b: "buildClaimsObject C R h fs fsel st (d + 1) = (Inr nested, st1)"
    using assms unfolding v by (auto simp del: buildClaimsObject.simps split: prod.splits sum.splits)
  show ?thesis
  proof (cases "k \<in> set sel")
    case True
    then obtain digest st2 where "disclose C R h k (GMap nested) st1 = (Inr digest, st2)"
      "claims_loop C R h r sel st2 d obj (sd @ [digest]) = (Inr out, st')"
      using assms b unfolding v
      by (auto simp del: buildClaimsObject.simps split: prod.splits sum.splits)
    then show ?thesis using hidden [of "GMap nested" st1 digest st2] True b v by (auto simp: is_struct_def)
  next
    case False
    then show ?thesis
      using nested [OF v False b] assms b unfolding v by (simp del: buildClaimsObject.simps)
  qed
next
  case False
  show ?thesis
  proof (cases "k \<in> set sel")
    case True
    then obtain digest st2 where "disclose C R h k v st = (Inr digest, st2)"
      "claims_loop C R h r sel st2 d obj (sd @ [digest]) = (Inr out, st')"
      using assms claims_loop_plain [OF False, of C R h k r sel st d obj sd]
      by (auto split: prod.splits sum.splits)
    then show ?thesis using hidden [of v st digest st2] True False by (auto simp: is_struct_def)
  next
    case k: False
    then show ?thesis using assms clear claims_loop_plain [OF False] False by simp
  qed
qed

lemma claims_loop_shape:
  "claims_loop C R h claims sel st d obj sd = (Inr (obj', sd'), st') \<Longrightarrow>
     distinct (map fst claims) \<Longrightarrow> keys obj \<inter> keys claims = {} \<Longrightarrow>
     \<exists>extra. obj' = obj @ extra \<and> map fst extra = filter (\<lambda>k. k \<notin> set sel) (map fst claims)
       \<and> (\<forall>(k, v) \<in> set claims. k \<notin> set sel \<longrightarrow> \<not> is_struct v \<longrightarrow> (k, v) \<in> set extra)
       \<and> length sd' = length sd + length (filter (\<lambda>k. k \<in> set sel) (map fst claims))"
proof (induction claims arbitrary: st obj sd)
  case (Cons kv r)
  obtain k v where kv: "kv = (k, v)" by (cases kv)
  have k: "k \<notin> keys obj" "k \<notin> keys r" using Cons.prems(2,3) kv by (auto simp: keys_def)
  have r: "distinct (map fst r)" using Cons.prems(2) by simp
  from Cons.prems(1) [unfolded kv] show ?case
  proof (cases rule: claims_loop_step)
    case clear
    then show ?thesis
      using Cons.IH [of st "obj @ [(k, v)]" sd] Cons.prems(3) r k kv by (auto simp: update_new)
  next
    case (hidden w st1 st2 digest)
    then show ?thesis
      using Cons.IH [OF hidden(5) r] Cons.prems(3) kv by (auto simp: is_struct_def)
  next
    case (nested fs fsel nested st1)
    then show ?thesis
      using Cons.IH [of st1 "obj @ [(k, GMap nested)]" sd] Cons.prems(3) r k kv
      by (auto simp: update_new is_struct_def)
  qed
qed auto

lemma buildClaimsObject_loop:
  assumes "buildClaimsObject C R h claims sel st d = (Inr obj, st')"
  obtains base digests where "claims_loop C R h claims sel st d [] [] = (Inr (base, digests), st')"
    "obj = (if digests \<noteq> [] then AList.update ''_sd'' (GStrings digests) base else base)"
    "d \<le> maxNestingDepth"
  using assms by (auto split: if_splits prod.splits sum.splits)

text \<open>
  C21: what goes into the object in clear: no claim named as selective, every other plain claim with its
  value, nothing that is not a claim, and one digest in \<open>_sd\<close> for every selective claim.
\<close>
theorem selective_claims_are_hidden:
  assumes "buildClaimsObject C R h claims sel st d = (Inr obj, st')" and "distinct (map fst claims)"
    and "''_sd'' \<notin> keys claims"
  shows "(\<forall>k. k \<in> set sel \<longrightarrow> map_of obj k = None \<or> k = ''_sd'')
    \<and> (\<forall>k v. map_of claims k = Some v \<longrightarrow> k \<notin> set sel \<longrightarrow> \<not> is_struct v \<longrightarrow> map_of obj k = Some v)
    \<and> keys obj \<subseteq> insert ''_sd'' (keys claims)
    \<and> (\<exists>digests. length digests = length (filter (\<lambda>k. k \<in> set sel) (map fst claims))
         \<and> map_of obj ''_sd'' = (if digests = [] then None else Some (GStrings digests)))"
proof -
  obtain base digests where loop: "claims_loop C R h claims sel st d [] [] = (Inr (base, digests), st')"
    and obj: "obj = (if digests \<noteq> [] then AList.update ''_sd'' (GStrings digests) base else base)"
    using assms(1) by (rule buildClaimsObject_loop)
  have base: "map fst base = filter (\<lambda>k. k \<notin> set sel) (map fst claims)"
    and clear: "\<forall>(k, v) \<in> set claims. k \<notin> set sel \<longrightarrow> \<not> is_struct v \<longrightarrow> (k, v) \<in> set base"
    and len: "length digests = length (filter (\<lambda>k. k \<in> set sel) (map fst claims))"
    using claims_loop_shape [OF loop assms(2)] by auto
  have keys_base: "k \<in> keys base \<longleftrightarrow> k \<in> keys claims \<and> k \<notin> set sel" for k
    using base unfolding keys_def set_map [symmetric] by (simp only: set_filter) auto
  have "distinct (map fst base)" unfolding base using assms(2) by simp
  then have look: "map_of base k = Some v" if "map_of claims k = Some v" "k \<notin> set sel" "\<not> is_struct v" for k v
    using clear that by (auto dest!: map_of_SomeD)
  have none: "map_of base k = None \<longleftrightarrow> \<not> (k \<in> keys claims \<and> k \<notin> set sel)" for k
    using keys_base keys_iff by metis
  have "''_sd'' \<in> keys claims" if "map_of claims ''_sd'' = Some v" for v
    using that keys_iff by fastforce
  then have "\<forall>k v. map_of claims k = Some v \<longrightarrow> k \<notin> set sel \<longrightarrow> \<not> is_struct v \<longrightarrow> map_of obj k = Some v"
    using look assms(3) by (auto simp: obj)
  moreover have "\<forall>k. k \<in> set sel \<longrightarrow> map_of obj k = None \<or> k = ''_sd''"
    by (auto simp: obj none)
  moreover have "keys obj \<subseteq> insert ''_sd'' (keys claims)"
    using keys_base by (auto simp: obj)
  moreover have "map_of obj ''_sd'' = (if digests = [] then None else Some (GStrings digests))"
    using none [of "''_sd''"] assms(3) by (simp add: obj)
  ultimately show ?thesis using len by blast
qed


section \<open>Nesting\<close>

text \<open>How deep structured claims are nested below a claims map.\<close>

fun struct_depth :: "gmap \<Rightarrow> nat" where
  "struct_depth [] = 0"
| "struct_depth ((k, GStruct fs sel) # r) = max (Suc (struct_depth fs)) (struct_depth r)"
| "struct_depth (_ # r) = struct_depth r"

lemma disclose_err: "disclose C R h k v st = (Inl e, st') \<Longrightarrow> \<not> errors_Is e ErrNestingTooDeep"
  by (auto simp: disclose_def NewDisclosure_def randomSalt_def Disclosure_Digest_def Encode_def
      Digest_def newHash_def salt_error_def res_bind_Inl_iff map_err_Inl_iff
      split: prod.splits sum.splits option.splits if_splits)

lemma structured_error_is [simp]: "errors_Is (structured_error k e) s \<longleftrightarrow> errors_Is e s"
  by (simp add: structured_error_def)

lemma claims_induct [case_names Nil plain struct]:
  assumes "P []" and "\<And>k v r. \<not> is_struct v \<Longrightarrow> P r \<Longrightarrow> P ((k, v) # r)"
    and "\<And>k fs fsel r. P fs \<Longrightarrow> P r \<Longrightarrow> P ((k, GStruct fs fsel) # r)"
  shows "P claims"
  by (induction claims rule: struct_depth.induct) (auto intro: assms simp: is_struct_def)

lemma struct_depth_plain: "\<not> is_struct v \<Longrightarrow> struct_depth ((k, v) # r) = struct_depth r"
  by (cases v) (auto simp: is_struct_def)

lemma loop_depth:
  "claims_loop C R h claims sel st d o1 sd = (Inr out, st') \<Longrightarrow> d \<le> maxNestingDepth \<Longrightarrow>
     d + struct_depth claims \<le> maxNestingDepth"
proof (induction claims arbitrary: sel st d o1 sd out st' rule: claims_induct)
  case (plain k v r)
  from plain.prems(1) show ?case
    by (cases rule: claims_loop_step)
       (use plain struct_depth_plain in \<open>auto simp: is_struct_def\<close>)
next
  case (struct k fs fsel r)
  have inner: "d + struct_depth fs < maxNestingDepth"
    if b: "buildClaimsObject C R h fs fsel st (d + 1) = (Inr nested, st1)" for nested st1
  proof -
    obtain base digests where "claims_loop C R h fs fsel st (d + 1) [] [] = (Inr (base, digests), st1)"
      "d + 1 \<le> maxNestingDepth" using b by (rule buildClaimsObject_loop)
    then show ?thesis using struct.IH(1) by fastforce
  qed
  from struct.prems(1) show ?case
  proof (cases rule: claims_loop_step)
    case (hidden w st1 st2 digest)
    then show ?thesis using inner struct.IH(2) [OF hidden(5) struct.prems(2)] by fastforce
  next
    case (nested fs' fsel' n st1)
    then show ?thesis using inner struct.IH(2) [OF nested(4) struct.prems(2)] by fastforce
  qed (simp add: is_struct_def)
qed simp

lemma claims_loop_fail:
  assumes "claims_loop C R h ((k, v) # r) sel st d obj sd = (Inl e, st')"
  obtains (inner) fs fsel e0 where "v = GStruct fs fsel" "e = structured_error k e0"
      "buildClaimsObject C R h fs fsel st (d + 1) = (Inl e0, st')"
  | (salt) w st1 where "disclose C R h k w st1 = (Inl e, st')"
  | (rest) st1 obj1 sd1 where "claims_loop C R h r sel st1 d obj1 sd1 = (Inl e, st')"
proof (cases "is_struct v")
  case True
  then obtain fs fsel where v: "v = GStruct fs fsel" by (auto simp: is_struct_def)
  obtain x st1 where b: "buildClaimsObject C R h fs fsel st (d + 1) = (x, st1)" by fastforce
  show ?thesis
  proof (cases x)
    case (Inl e0)
    then show ?thesis using inner [OF v] assms b unfolding v by (simp del: buildClaimsObject.simps)
  next
    case (Inr nested)
    then show ?thesis using assms b salt rest unfolding v
      by (cases "k \<in> set sel") (auto simp del: buildClaimsObject.simps split: prod.splits sum.splits)
  qed
next
  case False
  then show ?thesis
    using assms salt rest claims_loop_plain [OF False, of C R h k r sel st d obj sd]
    by (cases "k \<in> set sel") (auto split: prod.splits sum.splits)
qed

lemma buildClaimsObject_fail:
  assumes "buildClaimsObject C R h claims sel st d = (Inl e, st')"
  obtains (deep) "d > maxNestingDepth" "e = Sentinel ErrNestingTooDeep"
  | (loop) "claims_loop C R h claims sel st d [] [] = (Inl e, st')" "d \<le> maxNestingDepth"
  using assms by (auto split: if_splits prod.splits sum.splits)

lemma loop_depth_err:
  "claims_loop C R h claims sel st d o1 sd = (Inl e, st') \<Longrightarrow> errors_Is e ErrNestingTooDeep \<Longrightarrow>
     d + struct_depth claims > maxNestingDepth"
proof (induction claims arbitrary: sel st d o1 sd e st' rule: claims_induct)
  case (plain k v r)
  from plain.prems(1) show ?case
    by (cases rule: claims_loop_fail)
       (use plain struct_depth_plain disclose_err in \<open>fastforce simp: is_struct_def\<close>)+
next
  case (struct k fs fsel r)
  from struct.prems(1) show ?case
  proof (cases rule: claims_loop_fail)
    case (inner fs' fsel' e0)
    then have e0: "errors_Is e0 ErrNestingTooDeep" "fs' = fs" using struct.prems(2) by auto
    from inner(3) have "d + 1 + struct_depth fs > maxNestingDepth"
      by (cases rule: buildClaimsObject_fail) (use struct.IH(1) e0 in fastforce)+
    then show ?thesis by simp
  next
    case (salt w st1)
    then show ?thesis using disclose_err struct.prems(2) by blast
  next
    case (rest st1 obj1 sd1)
    then show ?thesis using struct.IH(2) [OF rest struct.prems(2)] by simp
  qed
qed simp

text \<open>
  C37: the nesting limit of the issuer: the construction of a claims object succeeds only if structured
  claims are nested at most 16 deep below the top, and it reports \<open>ErrNestingTooDeep\<close> only if they are
  nested deeper.
\<close>
theorem nesting_limit:
  "(buildClaimsObject C R h claims sel st 0 = (Inr obj, st') \<longrightarrow> struct_depth claims \<le> 16)
   \<and> (buildClaimsObject C R h claims sel st 0 = (Inl e, st') \<longrightarrow> errors_Is e ErrNestingTooDeep \<longrightarrow>
        struct_depth claims > 16)"
proof (intro conjI impI)
  assume "buildClaimsObject C R h claims sel st 0 = (Inr obj, st')"
  then show "struct_depth claims \<le> 16"
    by (rule buildClaimsObject_loop) (use loop_depth in \<open>fastforce simp: maxNestingDepth_def\<close>)
next
  assume "buildClaimsObject C R h claims sel st 0 = (Inl e, st')" "errors_Is e ErrNestingTooDeep"
  then show "struct_depth claims > 16"
    by (elim buildClaimsObject_fail) (use loop_depth_err in \<open>fastforce simp: maxNestingDepth_def\<close>)+
qed

end
