(* ===== verification/Verifier.thy ===== *)
theory Verifier
  imports Jwt Token Go_Time "HOL-Library.Multiset"
begin

text \<open>
  \<open>verifier.go\<close>: options, \<open>Verify\<close> and \<open>verifyKBJWT\<close>.

  The objects of the decoded issuer payload are mutable maps, and \<open>collectDigests\<close> keeps pointers
  to them. A pointer is modelled as the \<open>path\<close> of keys under which the object was found, and the
  paths whose slot a write has replaced since are remembered: an object below such a slot is no
  longer part of the payload, and a write to it changes nothing that is visible.

  What a call gets from its surroundings is in a \<open>run\<close>: the primitives, the clock, the result of
  converting an out-of-range float to \<open>int64\<close> (which Go leaves to the implementation), and the
  order in which \<open>range\<close> visits a map.
\<close>

section \<open>Configuration\<close>

record verifier_config =
  expectedVCT :: string
  requireKeyBinding :: bool
  audience :: string
  clockSkew :: int

type_synonym verifier_option = "verifier_config \<Rightarrow> verifier_config"
type_synonym key_resolver = "string \<Rightarrow> string \<Rightarrow> goerr + pubkey"

record verifier =
  resolver :: key_resolver
  vopts :: verifier_config

definition RequireKeyBinding :: "string \<Rightarrow> verifier_option" where
  "RequireKeyBinding aud c = c\<lparr>requireKeyBinding := True, audience := aud\<rparr>"

definition ExpectVCT :: "string \<Rightarrow> verifier_option" where
  "ExpectVCT vct c = c\<lparr>expectedVCT := vct\<rparr>"

definition WithClockSkew :: "int \<Rightarrow> verifier_option" where
  "WithClockSkew d c = c\<lparr>clockSkew := d\<rparr>"

definition default_verifier_config :: verifier_config where
  "default_verifier_config =
     \<lparr>expectedVCT = [], requireKeyBinding = False, audience = [], clockSkew = 0\<rparr>"

definition NewVerifier :: "key_resolver \<Rightarrow> verifier_option list \<Rightarrow> verifier" where
  "NewVerifier res os =
     \<lparr>resolver = res, vopts = foldl (\<lambda>c f. f c) default_verifier_config os\<rparr>"

record verification_result =
  IssuerClaims :: gmap
  DisclosedClaims :: gmap
  ResultIssuer :: string
  ResultVCT :: string
  ResultSubject :: string
  KeyBound :: bool

record run =
  prims :: crypto
  clock :: gtime
  out_of_range :: "f64 \<Rightarrow> int"
  range_order :: "gmap \<Rightarrow> gmap"

text \<open>\<open>range\<close> visits every entry of the map exactly once.\<close>

definition fair_run :: "run \<Rightarrow> bool" where
  "fair_run \<rho> \<longleftrightarrow> (\<forall>m. mset (range_order \<rho> m) = mset m)"

definition maxVerifyDepth :: nat where "maxVerifyDepth = 16"

abbreviation at_stage :: "string \<Rightarrow> goerr + 'a \<Rightarrow> goerr + 'a" where
  "at_stage stage r \<equiv> map_err (VerificationError stage) r"

section \<open>Steps 1 to 5: the issuer JWT\<close>

text \<open>Decoding, key resolution and the issuer's signature; the payload and its \<open>iss\<close>.\<close>

definition authenticate :: "run \<Rightarrow> verifier \<Rightarrow> token \<Rightarrow> goerr + (gmap \<times> string)" where
  "authenticate \<rho> v t =
     (case decodeJWT (IssuerJWT t) of
        Inl _ \<Rightarrow> Inl (VerificationError ''issuer_jwt_decode'' (Sentinel ErrInvalidFormat))
      | Inr (issuerHeader, issuerPayload) \<Rightarrow>
        let issuer = string_or_empty (map_of issuerPayload ''iss'') in
        if issuer = [] then
          Inl (VerificationError ''issuer_jwt_decode''
                 (Errorf [Wrapped (Sentinel ErrInvalidFormat), Txt '': missing iss'']))
        else let keyID = string_or_empty (map_of issuerHeader ''kid'');
                 alg = string_or_empty (map_of issuerHeader ''alg'') in
          (case resolver v issuer keyID of
             Inl e \<Rightarrow> Inl (VerificationError ''key_resolution''
                       (Errorf [Wrapped (Sentinel ErrKeyResolutionFailed), Txt '': '', Printed e]))
           | Inr pubKey \<Rightarrow>
             (case verifyJWTSignature (prims \<rho>) (IssuerJWT t) pubKey alg of
                Inl _ \<Rightarrow> Inl (VerificationError ''signature'' (Sentinel ErrSignatureInvalid))
              | Inr _ \<Rightarrow> Inr (issuerPayload, issuer))))"

text \<open>A claim that is no float is not checked.\<close>

definition check_times :: "run \<Rightarrow> int \<Rightarrow> gmap \<Rightarrow> goerr + unit" where
  "check_times \<rho> skew payload =
     (let now = clock \<rho>;
          expired = (case as_float (map_of payload ''exp'') of
              None \<Rightarrow> False
            | Some exp \<Rightarrow>
                time_after now (time_add (time_unix (f64_to_int64 (out_of_range \<rho>) exp)) skew));
          early = (case as_float (map_of payload ''nbf'') of
              None \<Rightarrow> False
            | Some nbf \<Rightarrow>
                time_before now
                  (time_add (time_unix (f64_to_int64 (out_of_range \<rho>) nbf)) (wrap64 (- skew)))) in
      if expired then Inl (VerificationError ''exp'' (Sentinel ErrTokenExpired))
      else if early then Inl (VerificationError ''nbf'' (Sentinel ErrTokenNotYetValid))
      else Inr ())"

definition sd_hash_alg :: "gmap \<Rightarrow> goerr + hash" where
  "sd_hash_alg payload =
     (let s = string_or_empty (map_of payload ''_sd_alg'');
          sdAlgStr = if s = [] then ''sha-256'' else s in
      case AlgorithmFromSDAlg sdAlgStr of
        Inl _ \<Rightarrow> Inl (VerificationError ''sd_alg'' (Sentinel ErrUnsupportedHashAlgorithm))
      | Inr h \<Rightarrow> Inr h)"

section \<open>Step 6: disclosures\<close>

type_synonym path = "string list"
type_synonym digest_map = "(string \<times> path) list"

text \<open>The digests of one object's \<open>_sd\<close> array; entries that are no strings are skipped.\<close>

definition own_digests :: "gmap \<Rightarrow> string list" where
  "own_digests obj =
     (case as_slice (map_of obj ''_sd'') of
        None \<Rightarrow> []
      | Some hs \<Rightarrow> List.map_filter (\<lambda>h. as_string (Some h)) hs)"

function (sequential) collectDigests :: "run \<Rightarrow> path \<Rightarrow> gmap \<Rightarrow> nat \<Rightarrow> goerr + digest_map"
and collect_loop :: "run \<Rightarrow> path \<Rightarrow> gmap \<Rightarrow> nat \<Rightarrow> digest_map \<Rightarrow> goerr + digest_map" where
  "collectDigests \<rho> p obj depth =
     (if depth > maxVerifyDepth then Inl (Sentinel ErrNestingTooDeep)
      else collect_loop \<rho> p (range_order \<rho> obj) depth
             (assign_all [] (map (\<lambda>s. (s, p)) (own_digests obj))))"
| "collect_loop \<rho> p [] depth out = Inr out"
| "collect_loop \<rho> p ((k, GMap nested) # r) depth out =
     (case collectDigests \<rho> (p @ [k]) nested (depth + 1) of
        Inl e \<Rightarrow> Inl e
      | Inr sub \<Rightarrow> collect_loop \<rho> p r depth (assign_all out sub))"
| "collect_loop \<rho> p (_ # r) depth out = collect_loop \<rho> p r depth out"
  by pat_completeness auto
termination
  by (relation "measures
      [\<lambda>x. case x of Inl (_, _, _, d) \<Rightarrow> if d > 16 then 0 else 17 - d
                   | Inr (_, _, _, d, _) \<Rightarrow> 17 - d,
       \<lambda>x. case x of Inl (_, _, _, d) \<Rightarrow> if d > 16 then 0 else 2 | Inr _ \<Rightarrow> 1,
       \<lambda>x. case x of Inl _ \<Rightarrow> 0 | Inr (_, _, r, _, _) \<Rightarrow> length r]")
     (auto simp: maxVerifyDepth_def)

text \<open>Writing into the object at a path of the payload.\<close>

fun update_at :: "path \<Rightarrow> string \<Rightarrow> gval \<Rightarrow> gmap \<Rightarrow> gmap" where
  "update_at [] key v m = AList.update key v m"
| "update_at (k # p) key v m =
     (case map_of m k of
        Some (GMap n) \<Rightarrow> AList.update k (GMap (update_at p key v n)) m
      | _ \<Rightarrow> m)"

fun is_prefix :: "path \<Rightarrow> path \<Rightarrow> bool" where
  "is_prefix [] q = True"
| "is_prefix (a # p) [] = False"
| "is_prefix (a # p) (b # q) = (a = b \<and> is_prefix p q)"

record verify_state =
  issuerPayload :: gmap
  overwritten :: "path list"
  disclosedClaims :: gmap
  seenKeys :: "string list"

text \<open>\<open>loc.container[d.Key] = d.Value\<close>\<close>

definition write_back :: "path \<Rightarrow> string \<Rightarrow> gval \<Rightarrow> verify_state \<Rightarrow> verify_state" where
  "write_back p key v st =
     (if \<exists>q \<in> set (overwritten st). is_prefix q p then st
      else st\<lparr>issuerPayload := update_at p key v (issuerPayload st),
              overwritten := (p @ [key]) # overwritten st\<rparr>)"

definition reveal :: "path \<Rightarrow> disclosure \<Rightarrow> verify_state \<Rightarrow> goerr + verify_state" where
  "reveal p d st =
     (if Key d \<noteq> [] then
        (if Key d \<in> set (seenKeys st) then
           Inl (VerificationError ''disclosure_duplicate''
                  (DisclosureError (Key d) (Sentinel ErrDisclosureDuplicate)))
         else
           (let st1 = write_back p (Key d) (Value d) st in
            Inr (st1\<lparr>seenKeys := Key d # seenKeys st1,
                     disclosedClaims := AList.update (Key d) (Value d) (disclosedClaims st1)\<rparr>)))
      else Inr st)"

definition verify_disclosure ::
  "crypto \<Rightarrow> hash \<Rightarrow> digest_map \<Rightarrow> string \<Rightarrow> verify_state \<Rightarrow> goerr + verify_state" where
  "verify_disclosure C h digestMap enc st =
     res_bind (at_stage ''disclosure_parse'' (ParseDisclosure enc))
       (\<lambda>d. res_bind (at_stage ''disclosure_hash'' (Digest C h enc))
       (\<lambda>digest.
         (case map_of digestMap digest of
            None \<Rightarrow> Inl (VerificationError ''disclosure_hash''
                      (DisclosureError (Key d) (Sentinel ErrDisclosureMismatch)))
          | Some p \<Rightarrow> reveal p d st)))"

fun disclosure_loop ::
  "crypto \<Rightarrow> hash \<Rightarrow> digest_map \<Rightarrow> string list \<Rightarrow> verify_state \<Rightarrow> goerr + verify_state" where
  "disclosure_loop C h digestMap [] st = Inr st"
| "disclosure_loop C h digestMap (enc # encs) st =
     res_bind (verify_disclosure C h digestMap enc st) (disclosure_loop C h digestMap encs)"

section \<open>Step 7: key binding\<close>

text \<open>The type switch over \<open>aud\<close>: a string, an array with a matching string, nothing else.\<close>

definition aud_matches :: "gval option \<Rightarrow> string \<Rightarrow> bool" where
  "aud_matches aud expected =
     (case aud of
        Some (GString s) \<Rightarrow> s = expected
      | Some (GSlice xs) \<Rightarrow> list_ex (\<lambda>a. as_string (Some a) = Some expected) xs
      | _ \<Rightarrow> False)"

definition verifyKBJWT :: "crypto \<Rightarrow> token \<Rightarrow> gval \<Rightarrow> string \<Rightarrow> string \<Rightarrow> goerr + unit" where
  "verifyKBJWT C t holderKey expectedNonce expectedAud =
     (case decodeJWT (KBJWT t) of
        Inl _ \<Rightarrow> Inl (VerificationError ''kbjwt_decode'' (Sentinel ErrKBJWTInvalid))
      | Inr (kbHeader, kbPayload) \<Rightarrow>
     (case jwkToPublicKey holderKey of
        Inl e \<Rightarrow> Inl (VerificationError ''kbjwt_key''
                   (Errorf [Wrapped (Sentinel ErrKBJWTInvalid), Txt '': cnf key: '', Printed e]))
      | Inr pubKey \<Rightarrow>
     (let alg = string_or_empty (map_of kbHeader ''alg'') in
      case verifyJWTSignature C (KBJWT t) pubKey alg of
        Inl _ \<Rightarrow> Inl (VerificationError ''kbjwt_sig'' (Sentinel ErrKBJWTInvalid))
      | Inr _ \<Rightarrow>
        if expectedNonce \<noteq> [] \<and> string_or_empty (map_of kbPayload ''nonce'') \<noteq> expectedNonce then
          Inl (VerificationError ''kbjwt_nonce'' (Sentinel ErrKBJWTNonceMismatch))
        else if expectedAud \<noteq> [] \<and> \<not> aud_matches (map_of kbPayload ''aud'') expectedAud then
          Inl (VerificationError ''kbjwt_aud'' (Sentinel ErrKBJWTAudMismatch))
        else if string_or_empty (map_of kbPayload ''sd_hash'') \<noteq> DigestSHA256 C (Prefix t) then
          Inl (VerificationError ''kbjwt_sd_hash'' (Sentinel ErrKBJWTHashMismatch))
        else Inr ())))"

definition verify_binding ::
  "crypto \<Rightarrow> verifier_config \<Rightarrow> token \<Rightarrow> gmap \<Rightarrow> string \<Rightarrow> goerr + bool" where
  "verify_binding C cfg t payload nonce =
     (if requireKeyBinding cfg \<and> \<not> HasKeyBinding t then
        Inl (VerificationError ''kbjwt'' (Sentinel ErrKBJWTRequired))
      else if HasKeyBinding t then
        (case extractCnf payload of
           Inl _ \<Rightarrow> Inl (VerificationError ''cnf'' (Sentinel ErrCnfMissing))
         | Inr cnf \<Rightarrow>
             res_bind (verifyKBJWT C t (GMap cnf) nonce (audience cfg)) (\<lambda>_. Inr True))
      else Inr False)"

section \<open>Verify\<close>

definition result_of ::
  "verifier_config \<Rightarrow> string \<Rightarrow> verify_state \<Rightarrow> bool \<Rightarrow> goerr + verification_result" where
  "result_of cfg issuer st keyBound =
     (let payload = issuerPayload st; vct = string_or_empty (map_of payload ''vct'') in
      if expectedVCT cfg \<noteq> [] \<and> vct \<noteq> expectedVCT cfg then
        Inl (VerificationError ''vct'' (Sentinel ErrVCTMismatch))
      else
        Inr \<lparr>IssuerClaims = payload, DisclosedClaims = disclosedClaims st, ResultIssuer = issuer,
             ResultVCT = vct, ResultSubject = string_or_empty (map_of payload ''sub''),
             KeyBound = keyBound\<rparr>)"

definition verify_claims ::
  "run \<Rightarrow> token \<Rightarrow> gmap \<Rightarrow> goerr + verify_state" where
  "verify_claims \<rho> t payload =
     res_bind (sd_hash_alg payload)
       (\<lambda>h. res_bind (at_stage ''disclosure_collect'' (collectDigests \<rho> [] payload 0))
       (\<lambda>digestMap.
          disclosure_loop (prims \<rho>) h digestMap (Disclosures t)
            \<lparr>issuerPayload = payload, overwritten = [], disclosedClaims = [], seenKeys = []\<rparr>))"

definition Verify ::
  "run \<Rightarrow> verifier \<Rightarrow> string \<Rightarrow> string \<Rightarrow> goerr + verification_result" where
  "Verify \<rho> v raw nonce =
     res_bind (at_stage ''parse'' (Parse raw))
       (\<lambda>t. res_bind (authenticate \<rho> v t)
       (\<lambda>(payload, issuer). res_bind (check_times \<rho> (clockSkew (vopts v)) payload)
       (\<lambda>_. res_bind (verify_claims \<rho> t payload)
       (\<lambda>st. res_bind (verify_binding (prims \<rho>) (vopts v) t (issuerPayload st) nonce)
       (\<lambda>keyBound. result_of (vopts v) issuer st keyBound)))))"

section \<open>What the collection of digests finds\<close>

text \<open>
  The abstract view: \<open>embeds m p s\<close> says that the object under path \<open>p\<close> of \<open>m\<close> lists the digest \<open>s\<close>
  in its \<open>_sd\<close> array; \<open>map_depth m\<close> is the number of objects nested below \<open>m\<close>.
\<close>

inductive embeds :: "gmap \<Rightarrow> path \<Rightarrow> string \<Rightarrow> bool" where
  here: "map_of m ''_sd'' = Some (GSlice hs) \<Longrightarrow> GString s \<in> set hs \<Longrightarrow> embeds m [] s"
| there: "(k, GMap n) \<in> set m \<Longrightarrow> embeds n p s \<Longrightarrow> embeds m (k # p) s"

inductive_cases embeds_NilE: "embeds m [] s"
inductive_cases embeds_ConsE: "embeds m (k # p) s"

fun map_depth :: "gmap \<Rightarrow> nat" where
  "map_depth [] = 0"
| "map_depth ((k, GMap n) # r) = max (Suc (map_depth n)) (map_depth r)"
| "map_depth (_ # r) = map_depth r"

lemma map_depth_child: "(k, GMap n) \<in> set m \<Longrightarrow> map_depth n < map_depth m"
  by (induction m rule: map_depth.induct) (auto simp: less_max_iff_disj less_Suc_eq_le)

lemma map_depth_bound: "map_depth m \<le> D \<longleftrightarrow> (\<forall>k n. (k, GMap n) \<in> set m \<longrightarrow> map_depth n < D)"
  by (induction m rule: map_depth.induct) (auto simp: Suc_le_eq)

lemma fair_set: "fair_run \<rho> \<Longrightarrow> set (range_order \<rho> m) = set m"
  unfolding fair_run_def by (metis mset_eq_setD)

lemma set_map_filter_iff: "y \<in> set (List.map_filter f xs) \<longleftrightarrow> (\<exists>x \<in> set xs. f x = Some y)"
  by (induction xs) (auto simp: List.map_filter_simps split: option.splits)

lemma embeds_Nil_iff:
  "embeds m [] s \<longleftrightarrow> (\<exists>hs. map_of m ''_sd'' = Some (GSlice hs) \<and> GString s \<in> set hs)"
  by (auto intro: here elim: embeds_NilE)

lemma embeds_Cons_iff: "embeds m (k # p) s \<longleftrightarrow> (\<exists>n. (k, GMap n) \<in> set m \<and> embeds n p s)"
  by (auto intro: there elim: embeds_ConsE)

lemma own_digests_iff: "s \<in> set (own_digests m) \<longleftrightarrow> embeds m [] s"
proof (cases "as_slice (map_of m ''_sd'')")
  case None
  then have "map_of m ''_sd'' \<noteq> Some (GSlice hs)" for hs by auto
  with None show ?thesis by (simp add: own_digests_def embeds_Nil_iff)
next
  case (Some hs)
  then have "map_of m ''_sd'' = Some (GSlice hs)" by simp
  with Some show ?thesis by (simp add: own_digests_def embeds_Nil_iff set_map_filter_iff)
qed

text \<open>The loop adds what the nested objects of its list contribute; nothing else, and all of it.\<close>

definition contributes :: "gmap \<Rightarrow> path \<Rightarrow> string \<Rightarrow> path \<Rightarrow> bool" where
  "contributes r p s q \<longleftrightarrow> (\<exists>k n t. (k, GMap n) \<in> set r \<and> embeds n t s \<and> q = p @ k # t)"

lemma contributes_Cons_map:
  "contributes ((k, GMap n) # r) p s q \<longleftrightarrow>
     (\<exists>t. embeds n t s \<and> q = p @ k # t) \<or> contributes r p s q"
  by (auto simp: contributes_def)

lemma contributes_skip [simp]:
  "contributes ((k, GNil) # r) = contributes r" "contributes ((k, GBool b) # r) = contributes r"
  "contributes ((k, GString x) # r) = contributes r" "contributes ((k, GFloat f) # r) = contributes r"
  "contributes ((k, GInt i) # r) = contributes r" "contributes ((k, GStrings ss) # r) = contributes r"
  "contributes ((k, GSlice vs) # r) = contributes r"
  "contributes ((k, GStruct fs sel) # r) = contributes r"
  by (auto simp: contributes_def fun_eq_iff)

lemma contributes_Nil [simp]: "\<not> contributes [] p s q"
  by (simp add: contributes_def)

lemma contributes_here: "contributes m p s q \<or> embeds m [] s \<and> q = p \<longleftrightarrow> (\<exists>t. q = p @ t \<and> embeds m t s)"
proof
  assume "\<exists>t. q = p @ t \<and> embeds m t s"
  then obtain t where "q = p @ t" "embeds m t s" by blast
  then show "contributes m p s q \<or> embeds m [] s \<and> q = p"
    by (cases t) (auto simp: contributes_def embeds_Cons_iff)
qed (auto simp: contributes_def intro: there)

lemma contributes_cong: "set m = set m' \<Longrightarrow> contributes m p s q = contributes m' p s q"
  by (simp add: contributes_def)

lemma set_own: "(s, q) \<in> set (assign_all [] (map (\<lambda>s. (s, p)) (own_digests m))) \<Longrightarrow> embeds m [] s \<and> q = p"
  using set_assign_all [of "[]" "map (\<lambda>s. (s, p)) (own_digests m)"] by (auto simp: own_digests_iff)

lemma collect_sound:
  "collectDigests \<rho> p m d = Inr out \<Longrightarrow> fair_run \<rho> \<Longrightarrow>
      (s, q) \<in> set out \<Longrightarrow> \<exists>t. q = p @ t \<and> embeds m t s"
  "collect_loop \<rho> p r d acc = Inr out' \<Longrightarrow> fair_run \<rho> \<Longrightarrow>
      (s', q') \<in> set out' \<Longrightarrow> (s', q') \<in> set acc \<or> contributes r p s' q'"
proof (induction \<rho> p m d and \<rho> p r d acc arbitrary: out s q and out' s' q'
    rule: collectDigests_collect_loop.induct)
  case (1 \<rho> p obj depth)
  have deep: "\<not> depth > maxVerifyDepth" using "1.prems"(1) by (auto split: if_splits)
  have "(s, q) \<in> set (assign_all [] (map (\<lambda>s. (s, p)) (own_digests obj))) \<or> contributes (range_order \<rho> obj) p s q"
    using "1.prems" deep by (intro "1.IH" [OF deep]) auto
  then show ?case
    using set_own contributes_cong [OF fair_set [OF "1.prems"(2)]] contributes_here by metis
next
  case (3 \<rho> p k nested r depth acc)
  then obtain sub where sub: "collectDigests \<rho> (p @ [k]) nested (depth + 1) = Inr sub"
    and rest: "collect_loop \<rho> p r depth (assign_all acc sub) = Inr out'"
    by (auto split: sum.splits)
  have "(s', q') \<in> set (assign_all acc sub) \<or> contributes r p s' q'"
    using "3.IH"(2) [OF sub rest] "3.prems" by blast
  moreover have "(s', q') \<in> set sub \<Longrightarrow> \<exists>t. embeds nested t s' \<and> q' = p @ k # t"
    using "3.IH"(1) [OF sub "3.prems"(2)] by fastforce
  ultimately show ?case using set_assign_all [of acc sub] by (auto simp: contributes_Cons_map)
qed (auto simp: contributes_def)

lemma keys_own: "s \<in> keys (map (\<lambda>s. (s, p)) (own_digests obj)) \<longleftrightarrow> embeds obj [] s"
  by (simp add: keys_def image_comp comp_def own_digests_iff)

lemma collect_complete:
  "collectDigests \<rho> p m d = Inr out \<Longrightarrow> fair_run \<rho> \<Longrightarrow> embeds m t s \<Longrightarrow> s \<in> keys out"
  "collect_loop \<rho> p r d acc = Inr out' \<Longrightarrow> fair_run \<rho> \<Longrightarrow>
      s' \<in> keys acc \<or> (\<exists>q'. contributes r p s' q') \<Longrightarrow> s' \<in> keys out'"
proof (induction \<rho> p m d and \<rho> p r d acc arbitrary: out t s and out' s'
    rule: collectDigests_collect_loop.induct)
  case (1 \<rho> p obj depth)
  have deep: "\<not> depth > maxVerifyDepth" using "1.prems"(1) by (auto split: if_splits)
  have "contributes (range_order \<rho> obj) p s (p @ t) \<or> embeds obj [] s"
    using "1.prems"(3) contributes_here contributes_cong [OF fair_set [OF "1.prems"(2)]] by metis
  then have "s \<in> keys (assign_all [] (map (\<lambda>s. (s, p)) (own_digests obj)))
      \<or> (\<exists>q. contributes (range_order \<rho> obj) p s q)"
    using keys_own [of s p obj] by auto
  then show ?case using "1.prems" deep by (intro "1.IH" [OF deep]) auto
next
  case (3 \<rho> p k nested r depth acc)
  then obtain sub where sub: "collectDigests \<rho> (p @ [k]) nested (depth + 1) = Inr sub"
    and rest: "collect_loop \<rho> p r depth (assign_all acc sub) = Inr out'"
    by (auto split: sum.splits)
  have "s' \<in> keys acc \<or> s' \<in> keys sub \<or> (\<exists>q. contributes r p s' q)"
    using "3.prems"(3) "3.IH"(1) [OF sub "3.prems"(2)] by (auto simp: contributes_Cons_map)
  then show ?case using "3.IH"(2) [OF sub rest "3.prems"(2)] by auto
qed auto

lemma map_depth_cong: "set m = set m' \<Longrightarrow> map_depth m = map_depth m'"
  by (metis map_depth_bound order_antisym order_refl)

lemma collect_total:
  "fair_run \<rho> \<Longrightarrow> (\<exists>out. collectDigests \<rho> p m d = Inr out) \<longleftrightarrow> d + map_depth m \<le> maxVerifyDepth"
  "fair_run \<rho> \<Longrightarrow> d \<le> maxVerifyDepth \<Longrightarrow>
     (\<exists>out. collect_loop \<rho> p r d acc = Inr out) \<longleftrightarrow> d + map_depth r \<le> maxVerifyDepth"
proof (induction \<rho> p m d and \<rho> p r d acc rule: collectDigests_collect_loop.induct)
  case (1 \<rho> p obj depth)
  then show ?case using map_depth_cong [OF fair_set [OF "1.prems"], of obj] by (cases "depth > maxVerifyDepth") auto
next
  case (3 \<rho> p k nested r depth acc)
  show ?case
  proof (cases "collectDigests \<rho> (p @ [k]) nested (depth + 1)")
    case (Inl e)
    then show ?thesis using "3.IH"(1) [OF "3.prems"(1)] by auto
  next
    case (Inr sub)
    then show ?thesis using "3.IH"(1) [OF "3.prems"(1)] "3.IH"(2) [OF Inr "3.prems"] by auto
  qed
qed auto

lemma collect_err:
  "collectDigests \<rho> p m d = Inl e \<Longrightarrow> e = Sentinel ErrNestingTooDeep"
  "collect_loop \<rho> p r d acc = Inl e' \<Longrightarrow> e' = Sentinel ErrNestingTooDeep"
  by (induction \<rho> p m d and \<rho> p r d acc arbitrary: e and e' rule: collectDigests_collect_loop.induct)
     (auto split: if_splits sum.splits)

section \<open>What writing back changes\<close>

text \<open>\<open>slot_at q m\<close>: the value under the path \<open>q\<close> of keys.\<close>

fun slot_at :: "path \<Rightarrow> gmap \<Rightarrow> gval option" where
  "slot_at [] m = Some (GMap m)"
| "slot_at [k] m = map_of m k"
| "slot_at (k # p) m = (case map_of m k of Some (GMap n) \<Rightarrow> slot_at p n | _ \<Rightarrow> None)"

definition is_object :: "gval option \<Rightarrow> bool" where
  "is_object v \<longleftrightarrow> (\<exists>n. v = Some (GMap n))"

text \<open>Two slots look alike if they are equal or both hold an object.\<close>

definition alike :: "gval option \<Rightarrow> gval option \<Rightarrow> bool" where
  "alike a b \<longleftrightarrow> a = b \<or> is_object a \<and> is_object b"

lemma alike_refl [simp]: "alike a a"
  by (simp add: alike_def)

lemma alike_trans: "alike a b \<Longrightarrow> alike b c \<Longrightarrow> alike a c"
  by (auto simp: alike_def)

lemma alike_object: "alike a b \<Longrightarrow> is_object b \<Longrightarrow> is_object a"
  by (auto simp: alike_def)

lemma is_prefix_iff: "is_prefix p q \<longleftrightarrow> (\<exists>r. q = p @ r)"
  by (induction p q rule: is_prefix.induct) auto

lemma slot_at_map: "map_of m k = Some (GMap n) \<Longrightarrow> slot_at (k # p) m = slot_at p n"
  by (cases p) auto

lemma slot_at_plain:
  assumes "\<nexists>n. map_of m k = Some (GMap n)"
  shows "slot_at (k # p) m = (if p = [] then map_of m k else None)"
proof (cases p)
  case (Cons a r)
  show ?thesis
  proof (cases "map_of m k")
    case (Some v)
    then show ?thesis using assms Cons by (cases v) auto
  qed (simp add: Cons)
qed simp

lemma update_at_plain: "\<nexists>n. map_of m k = Some (GMap n) \<Longrightarrow> update_at (k # p) key v m = m"
proof (cases "map_of m k")
  case (Some x)
  then show "\<nexists>n. map_of m k = Some (GMap n) \<Longrightarrow> update_at (k # p) key v m = m" by (cases x) auto
qed simp

lemma slot_at_update:
  "slot_at (k # p) (AList.update j v m) =
     (if k = j then slot_at (k # p) [(j, v)] else slot_at (k # p) m)"
  by (cases p) auto

text \<open>The written slot itself, slots it does not touch, and slots above it.\<close>

lemma slot_update_same:
  "is_object (slot_at p m) \<Longrightarrow> slot_at (p @ [key]) (update_at p key v m) = Some v"
proof (induction p arbitrary: m)
  case (Cons k p)
  then have "\<exists>n. map_of m k = Some (GMap n)"
    using slot_at_plain [of m k p] unfolding is_object_def by (metis option.distinct(1))
  then obtain n where n: "map_of m k = Some (GMap n)" by blast
  then show ?case using Cons by (simp add: slot_at_map)
qed simp

lemma slot_update_Cons:
  assumes "map_of m k = Some (GMap n)"
  shows "slot_at (k' # q) (update_at (k # p) key v m) =
    (if k' = k then slot_at q (update_at p key v n) else slot_at (k' # q) m)"
  using assms by (simp add: slot_at_update slot_at_map)

lemma slot_update_alike:
  "\<not> is_prefix (p @ [key]) q \<Longrightarrow> alike (slot_at q (update_at p key v m)) (slot_at q m)"
proof (induction p arbitrary: m q)
  case Nil
  then show ?case
    by (cases q) (auto simp: slot_at_update alike_def is_object_def)
next
  case (Cons k p)
  show ?case
  proof (cases q)
    case Nil
    then show ?thesis by (simp add: alike_def is_object_def del: update_at.simps)
  next
    case q: (Cons k' q')
    show ?thesis
    proof (cases "\<exists>n. map_of m k = Some (GMap n)")
      case True
      then obtain n where n: "map_of m k = Some (GMap n)" by blast
      show ?thesis
        using Cons q unfolding q slot_update_Cons [OF n] by (auto simp: slot_at_map [OF n])
    next
      case False
      then show ?thesis using update_at_plain alike_refl by metis
    qed
  qed
qed

lemma slot_update_disjoint:
  "\<not> is_prefix (p @ [key]) q \<Longrightarrow> \<not> is_prefix q p \<Longrightarrow>
     slot_at q (update_at p key v m) = slot_at q m"
proof (induction p arbitrary: m q)
  case Nil
  then show ?case by (cases q) (auto simp: slot_at_update)
next
  case (Cons k p)
  then obtain k' q' where q: "q = k' # q'" by (cases q) auto
  show ?case
  proof (cases "\<exists>n. map_of m k = Some (GMap n)")
    case True
    then obtain n where n: "map_of m k = Some (GMap n)" by blast
    show ?thesis
      using Cons q unfolding q slot_update_Cons [OF n] by (auto simp: slot_at_map [OF n])
  next
    case False
    then show ?thesis using update_at_plain by metis
  qed
qed

section \<open>The writes of a presentation\<close>

text \<open>\<open>write_all\<close> performs a list of write-backs; the slot of a write is its path and its key.\<close>

type_synonym write_op = "path \<times> string \<times> gval"

definition write_slot :: "write_op \<Rightarrow> path" where
  "write_slot w = fst w @ [fst (snd w)]"

fun write_all :: "write_op list \<Rightarrow> verify_state \<Rightarrow> verify_state" where
  "write_all [] st = st"
| "write_all ((p, key, v) # ws) st = write_all ws (write_back p key v st)"

text \<open>A slot that no write covers keeps its value, objects their being objects.\<close>

lemma write_back_alike:
  "\<not> is_prefix (p @ [key]) q \<Longrightarrow>
     alike (slot_at q (issuerPayload (write_back p key v st))) (slot_at q (issuerPayload st))"
  by (simp add: write_back_def slot_update_alike)

lemma write_all_alike:
  "\<forall>w \<in> set ws. \<not> is_prefix (write_slot w) q \<Longrightarrow>
     alike (slot_at q (issuerPayload (write_all ws st))) (slot_at q (issuerPayload st))"
proof (induction ws arbitrary: st)
  case (Cons w ws)
  obtain p key v where w: "w = (p, key, v)" by (cases w)
  have "alike (slot_at q (issuerPayload (write_all ws (write_back p key v st))))
      (slot_at q (issuerPayload (write_back p key v st)))"
    using Cons by simp
  moreover have "alike (slot_at q (issuerPayload (write_back p key v st))) (slot_at q (issuerPayload st))"
    using Cons.prems w by (intro write_back_alike) (simp add: write_slot_def)
  ultimately show ?case using w alike_trans by simp
qed simp

text \<open>Once a slot is overwritten, writes below it do not touch it.\<close>

lemma overwritten_mono: "set (overwritten st) \<subseteq> set (overwritten (write_all ws st))"
proof (induction ws arbitrary: st)
  case (Cons w ws)
  obtain p key v where w: "w = (p, key, v)" by (cases w)
  have "set (overwritten st) \<subseteq> set (overwritten (write_back p key v st))"
    by (auto simp: write_back_def)
  then show ?case using Cons [of "write_back p key v st"] w by auto
qed simp

lemma write_all_settled:
  "q \<in> set (overwritten st) \<Longrightarrow> \<forall>w \<in> set ws. \<not> is_prefix (write_slot w) q \<Longrightarrow>
     slot_at q (issuerPayload (write_all ws st)) = slot_at q (issuerPayload st)"
proof (induction ws arbitrary: st)
  case (Cons w ws)
  obtain p key v where w: "w = (p, key, v)" by (cases w)
  have "slot_at q (issuerPayload (write_back p key v st)) = slot_at q (issuerPayload st)"
    using Cons.prems w
    by (auto simp: write_back_def write_slot_def intro!: slot_update_disjoint)
  moreover have "q \<in> set (overwritten (write_back p key v st))"
    using Cons.prems(1) by (auto simp: write_back_def)
  ultimately show ?case using Cons w by simp
qed simp

lemma overwritten_slots:
  "set (overwritten (write_all ws st)) \<subseteq> set (overwritten st) \<union> write_slot ` set ws"
proof (induction ws arbitrary: st)
  case (Cons w ws)
  obtain p key v where w: "w = (p, key, v)" by (cases w)
  have "set (overwritten (write_back p key v st)) \<subseteq> insert (write_slot w) (set (overwritten st))"
    by (auto simp: write_back_def write_slot_def w)
  then show ?case using Cons [of "write_back p key v st"] w by auto
qed simp

lemma write_all_append: "write_all (us @ ws) st = write_all ws (write_all us st)"
  by (induction us st rule: write_all.induct) auto

text \<open>A write whose slot no other write covers is visible at the end.\<close>

lemma write_all_visible:
  assumes ws: "ws = us @ (p, key, v) # vs" and fresh: "overwritten st = []"
    and obj: "is_object (slot_at p (issuerPayload st))"
    and others: "\<forall>w \<in> set us \<union> set vs. \<not> is_prefix (write_slot w) (p @ [key])"
  shows "slot_at (p @ [key]) (issuerPayload (write_all ws st)) = Some v"
proof -
  let ?st = "write_all us st"
  have snoc: "is_prefix q p \<Longrightarrow> is_prefix q (p @ [key])" for q
    by (auto simp: is_prefix_iff)
  then have up: "\<forall>w \<in> set us. \<not> is_prefix (write_slot w) p" using others by blast
  then have above: "\<not> is_prefix q p" if "q \<in> set (overwritten ?st)" for q
    using that overwritten_slots [of us st] fresh by auto
  have "is_object (slot_at p (issuerPayload ?st))"
    using write_all_alike [OF up] obj alike_object by blast
  then have "slot_at (p @ [key]) (issuerPayload (write_back p key v ?st)) = Some v"
    and "p @ [key] \<in> set (overwritten (write_back p key v ?st))"
    using above by (auto simp: write_back_def slot_update_same)
  then show ?thesis
    using write_all_settled [of "p @ [key]" "write_back p key v ?st" vs] others
    by (simp add: ws write_all_append)
qed

section \<open>What the disclosure loop accepts\<close>

text \<open>A disclosure with the place its digest was found at, and the write it asks for.\<close>

definition opened :: "crypto \<Rightarrow> hash \<Rightarrow> digest_map \<Rightarrow> string \<Rightarrow> (path \<times> disclosure) option" where
  "opened C h D enc =
     (case (ParseDisclosure enc, Digest C h enc) of
        (Inr d, Inr dg) \<Rightarrow> map_option (\<lambda>p. (p, d)) (map_of D dg)
      | _ \<Rightarrow> None)"

definition named_write :: "(path \<times> disclosure) option \<Rightarrow> write_op option" where
  "named_write r =
     (case r of Some (p, d) \<Rightarrow> if Key d \<noteq> [] then Some (p, Key d, Value d) else None | None \<Rightarrow> None)"

definition writes :: "crypto \<Rightarrow> hash \<Rightarrow> digest_map \<Rightarrow> string list \<Rightarrow> write_op list" where
  "writes C h D encs = List.map_filter (\<lambda>enc. named_write (opened C h D enc)) encs"

abbreviation write_key :: "write_op \<Rightarrow> string" where
  "write_key w \<equiv> fst (snd w)"

lemma writes_simps [simp]:
  "writes C h D [] = []"
  "writes C h D (enc # encs) =
     (case named_write (opened C h D enc) of None \<Rightarrow> writes C h D encs
      | Some w \<Rightarrow> w # writes C h D encs)"
  by (simp_all add: writes_def List.map_filter_simps split: option.split)

definition after_writes :: "write_op list \<Rightarrow> verify_state \<Rightarrow> verify_state" where
  "after_writes ws st =
     (write_all ws st)\<lparr>seenKeys := rev (map write_key ws) @ seenKeys st,
                       disclosedClaims := assign_all (disclosedClaims st) (map snd ws)\<rparr>"

lemma write_back_frame [simp]:
  "seenKeys (write_back p k v st) = seenKeys st"
  "disclosedClaims (write_back p k v st) = disclosedClaims st"
  "write_back p k v (st\<lparr>seenKeys := s\<rparr>) = (write_back p k v st)\<lparr>seenKeys := s\<rparr>"
  "write_back p k v (st\<lparr>disclosedClaims := c\<rparr>) = (write_back p k v st)\<lparr>disclosedClaims := c\<rparr>"
  by (simp_all add: write_back_def)

lemma write_all_frame [simp]:
  "write_all ws (st\<lparr>seenKeys := s\<rparr>) = (write_all ws st)\<lparr>seenKeys := s\<rparr>"
  "write_all ws (st\<lparr>disclosedClaims := c\<rparr>) = (write_all ws st)\<lparr>disclosedClaims := c\<rparr>"
  by (induction ws st rule: write_all.induct) simp_all

lemma write_all_same [simp]:
  "seenKeys (write_all ws st) = seenKeys st" "disclosedClaims (write_all ws st) = disclosedClaims st"
  by (induction ws st rule: write_all.induct) simp_all

lemma verify_disclosure_Inr:
  "verify_disclosure C h D enc st = Inr st' \<longleftrightarrow>
     (\<exists>p d. opened C h D enc = Some (p, d) \<and> reveal p d st = Inr st')"
  by (auto simp: verify_disclosure_def opened_def res_bind_Inr_iff split: sum.splits option.splits)

lemma reveal_Inr:
  "reveal p d st = Inr st' \<longleftrightarrow>
     (case named_write (Some (p, d)) of
        None \<Rightarrow> st' = st
      | Some w \<Rightarrow> write_key w \<notin> set (seenKeys st) \<and> st' = after_writes [w] st)"
  by (auto simp: reveal_def named_write_def after_writes_def Let_def)

lemma after_writes_Cons: "after_writes ws (after_writes [w] st) = after_writes (w # ws) st"
  by (cases w) (simp add: after_writes_def)

lemma after_writes_Nil [simp]: "after_writes [] st = st"
  by (simp add: after_writes_def)

lemma disclosure_loop_Inr:
  "disclosure_loop C h D encs st = Inr st' \<longleftrightarrow>
     (\<forall>enc \<in> set encs. opened C h D enc \<noteq> None)
     \<and> distinct (map write_key (writes C h D encs))
     \<and> set (map write_key (writes C h D encs)) \<inter> set (seenKeys st) = {}
     \<and> st' = after_writes (writes C h D encs) st"
proof (induction encs arbitrary: st)
  case (Cons enc encs)
  show ?case
  proof (cases "opened C h D enc")
    case None
    then show ?thesis by (auto simp: res_bind_Inr_iff verify_disclosure_Inr)
  next
    case (Some pd)
    obtain p d where pd: "pd = (p, d)" by (cases pd)
    have step: "disclosure_loop C h D (enc # encs) st = Inr st' \<longleftrightarrow>
        (\<exists>st1. reveal p d st = Inr st1 \<and> disclosure_loop C h D encs st1 = Inr st')"
      using Some pd by (auto simp: res_bind_Inr_iff verify_disclosure_Inr)
    show ?thesis
    proof (cases "named_write (Some (p, d))")
      case None
      then show ?thesis using Some pd Cons by (simp only: step reveal_Inr) simp
    next
      case (Some w)
      have seen: "seenKeys (after_writes [w] st) = write_key w # seenKeys st"
        by (simp add: after_writes_def)
      show ?thesis
        using Some \<open>opened C h D enc = Some pd\<close> pd Cons [of "after_writes [w] st"]
        unfolding step reveal_Inr by (auto simp: after_writes_Cons seen)
    qed
  qed
qed auto

text \<open>The verdict and the result depend on the digest map only as a map.\<close>

lemma verify_disclosure_cong:
  "map_of D = map_of D' \<Longrightarrow> verify_disclosure C h D enc st = verify_disclosure C h D' enc st"
  by (simp add: verify_disclosure_def)

lemma disclosure_loop_cong:
  "map_of D = map_of D' \<Longrightarrow> disclosure_loop C h D encs st = disclosure_loop C h D' encs st"
  using verify_disclosure_cong [of D D'] by (induction encs arbitrary: st) (simp_all add: res_bind_def split: sum.splits)

text \<open>Its errors.\<close>

lemma verify_disclosure_Inl:
  assumes "verify_disclosure C h D enc st = Inl e" and "supported_hash h"
  shows "\<exists>stage e' s. e = VerificationError stage e' \<and> errors_Is e' s
    \<and> (stage, s) \<in> {(''disclosure_parse'', ErrDisclosureInvalid),
        (''disclosure_hash'', ErrDisclosureMismatch), (''disclosure_duplicate'', ErrDisclosureDuplicate)}"
proof (cases "ParseDisclosure enc")
  case (Inl x)
  then show ?thesis using ParseDisclosure_err [OF Inl] assms(1) by (auto simp: verify_disclosure_def)
next
  case (Inr d)
  obtain dg where "Digest C h enc = Inr dg" using Digest_total [OF assms(2)] by blast
  then show ?thesis using assms(1) Inr
    by (auto simp: verify_disclosure_def reveal_def Let_def split: option.splits if_splits)
qed

lemma disclosure_loop_Inl:
  "disclosure_loop C h D encs st = Inl e \<Longrightarrow> \<exists>enc st'. verify_disclosure C h D enc st' = Inl e"
  by (induction encs arbitrary: st) (auto simp: res_bind_Inl_iff)

section \<open>The stages of a successful verification\<close>

lemma authenticate_Inr:
  "authenticate \<rho> v t = Inr (payload, issuer) \<longleftrightarrow>
     (\<exists>header pub. decodeJWT (IssuerJWT t) = Inr (header, payload)
        \<and> issuer = string_or_empty (map_of payload ''iss'') \<and> issuer \<noteq> []
        \<and> resolver v issuer (string_or_empty (map_of header ''kid'')) = Inr pub
        \<and> verifyJWTSignature (prims \<rho>) (IssuerJWT t) pub (string_or_empty (map_of header ''alg''))
            = Inr ())"
  by (auto simp: authenticate_def Let_def split: sum.splits if_splits)

lemma Verify_Inr:
  "Verify \<rho> v raw nonce = Inr res \<longleftrightarrow>
     (\<exists>t payload issuer st kb. Parse raw = Inr t \<and> authenticate \<rho> v t = Inr (payload, issuer)
        \<and> check_times \<rho> (clockSkew (vopts v)) payload = Inr ()
        \<and> verify_claims \<rho> t payload = Inr st
        \<and> verify_binding (prims \<rho>) (vopts v) t (issuerPayload st) nonce = Inr kb
        \<and> result_of (vopts v) issuer st kb = Inr res)"
  by (auto simp: Verify_def res_bind_Inr_iff)

lemma result_of_Inr:
  "result_of cfg issuer st kb = Inr res \<longleftrightarrow>
     (expectedVCT cfg = [] \<or> string_or_empty (map_of (issuerPayload st) ''vct'') = expectedVCT cfg)
     \<and> res = \<lparr>IssuerClaims = issuerPayload st, DisclosedClaims = disclosedClaims st,
              ResultIssuer = issuer, ResultVCT = string_or_empty (map_of (issuerPayload st) ''vct''),
              ResultSubject = string_or_empty (map_of (issuerPayload st) ''sub''), KeyBound = kb\<rparr>"
  by (auto simp: result_of_def Let_def)

text \<open>The state the disclosure loop starts from, and the collected digests under a fair run.\<close>

definition start_state :: "gmap \<Rightarrow> verify_state" where
  "start_state payload =
     \<lparr>issuerPayload = payload, overwritten = [], disclosedClaims = [], seenKeys = []\<rparr>"

lemma start_state_simps [simp]:
  "issuerPayload (start_state m) = m" "overwritten (start_state m) = []"
  "disclosedClaims (start_state m) = []" "seenKeys (start_state m) = []"
  by (simp_all add: start_state_def)

lemma verify_claims_Inr:
  "verify_claims \<rho> t payload = Inr st \<longleftrightarrow>
     (\<exists>h D. sd_hash_alg payload = Inr h \<and> collectDigests \<rho> [] payload 0 = Inr D
        \<and> (\<forall>enc \<in> set (Disclosures t). opened (prims \<rho>) h D enc \<noteq> None)
        \<and> distinct (map write_key (writes (prims \<rho>) h D (Disclosures t)))
        \<and> st = after_writes (writes (prims \<rho>) h D (Disclosures t)) (start_state payload))"
  unfolding verify_claims_def res_bind_Inr_iff map_err_Inr_iff start_state_def [symmetric]
    disclosure_loop_Inr by auto

lemma collected_iff:
  assumes "fair_run \<rho>" "collectDigests \<rho> [] m 0 = Inr D"
  shows "map_of D s \<noteq> None \<longleftrightarrow> (\<exists>p. embeds m p s)"
    and "map_of D s = Some p \<Longrightarrow> embeds m p s"
proof -
  show sound: "embeds m p s" if "map_of D s = Some p" for p
    using collect_sound(1) [OF assms(2,1) map_of_SomeD [OF that]] by simp
  show "map_of D s \<noteq> None \<longleftrightarrow> (\<exists>p. embeds m p s)"
  proof
    assume "map_of D s \<noteq> None"
    then show "\<exists>p. embeds m p s" using sound by auto
  next
    assume "\<exists>p. embeds m p s"
    then show "map_of D s \<noteq> None" using collect_complete(1) [OF assms(2,1)] keys_iff by metis
  qed
qed

text \<open>\<open>committed\<close>: the digest of an encoded disclosure is embedded somewhere in the payload.\<close>

definition committed :: "crypto \<Rightarrow> hash \<Rightarrow> gmap \<Rightarrow> string \<Rightarrow> bool" where
  "committed C h payload enc \<longleftrightarrow> (\<exists>dg p. Digest C h enc = Inr dg \<and> embeds payload p dg)"

definition name_of :: "string \<Rightarrow> (string \<times> gval) option" where
  "name_of enc =
     (case ParseDisclosure enc of
        Inl _ \<Rightarrow> None
      | Inr d \<Rightarrow> if Key d \<noteq> [] then Some (Key d, Value d) else None)"

text \<open>The named claims of a list of encoded disclosures, in order.\<close>

definition named_claims :: "string list \<Rightarrow> gmap" where
  "named_claims encs = List.map_filter name_of encs"

lemma named_claims_simps [simp]:
  "named_claims [] = []"
  "named_claims (enc # encs) =
     (case name_of enc of None \<Rightarrow> named_claims encs | Some kv \<Rightarrow> kv # named_claims encs)"
  by (simp_all add: named_claims_def List.map_filter_simps split: option.split)

lemma opened_not_None:
  assumes "fair_run \<rho>" "collectDigests \<rho> [] m 0 = Inr D"
  shows "opened C h D enc \<noteq> None \<longleftrightarrow> (\<exists>d. ParseDisclosure enc = Inr d) \<and> committed C h m enc"
proof (cases "\<exists>d dg. ParseDisclosure enc = Inr d \<and> Digest C h enc = Inr dg")
  case True
  then obtain d dg where "ParseDisclosure enc = Inr d" "Digest C h enc = Inr dg" by blast
  then show ?thesis using collected_iff(1) [OF assms, of dg] by (simp add: opened_def committed_def)
next
  case False
  then show ?thesis by (auto simp: opened_def committed_def split: sum.splits)
qed

lemma writes_claims:
  "\<forall>enc \<in> set encs. opened C h D enc \<noteq> None \<Longrightarrow> map snd (writes C h D encs) = named_claims encs"
proof (induction encs)
  case (Cons enc encs)
  have "map_option snd (named_write (opened C h D enc)) = name_of enc"
    using Cons.prems
    by (auto simp: opened_def named_write_def name_of_def split: sum.splits option.splits)
  moreover have "map snd (writes C h D encs) = named_claims encs" using Cons by simp
  ultimately show ?case
    by (cases "named_write (opened C h D enc)"; cases "name_of enc") simp_all
qed simp

lemma write_keys: "map write_key ws = map fst (map snd ws)"
  by simp

lemma sd_hash_alg_supported: "sd_hash_alg payload = Inr h \<Longrightarrow> supported_hash h"
  by (auto simp: sd_hash_alg_def Let_def dest: AlgorithmFromSDAlg_supported split: sum.splits)

lemma verify_claims_accepts:
  assumes "fair_run \<rho>"
  shows "(\<exists>st. verify_claims \<rho> t payload = Inr st) \<longleftrightarrow>
     map_depth payload \<le> maxVerifyDepth
     \<and> (\<exists>h. sd_hash_alg payload = Inr h
          \<and> (\<forall>enc \<in> set (Disclosures t). (\<exists>d. ParseDisclosure enc = Inr d)
               \<and> committed (prims \<rho>) h payload enc))
     \<and> distinct (map fst (named_claims (Disclosures t)))" (is "?L \<longleftrightarrow> ?R")
proof
  assume ?L
  then obtain h D where h: "sd_hash_alg payload = Inr h" and D: "collectDigests \<rho> [] payload 0 = Inr D"
    and op: "\<forall>enc \<in> set (Disclosures t). opened (prims \<rho>) h D enc \<noteq> None"
    and dist: "distinct (map write_key (writes (prims \<rho>) h D (Disclosures t)))"
    by (auto simp: verify_claims_Inr)
  have "map_depth payload \<le> maxVerifyDepth"
    using collect_total(1) [OF assms, of "[]" payload 0] D by simp
  moreover have "\<forall>enc \<in> set (Disclosures t). (\<exists>d. ParseDisclosure enc = Inr d)
      \<and> committed (prims \<rho>) h payload enc"
    using op opened_not_None [OF assms D] by simp
  moreover have "distinct (map fst (named_claims (Disclosures t)))"
    using dist unfolding write_keys writes_claims [OF op] .
  ultimately show ?R using h by blast
next
  assume ?R
  then obtain h where h: "sd_hash_alg payload = Inr h" and depth: "map_depth payload \<le> maxVerifyDepth"
    and ok: "\<forall>enc \<in> set (Disclosures t). (\<exists>d. ParseDisclosure enc = Inr d)
      \<and> committed (prims \<rho>) h payload enc"
    and dist: "distinct (map fst (named_claims (Disclosures t)))" by blast
  obtain D where D: "collectDigests \<rho> [] payload 0 = Inr D"
    using collect_total(1) [OF assms, of "[]" payload 0] depth by auto
  have op: "\<forall>enc \<in> set (Disclosures t). opened (prims \<rho>) h D enc \<noteq> None"
    using ok opened_not_None [OF assms D] by simp
  then have "distinct (map write_key (writes (prims \<rho>) h D (Disclosures t)))"
    using dist unfolding write_keys by (simp only: writes_claims)
  then show ?L using h D op by (auto simp: verify_claims_Inr)
qed

lemma verify_claims_disclosed:
  assumes "verify_claims \<rho> t payload = Inr st"
  shows "disclosedClaims st = named_claims (Disclosures t)"
    and "distinct (map fst (named_claims (Disclosures t)))"
proof -
  obtain h D where op: "\<forall>enc \<in> set (Disclosures t). opened (prims \<rho>) h D enc \<noteq> None"
    and dist: "distinct (map write_key (writes (prims \<rho>) h D (Disclosures t)))"
    and st: "st = after_writes (writes (prims \<rho>) h D (Disclosures t)) (start_state payload)"
    using assms by (auto simp: verify_claims_Inr)
  show d: "distinct (map fst (named_claims (Disclosures t)))"
    using dist unfolding write_keys writes_claims [OF op] .
  show "disclosedClaims st = named_claims (Disclosures t)"
    using assign_all_new [of "named_claims (Disclosures t)" "[]"] d
    by (simp add: st after_writes_def writes_claims [OF op])
qed

end
