(* ===== verification/Verifier_Properties.thy ===== *)
theory Verifier_Properties
  imports Verifier
begin

text \<open>
  What \<open>Verify\<close> promises: authentication, soundness and completeness of the disclosure checks, the
  reconstructed payload, timing, key binding, and the errors.
\<close>

lemma Digest_Inr_iff:
  "Digest C h data = Inr dg \<longleftrightarrow> supported_hash h \<and> dg = b64_enc (hash_sum C h data)"
  by (auto simp: Digest_def newHash_def supported_hash_def hash_sum_def hash_codes)

section \<open>Authentication\<close>

lemma Verify_signed:
  assumes "Verify \<rho> v raw nonce = Inr res"
  shows "\<exists>t header payload pub. Parse raw = Inr t
    \<and> decodeJWT (IssuerJWT t) = Inr (header, payload)
    \<and> map_of payload ''iss'' = Some (GString (ResultIssuer res)) \<and> ResultIssuer res \<noteq> []
    \<and> resolver v (ResultIssuer res) (string_or_empty (map_of header ''kid'')) = Inr pub
    \<and> verifyJWTSignature (prims \<rho>) (IssuerJWT t) pub (string_or_empty (map_of header ''alg'')) = Inr ()"
proof -
  obtain t payload issuer st kb where "Parse raw = Inr t"
    and auth: "authenticate \<rho> v t = Inr (payload, issuer)" and "result_of (vopts v) issuer st kb = Inr res"
    using assms by (auto simp: Verify_Inr)
  moreover from this have "ResultIssuer res = issuer" by (simp add: result_of_Inr)
  moreover obtain header pub where "decodeJWT (IssuerJWT t) = Inr (header, payload)"
    "issuer = string_or_empty (map_of payload ''iss'')" "issuer \<noteq> []"
    "resolver v issuer (string_or_empty (map_of header ''kid'')) = Inr pub"
    "verifyJWTSignature (prims \<rho>) (IssuerJWT t) pub (string_or_empty (map_of header ''alg'')) = Inr ()"
    using auth by (auto simp: authenticate_Inr)
  ultimately show ?thesis using string_or_empty_neq by metis
qed

text \<open>
  C3: a verified presentation carries an issuer JWT whose header and payload decode, whose \<open>iss\<close> is
  the issuer of the result, and whose signature the key that the resolver returns for that issuer
  and the header's \<open>kid\<close> accepts under the header's \<open>alg\<close>.
\<close>
theorem verified_is_signed:
  assumes "Verify \<rho> v raw nonce = Inr res"
  shows "\<exists>t header payload pub. Parse raw = Inr t
    \<and> decodeJWT (IssuerJWT t) = Inr (header, payload)
    \<and> map_of payload ''iss'' = Some (GString (ResultIssuer res)) \<and> ResultIssuer res \<noteq> []
    \<and> resolver v (ResultIssuer res) (string_or_empty (map_of header ''kid'')) = Inr pub
    \<and> verifyJWTSignature (prims \<rho>) (IssuerJWT t) pub (string_or_empty (map_of header ''alg'')) = Inr ()"
  using assms by (rule Verify_signed)

section \<open>Disclosures\<close>

text \<open>
  C6: the disclosures of a presentation are accepted exactly when the payload nests objects at most 16
  deep, \<open>_sd_alg\<close> is supported, every disclosure parses and has its digest in the \<open>_sd\<close> array of
  some object of the payload, and no two of them carry the same claim name.
\<close>
theorem disclosures_accepted_iff:
  assumes "fair_run \<rho>"
  shows "(\<exists>st. verify_claims \<rho> t payload = Inr st) \<longleftrightarrow>
     map_depth payload \<le> 16
     \<and> (\<exists>h. sd_hash_alg payload = Inr h
          \<and> (\<forall>enc \<in> set (Disclosures t). \<exists>d dg p. ParseDisclosure enc = Inr d
               \<and> Digest (prims \<rho>) h enc = Inr dg \<and> embeds payload p dg))
     \<and> distinct (map fst (named_claims (Disclosures t)))"
  unfolding verify_claims_accepts [OF assms] committed_def maxVerifyDepth_def by simp

text \<open>
  C2: soundness of disclosure: in a verified presentation every disclosure is one the signed payload
  commits to, and the claims reported as disclosed are exactly the names and values of the
  presented disclosures, in their order and without repetition.
\<close>
theorem verified_claims_are_committed:
  assumes "fair_run \<rho>" and "Verify \<rho> v raw nonce = Inr res"
    and "Parse raw = Inr t" and "decodeJWT (IssuerJWT t) = Inr (header, payload)"
  shows "DisclosedClaims res = named_claims (Disclosures t)
    \<and> distinct (map fst (DisclosedClaims res))
    \<and> (\<exists>h. sd_hash_alg payload = Inr h
        \<and> (\<forall>enc \<in> set (Disclosures t). \<exists>dg p. Digest (prims \<rho>) h enc = Inr dg \<and> embeds payload p dg))"
proof -
  obtain st kb issuer where vc: "verify_claims \<rho> t payload = Inr st"
    and r: "result_of (vopts v) issuer st kb = Inr res"
    using assms(2-4) by (auto simp: Verify_Inr authenticate_Inr)
  then obtain h where h: "sd_hash_alg payload = Inr h"
    "\<forall>enc \<in> set (Disclosures t). (\<exists>d. ParseDisclosure enc = Inr d) \<and> committed (prims \<rho>) h payload enc"
    using verify_claims_accepts [OF assms(1), of t payload] by blast
  moreover have "DisclosedClaims res = named_claims (Disclosures t)"
    "distinct (map fst (named_claims (Disclosures t)))"
    using verify_claims_disclosed [OF vc] r by (simp_all add: result_of_Inr)
  ultimately show ?thesis by (auto simp: committed_def)
qed

text \<open>
  C20: the digest of a disclosure pins it down. If the hash does not collide on them, an encoded
  disclosure with the digest of one the issuer made is that disclosure, so a holder cannot change
  the salt, the name or the value under a commitment.
\<close>
theorem commitment_is_binding:
  assumes "ok_disclosure d" and "Encode d = Inr enc" and "ParseDisclosure forged = Inr d'"
    and "Digest C h enc = Inr dg" and "Digest C h forged = Inr dg"
    and "inj_on (hash_sum C h) {enc, forged}"
  shows "forged = enc \<and> Salt d' = Salt d \<and> Key d' = Key d \<and> Value d' = json_norm (Value d)"
proof -
  have "hash_sum C h enc = hash_sum C h forged"
    using assms(4,5) by (simp add: Digest_Inr_iff b64.enc_inj)
  then have same: "forged = enc" using inj_onD [OF assms(6)] by blast
  then have "d' = norm_disclosure d"
    using parse_encode [OF assms(1,2)] assms(3) by (metis sum.inject(2))
  then show ?thesis using same by (simp add: norm_disclosure_def)
qed

section \<open>The reconstructed payload\<close>

lemma slot_at_embeds:
  "embeds m p s \<Longrightarrow> distinct (map fst m) \<Longrightarrow> go_fields m \<Longrightarrow> is_object (slot_at p m)"
proof (induction rule: embeds.induct)
  case (there k n m p s)
  have "go_value (GMap n)" using there by (metis go_fields_iff snd_conv)
  moreover have "map_of m k = Some (GMap n)" using there by simp
  ultimately show ?case using there by (simp add: slot_at_map)
qed (simp add: is_object_def)

text \<open>
  C8: a disclosed claim lands in the object whose \<open>_sd\<close> array holds its digest: if that object is the
  only one listing the digest, and no other disclosure of the presentation replaces the claim's
  slot or an object around it, then the verified claims hold the disclosed value there.
\<close>
theorem disclosed_claim_in_place:
  assumes "fair_run \<rho>" and "Verify \<rho> v raw nonce = Inr res"
    and "Parse raw = Inr t" and "decodeJWT (IssuerJWT t) = Inr (header, payload)"
    and "sd_hash_alg payload = Inr h"
    and "Disclosures t = before @ enc # behind"
    and "ParseDisclosure enc = Inr d" and "Key d \<noteq> []"
    and "Digest (prims \<rho>) h enc = Inr dg" and "\<And>q. embeds payload q dg \<longleftrightarrow> q = p"
    and "\<And>enc' d' dg' q. enc' \<in> set before \<union> set behind \<Longrightarrow> ParseDisclosure enc' = Inr d' \<Longrightarrow>
      Digest (prims \<rho>) h enc' = Inr dg' \<Longrightarrow> embeds payload q dg' \<Longrightarrow>
      \<not> is_prefix (q @ [Key d']) (p @ [Key d])"
  shows "slot_at (p @ [Key d]) (IssuerClaims res) = Some (Value d)"
proof -
  obtain st kb issuer where vc: "verify_claims \<rho> t payload = Inr st"
    and r: "result_of (vopts v) issuer st kb = Inr res"
    using assms(2-4) by (auto simp: Verify_Inr authenticate_Inr)
  then obtain D where D: "collectDigests \<rho> [] payload 0 = Inr D"
    and op: "\<forall>enc \<in> set (Disclosures t). opened (prims \<rho>) h D enc \<noteq> None"
    and st: "st = after_writes (writes (prims \<rho>) h D (Disclosures t)) (start_state payload)"
    using assms(5) by (auto simp: verify_claims_Inr)
  let ?W = "writes (prims \<rho>) h D"
  have found: "map_of D dg = Some p"
    using collected_iff [OF assms(1) D] assms(10) by (metis option.exhaust)
  have this_write: "named_write (opened (prims \<rho>) h D enc) = Some (p, Key d, Value d)"
    using assms(7,8,9) found by (simp add: opened_def named_write_def)
  have split: "?W (Disclosures t) = ?W before @ (p, Key d, Value d) # ?W behind"
    unfolding assms(6) by (simp add: writes_def List.map_filter_def this_write)
  have others: "\<forall>w \<in> set (?W before) \<union> set (?W behind). \<not> is_prefix (write_slot w) (p @ [Key d])"
  proof
    fix w assume "w \<in> set (?W before) \<union> set (?W behind)"
    then obtain enc' where e: "enc' \<in> set before \<union> set behind"
      "named_write (opened (prims \<rho>) h D enc') = Some w"
      by (auto simp: writes_def set_map_filter_iff)
    then obtain d' dg' q where "ParseDisclosure enc' = Inr d'" "Digest (prims \<rho>) h enc' = Inr dg'"
      "map_of D dg' = Some q" "write_slot w = q @ [Key d']"
      by (auto simp: opened_def named_write_def write_slot_def split: sum.splits option.splits if_splits)
    then show "\<not> is_prefix (write_slot w) (p @ [Key d])"
      using assms(11) [OF e(1)] collected_iff(2) [OF assms(1) D] by metis
  qed
  have "is_object (slot_at p payload)"
    using assms(10) slot_at_embeds decodeJWT_go [OF assms(4)] by blast
  then have "slot_at (p @ [Key d]) (issuerPayload (write_all (?W (Disclosures t)) (start_state payload)))
      = Some (Value d)"
    by (intro write_all_visible [OF split]) (use others in simp_all)
  then show ?thesis using r by (simp add: st after_writes_def result_of_Inr)
qed

text \<open>
  C17: what the issuer put in clear stays as it was: a value of the payload that is no object, and whose
  slot is not the place of any disclosed claim nor inside one, has the same value in the verified
  claims.
\<close>
theorem clear_claims_untouched:
  assumes "fair_run \<rho>" and "Verify \<rho> v raw nonce = Inr res"
    and "Parse raw = Inr t" and "decodeJWT (IssuerJWT t) = Inr (header, payload)"
    and "sd_hash_alg payload = Inr h" and "\<not> is_object (slot_at q payload)"
    and "\<And>enc d dg p. enc \<in> set (Disclosures t) \<Longrightarrow> ParseDisclosure enc = Inr d \<Longrightarrow>
      Digest (prims \<rho>) h enc = Inr dg \<Longrightarrow> embeds payload p dg \<Longrightarrow> Key d \<noteq> [] \<Longrightarrow>
      \<not> is_prefix (p @ [Key d]) q"
  shows "slot_at q (IssuerClaims res) = slot_at q payload"
proof -
  obtain st kb issuer where vc: "verify_claims \<rho> t payload = Inr st"
    and r: "result_of (vopts v) issuer st kb = Inr res"
    using assms(2-4) by (auto simp: Verify_Inr authenticate_Inr)
  then obtain D where D: "collectDigests \<rho> [] payload 0 = Inr D"
    and st: "st = after_writes (writes (prims \<rho>) h D (Disclosures t)) (start_state payload)"
    using assms(5) by (auto simp: verify_claims_Inr)
  have "\<not> is_prefix (write_slot w) q" if w: "w \<in> set (writes (prims \<rho>) h D (Disclosures t))" for w
  proof -
    obtain enc where e: "enc \<in> set (Disclosures t)" "named_write (opened (prims \<rho>) h D enc) = Some w"
      using w by (auto simp: writes_def set_map_filter_iff)
    then obtain d dg p where "ParseDisclosure enc = Inr d" "Digest (prims \<rho>) h enc = Inr dg"
      "map_of D dg = Some p" "write_slot w = p @ [Key d]" "Key d \<noteq> []"
      by (auto simp: opened_def named_write_def write_slot_def split: sum.splits option.splits if_splits)
    then show ?thesis using assms(7) [OF e(1)] collected_iff(2) [OF assms(1) D] by metis
  qed
  then have "alike (slot_at q (issuerPayload st)) (slot_at q payload)"
    using write_all_alike [of "writes (prims \<rho>) h D (Disclosures t)" q "start_state payload"]
    by (simp add: st after_writes_def)
  then show ?thesis using assms(6) r by (auto simp: alike_def result_of_Inr)
qed

lemma collect_order:
  assumes "fair_run \<rho>" "fair_run \<rho>'" "\<And>s p q. embeds m p s \<Longrightarrow> embeds m q s \<Longrightarrow> p = q"
    and "collectDigests \<rho> [] m 0 = Inr D" "collectDigests \<rho>' [] m 0 = Inr D'"
  shows "map_of D = map_of D'"
proof
  fix s
  note D = collected_iff [OF assms(1,4), of s] and D' = collected_iff [OF assms(2,5), of s]
  show "map_of D s = map_of D' s"
  proof (cases "map_of D s")
    case None
    then show ?thesis using D(1) D'(1) by simp
  next
    case (Some p)
    then obtain p' where "map_of D' s = Some p'" using D D'(1) by auto
    then show ?thesis using Some D(2) D'(2) assms(3) by metis
  qed
qed

text \<open>
  C19: the unspecified iteration order of Go maps does not show: if no digest stands in the \<open>_sd\<close>
  arrays of two different objects, two runs that differ only in the order in which \<open>range\<close> visits
  maps end with the same result or the same error.
\<close>
theorem verdict_independent_of_map_order:
  assumes "fair_run \<rho>" and "fair_run (\<rho>\<lparr>range_order := order\<rparr>)"
    and "\<And>t header payload s p q. Parse raw = Inr t \<Longrightarrow>
      decodeJWT (IssuerJWT t) = Inr (header, payload) \<Longrightarrow>
      embeds payload p s \<Longrightarrow> embeds payload q s \<Longrightarrow> p = q"
  shows "Verify (\<rho>\<lparr>range_order := order\<rparr>) v raw nonce = Verify \<rho> v raw nonce" (is "Verify ?\<rho> _ _ _ = _")
proof -
  have same: "prims ?\<rho> = prims \<rho>" "clock ?\<rho> = clock \<rho>" "out_of_range ?\<rho> = out_of_range \<rho>"
    by simp_all
  have auth: "authenticate ?\<rho> v t = authenticate \<rho> v t" for t
    by (simp only: authenticate_def same)
  have times: "check_times ?\<rho> skew p = check_times \<rho> skew p" for skew p
    by (simp only: check_times_def same)
  have claims: "verify_claims ?\<rho> t p = verify_claims \<rho> t p"
    if t: "Parse raw = Inr t" "authenticate \<rho> v t = Inr (p, i)" for t p i
  proof -
    obtain header where dec: "decodeJWT (IssuerJWT t) = Inr (header, p)"
      using t(2) by (auto simp: authenticate_Inr)
    show ?thesis
    proof (cases "collectDigests \<rho> [] p 0")
      case (Inl e)
      then obtain e' where "collectDigests ?\<rho> [] p 0 = Inl e'"
        using collect_total(1) [OF assms(1), of "[]" p 0] collect_total(1) [OF assms(2), of "[]" p 0]
        by (metis Inl_Inr_False sum.exhaust)
      moreover have "e = Sentinel ErrNestingTooDeep" "e' = Sentinel ErrNestingTooDeep"
        using collect_err(1) Inl calculation by blast+
      ultimately show ?thesis using Inl by (simp add: verify_claims_def)
    next
      case (Inr D)
      then obtain D' where D': "collectDigests ?\<rho> [] p 0 = Inr D'"
        using collect_total(1) [OF assms(1), of "[]" p 0] collect_total(1) [OF assms(2), of "[]" p 0]
        by blast
      have "map_of D' = map_of D"
        using collect_order [OF assms(2,1) _ D' Inr] assms(3) [OF t(1) dec] by blast
      then have "disclosure_loop C h D' encs st = disclosure_loop C h D encs st" for C h encs st
        by (rule disclosure_loop_cong)
      then show ?thesis using Inr D' by (simp add: verify_claims_def)
    qed
  qed
  show ?thesis
  proof (cases "Parse raw")
    case (Inr t)
    show ?thesis
    proof (cases "authenticate \<rho> v t")
      case (Inr pi)
      then show ?thesis
        using \<open>Parse raw = Inr t\<close> claims by (cases pi) (simp add: Verify_def auth times)
    qed (simp add: Verify_def auth Inr)
  qed (simp add: Verify_def)
qed

section \<open>Timing and type\<close>

definition unix_nanos :: "gtime \<Rightarrow> int" where
  "unix_nanos t = nanos t - unix_to_internal * 1000000000"

lemma sdiv_billion_small:
  assumes "int64_range d"
  shows "\<bar>d sdiv 1000000000\<bar> \<le> 9223372037"
proof -
  have "- 9223372036854775808 \<le> d" "d < 9223372036854775808"
    using assms by (simp_all add: int64_range_def)
  then show ?thesis using sdiv_smod_billion [of d] by linarith
qed

lemma deadline_nanos:
  assumes "\<bar>s\<bar> \<le> 2 ^ 61" and "int64_range d"
  shows "unix_nanos (time_add (time_unix s) d) = s * 1000000000 + d"
    and "wf_time (time_add (time_unix s) d)"
proof -
  have u: "wrap64 (s + unix_to_internal) = s + unix_to_internal"
    using assms(1) by (intro wrap64_id) (simp add: int64_range_def unix_to_internal_def, arith)
  then have t: "time_unix s = Time (s + unix_to_internal) 0" by (simp add: time_unix_def)
  have w: "wf_time (time_unix s)"
    using assms(1) by (simp add: t wf_time_def int64_range_def unix_to_internal_def, arith)
  then show "wf_time (time_add (time_unix s) d)" by (rule wf_time_add)
  have "nanos (time_add (time_unix s) d) = nanos (time_unix s) + d"
    using sdiv_billion_small [OF assms(2)] assms(1)
    by (intro time_add_nanos [OF w]) (auto simp: t int64_range_def unix_to_internal_def)
  then show "unix_nanos (time_add (time_unix s) d) = s * 1000000000 + d"
    by (simp add: unix_nanos_def t nanos_def algebra_simps)
qed

text \<open>
  C26: a verified presentation was inside its validity period, in exact nanoseconds: a numeric \<open>exp\<close> plus
  the clock skew is not in the past, a numeric \<open>nbf\<close> minus the skew not in the future. (The bound
  keeps the claims away from the ends of the 64-bit range, where Go's time arithmetic saturates.)
\<close>
theorem verified_in_validity_period:
  assumes "Verify \<rho> v raw nonce = Inr res"
    and "Parse raw = Inr t" and "decodeJWT (IssuerJWT t) = Inr (header, payload)"
    and "wf_time (clock \<rho>)" and "0 \<le> clockSkew (vopts v)" and "int64_range (clockSkew (vopts v))"
    and "s = f64_to_int64 (out_of_range \<rho>) f" and "\<bar>s\<bar> \<le> 2 ^ 61"
  shows "(map_of payload ''exp'' = Some (GFloat f) \<longrightarrow>
            unix_nanos (clock \<rho>) \<le> s * 1000000000 + clockSkew (vopts v))
       \<and> (map_of payload ''nbf'' = Some (GFloat f) \<longrightarrow>
            s * 1000000000 - clockSkew (vopts v) \<le> unix_nanos (clock \<rho>))"
proof -
  let ?d = "clockSkew (vopts v)"
  have ct: "check_times \<rho> ?d payload = Inr ()"
    using assms(1-3) by (auto simp: Verify_Inr authenticate_Inr)
  have neg: "wrap64 (- ?d) = - ?d" "int64_range (- ?d)"
    using assms(5,6) wrap64_id [of "- ?d"] by (auto simp: int64_range_def)
  have leq: "a \<le> b \<longleftrightarrow> unix_nanos a \<le> unix_nanos b" if "wf_time a" "wf_time b" for a b
    using less_by_nanos [of b a] that by (auto simp: wf_time_def unix_nanos_def not_less [symmetric])
  have "unix_nanos (clock \<rho>) \<le> s * 1000000000 + ?d" if "map_of payload ''exp'' = Some (GFloat f)"
  proof -
    have "clock \<rho> \<le> time_add (time_unix s) ?d"
      using ct that assms(7) by (simp add: check_times_def Let_def time_after_def split: if_splits)
    then show ?thesis
      using leq [OF assms(4) deadline_nanos(2)] deadline_nanos(1) assms(6,8) by simp
  qed
  moreover have "s * 1000000000 - ?d \<le> unix_nanos (clock \<rho>)"
    if "map_of payload ''nbf'' = Some (GFloat f)"
  proof -
    have "time_add (time_unix s) (- ?d) \<le> clock \<rho>"
      using ct that assms(7) neg by (simp add: check_times_def Let_def time_before_def split: if_splits)
    then show ?thesis
      using leq [OF deadline_nanos(2) assms(4)] deadline_nanos(1) [OF assms(8) neg(2)] assms(8) neg(2) by simp
  qed
  ultimately show ?thesis by blast
qed

text \<open>
  The type check looks at the payload after the disclosures were written back: a verified
  presentation has the expected \<open>vct\<close> in the claims that are returned, and the result repeats
  \<open>vct\<close> and \<open>sub\<close> of those claims.
\<close>
lemma verified_type:
  assumes "Verify \<rho> v raw nonce = Inr res"
  shows "ResultVCT res = string_or_empty (map_of (IssuerClaims res) ''vct'')
    \<and> ResultSubject res = string_or_empty (map_of (IssuerClaims res) ''sub'')
    \<and> (expectedVCT (vopts v) = [] \<or> ResultVCT res = expectedVCT (vopts v))"
  using assms by (auto simp: Verify_Inr result_of_Inr)

section \<open>Key binding\<close>

lemma verifyKBJWT_Inr:
  "verifyKBJWT C t jwk nonce aud = Inr () \<longleftrightarrow>
     (\<exists>kbh kbp pub. decodeJWT (KBJWT t) = Inr (kbh, kbp) \<and> jwkToPublicKey jwk = Inr pub
        \<and> verifyJWTSignature C (KBJWT t) pub (string_or_empty (map_of kbh ''alg'')) = Inr ()
        \<and> (nonce = [] \<or> string_or_empty (map_of kbp ''nonce'') = nonce)
        \<and> (aud = [] \<or> aud_matches (map_of kbp ''aud'') aud)
        \<and> string_or_empty (map_of kbp ''sd_hash'') = DigestSHA256 C (Prefix t))"
  by (auto simp: verifyKBJWT_def Let_def split: sum.splits if_splits)

lemma verify_binding_Inr:
  "verify_binding C cfg t payload nonce = Inr kb \<longleftrightarrow>
     kb = HasKeyBinding t \<and> (requireKeyBinding cfg \<longrightarrow> HasKeyBinding t)
     \<and> (HasKeyBinding t \<longrightarrow> (\<exists>jwk. extractCnf payload = Inr jwk
          \<and> verifyKBJWT C t (GMap jwk) nonce (audience cfg) = Inr ()))"
  by (cases "extractCnf payload"; cases kb) (auto simp: verify_binding_def res_bind_Inr_iff)

text \<open>
  C4: key binding: a presentation is reported as bound exactly when it carries a KB-JWT, and then the
  KB-JWT is signed under the key of the \<open>cnf\<close> claim of the verified claims, answers the verifier's
  nonce, names its audience (where these are not empty), and hashes this very issuer JWT with
  these very disclosures.
\<close>
theorem verified_key_binding:
  assumes "Verify \<rho> v raw nonce = Inr res" and "Parse raw = Inr t"
  shows "(KeyBound res \<longleftrightarrow> KBJWT t \<noteq> [])
    \<and> (KeyBound res \<longrightarrow>
        (\<exists>jwk pub kbh kbp. extractCnf (IssuerClaims res) = Inr jwk \<and> jwkToPublicKey (GMap jwk) = Inr pub
          \<and> decodeJWT (KBJWT t) = Inr (kbh, kbp)
          \<and> verifyJWTSignature (prims \<rho>) (KBJWT t) pub (string_or_empty (map_of kbh ''alg'')) = Inr ()
          \<and> (nonce = [] \<or> map_of kbp ''nonce'' = Some (GString nonce))
          \<and> (audience (vopts v) = [] \<or> aud_matches (map_of kbp ''aud'') (audience (vopts v)))
          \<and> string_or_empty (map_of kbp ''sd_hash'') = DigestSHA256 (prims \<rho>) (Prefix t)))"
proof -
  obtain st kb issuer where vb: "verify_binding (prims \<rho>) (vopts v) t (issuerPayload st) nonce = Inr kb"
    and r: "result_of (vopts v) issuer st kb = Inr res"
    using assms by (auto simp: Verify_Inr)
  have res: "IssuerClaims res = issuerPayload st" "KeyBound res = kb" using r by (simp_all add: result_of_Inr)
  have "nonce = [] \<or> map_of kbp ''nonce'' = Some (GString nonce)"
    if "nonce = [] \<or> string_or_empty (map_of kbp ''nonce'') = nonce" for kbp
    using that string_or_empty_neq by blast
  then show ?thesis
    using vb unfolding res verify_binding_Inr verifyKBJWT_Inr HasKeyBinding_def by blast
qed

lemma aud_matches_iff:
  "aud_matches a aud \<longleftrightarrow> a = Some (GString aud) \<or> (\<exists>xs. a = Some (GSlice xs) \<and> GString aud \<in> set xs)"
proof -
  have "as_string (Some x) = Some aud \<longleftrightarrow> x = GString aud" for x by (cases x) auto
  then show ?thesis by (auto simp: aud_matches_def list_ex_iff split: option.splits gval.splits)
qed

lemma later_options:
  assumes "\<forall>f \<in> set later. (\<exists>vct. f = ExpectVCT vct) \<or> (\<exists>d. f = WithClockSkew d)"
  shows "requireKeyBinding (foldl (\<lambda>c f. f c) c later) = requireKeyBinding c"
    "audience (foldl (\<lambda>c f. f c) c later) = audience c"
  using assms by (induction later arbitrary: c) (auto simp: ExpectVCT_def WithClockSkew_def)

text \<open>
  C39: a verifier built with \<open>RequireKeyBinding\<close>, whatever options stand before it and whichever other
  options after it, accepts no bearer presentation and none bound for somebody else: success means that
  the presentation carries a KB-JWT whose \<open>aud\<close> is the audience the option names, or an array that
  contains it (unless the option names the empty audience).
\<close>
theorem required_key_binding:
  assumes "v = NewVerifier res_fn (before @ RequireKeyBinding aud # later)"
    and "\<forall>f \<in> set later. (\<exists>vct. f = ExpectVCT vct) \<or> (\<exists>d. f = WithClockSkew d)"
    and "Verify \<rho> v raw nonce = Inr res"
  shows "KeyBound res \<and> (\<exists>t kbh kbp. Parse raw = Inr t \<and> decodeJWT (KBJWT t) = Inr (kbh, kbp)
    \<and> (aud = [] \<or> map_of kbp ''aud'' = Some (GString aud)
       \<or> (\<exists>xs. map_of kbp ''aud'' = Some (GSlice xs) \<and> GString aud \<in> set xs)))"
proof -
  have cfg: "requireKeyBinding (vopts v)" "audience (vopts v) = aud"
    using later_options [OF assms(2)] by (simp_all add: assms(1) NewVerifier_def RequireKeyBinding_def)
  obtain t issuer st kb where t: "Parse raw = Inr t"
    and vb: "verify_binding (prims \<rho>) (vopts v) t (issuerPayload st) nonce = Inr kb"
    and r: "result_of (vopts v) issuer st kb = Inr res"
    using assms(3) by (auto simp: Verify_Inr)
  have bound: "HasKeyBinding t" using vb cfg(1) unfolding verify_binding_Inr by blast
  then obtain jwk where "verifyKBJWT (prims \<rho>) t (GMap jwk) nonce aud = Inr ()"
    using vb unfolding verify_binding_Inr cfg(2) by blast
  then obtain kbh kbp where "decodeJWT (KBJWT t) = Inr (kbh, kbp)" "aud = [] \<or> aud_matches (map_of kbp ''aud'') aud"
    unfolding verifyKBJWT_Inr by blast
  moreover have "KeyBound res" using r vb bound by (simp add: result_of_Inr verify_binding_Inr)
  ultimately show ?thesis using t unfolding aud_matches_iff by blast
qed

text \<open>
  C7: a KB-JWT cannot be moved to another presentation: if two presentations with the same KB-JWT both
  verify, then (unless SHA-256 collides on their prefixes) they carry the same issuer JWT and the
  same disclosures, so no disclosure was added, removed or reordered.
\<close>
theorem kbjwt_not_transferable:
  assumes "Verify \<rho> v raw nonce = Inr res" and "Parse raw = Inr t"
    and "Verify \<rho>' v' raw' nonce' = Inr res'" and "Parse raw' = Inr t'"
    and "KBJWT t = KBJWT t'" and "KBJWT t \<noteq> []" and "prims \<rho> = prims \<rho>'"
    and "inj_on (sha256 (prims \<rho>)) {Prefix t, Prefix t'}"
  shows "t = t'"
proof -
  have hash: "\<exists>kbh kbp. decodeJWT (KBJWT u) = Inr (kbh, kbp)
      \<and> string_or_empty (map_of kbp ''sd_hash'') = DigestSHA256 (prims \<sigma>) (Prefix u)"
    if "Verify \<sigma> w r n = Inr rs" "Parse r = Inr u" "KBJWT u \<noteq> []" for \<sigma> w r n rs u
    using that by (auto simp: Verify_Inr verify_binding_Inr verifyKBJWT_Inr HasKeyBinding_def)
  obtain kbh kbp where d: "decodeJWT (KBJWT t) = Inr (kbh, kbp)"
    "string_or_empty (map_of kbp ''sd_hash'') = DigestSHA256 (prims \<rho>) (Prefix t)"
    using hash [OF assms(1,2,6)] by blast
  obtain kbh' kbp' where d': "decodeJWT (KBJWT t) = Inr (kbh', kbp')"
    "string_or_empty (map_of kbp' ''sd_hash'') = DigestSHA256 (prims \<rho>) (Prefix t')"
    using hash [OF assms(3,4)] assms(5,6,7) by metis
  have "sha256 (prims \<rho>) (Prefix t) = sha256 (prims \<rho>) (Prefix t')"
    using d d' by simp
  then have "Prefix t = Prefix t'" using inj_onD [OF assms(8)] by blast
  then show ?thesis
    using Prefix_inj [of t t'] assms(2,4,5) Parse_iff by (metis token.equality unit.exhaust)
qed

section \<open>Errors\<close>

text \<open>The stages of \<open>Verify\<close> and the sentinel each reports.\<close>

definition stage_errors :: "(string \<times> sentinel) list" where
  "stage_errors =
     [(''parse'', ErrInvalidFormat), (''issuer_jwt_decode'', ErrInvalidFormat),
      (''key_resolution'', ErrKeyResolutionFailed), (''signature'', ErrSignatureInvalid),
      (''exp'', ErrTokenExpired), (''nbf'', ErrTokenNotYetValid),
      (''sd_alg'', ErrUnsupportedHashAlgorithm), (''disclosure_collect'', ErrNestingTooDeep),
      (''disclosure_parse'', ErrDisclosureInvalid), (''disclosure_hash'', ErrDisclosureMismatch),
      (''disclosure_duplicate'', ErrDisclosureDuplicate),
      (''kbjwt'', ErrKBJWTRequired), (''cnf'', ErrCnfMissing),
      (''kbjwt_decode'', ErrKBJWTInvalid), (''kbjwt_key'', ErrKBJWTInvalid), (''kbjwt_sig'', ErrKBJWTInvalid),
      (''kbjwt_nonce'', ErrKBJWTNonceMismatch), (''kbjwt_aud'', ErrKBJWTAudMismatch),
      (''kbjwt_sd_hash'', ErrKBJWTHashMismatch), (''vct'', ErrVCTMismatch)]"

definition staged :: "goerr \<Rightarrow> bool" where
  "staged e \<longleftrightarrow> (\<exists>stage e' s. e = VerificationError stage e' \<and> (stage, s) \<in> set stage_errors \<and> errors_Is e' s)"

lemma stage_intros:
  "(stage, s) \<in> set stage_errors \<Longrightarrow> errors_Is e s \<Longrightarrow> staged (VerificationError stage e)"
  by (auto simp: staged_def)

lemma staged_facts [simp]:
  "staged (VerificationError ''parse'' (Sentinel ErrInvalidFormat))"
  "staged (VerificationError ''issuer_jwt_decode'' (Sentinel ErrInvalidFormat))"
  "staged (VerificationError ''key_resolution'' (Sentinel ErrKeyResolutionFailed))"
  "staged (VerificationError ''signature'' (Sentinel ErrSignatureInvalid))"
  "staged (VerificationError ''exp'' (Sentinel ErrTokenExpired))"
  "staged (VerificationError ''nbf'' (Sentinel ErrTokenNotYetValid))"
  "staged (VerificationError ''sd_alg'' (Sentinel ErrUnsupportedHashAlgorithm))"
  "staged (VerificationError ''disclosure_collect'' (Sentinel ErrNestingTooDeep))"
  "staged (VerificationError ''kbjwt'' (Sentinel ErrKBJWTRequired))"
  "staged (VerificationError ''cnf'' (Sentinel ErrCnfMissing))"
  "staged (VerificationError ''kbjwt_decode'' (Sentinel ErrKBJWTInvalid))"
  "staged (VerificationError ''kbjwt_sig'' (Sentinel ErrKBJWTInvalid))"
  "staged (VerificationError ''kbjwt_nonce'' (Sentinel ErrKBJWTNonceMismatch))"
  "staged (VerificationError ''kbjwt_aud'' (Sentinel ErrKBJWTAudMismatch))"
  "staged (VerificationError ''kbjwt_sd_hash'' (Sentinel ErrKBJWTHashMismatch))"
  "staged (VerificationError ''vct'' (Sentinel ErrVCTMismatch))"
  "staged (VerificationError ''issuer_jwt_decode'' (Errorf (Wrapped (Sentinel ErrInvalidFormat) # ps)))"
  "staged (VerificationError ''key_resolution'' (Errorf (Wrapped (Sentinel ErrKeyResolutionFailed) # ps)))"
  "staged (VerificationError ''kbjwt_key'' (Errorf (Wrapped (Sentinel ErrKBJWTInvalid) # ps)))"
  by (rule stage_intros; simp add: stage_errors_def)+

lemma staged_authenticate: "authenticate \<rho> v t = Inl e \<Longrightarrow> staged e"
  by (auto simp: authenticate_def Let_def split: sum.splits if_splits)

lemma staged_times: "check_times \<rho> skew p = Inl e \<Longrightarrow> staged e"
  by (auto simp: check_times_def Let_def split: if_splits)

lemma staged_claims: 
  assumes "verify_claims \<rho> t p = Inl e"
  shows "staged e"
proof -
  consider "sd_hash_alg p = Inl e"
    | e' where "collectDigests \<rho> [] p 0 = Inl e'" "e = VerificationError ''disclosure_collect'' e'"
    | h D where "sd_hash_alg p = Inr h" "disclosure_loop (prims \<rho>) h D (Disclosures t) (start_state p) = Inl e"
    using assms unfolding verify_claims_def start_state_def [symmetric]
    by (auto simp: res_bind_Inl_iff map_err_Inl_iff)
  then show ?thesis
  proof cases
    case 1
    then show ?thesis
      by (auto simp: sd_hash_alg_def Let_def split: sum.splits)
  next
    case 2
    then have "e' = Sentinel ErrNestingTooDeep" using collect_err(1) by blast
    then show ?thesis using 2 by simp
  next
    case 3
    then obtain enc st' where "verify_disclosure (prims \<rho>) h D enc st' = Inl e"
      using disclosure_loop_Inl by blast
    from verify_disclosure_Inl [OF this sd_hash_alg_supported [OF 3(1)]]
    obtain stage e' s where "e = VerificationError stage e'" "errors_Is e' s" and
      s: "(stage, s) \<in> {(''disclosure_parse'', ErrDisclosureInvalid),
        (''disclosure_hash'', ErrDisclosureMismatch), (''disclosure_duplicate'', ErrDisclosureDuplicate)}"
      by blast
    moreover have "(stage, s) \<in> set stage_errors" using s by (auto simp: stage_errors_def)
    ultimately show ?thesis using stage_intros by blast
  qed
qed

lemma staged_kb: "verifyKBJWT C t jwk nonce aud = Inl e \<Longrightarrow> staged e"
  by (auto simp: verifyKBJWT_def Let_def split: sum.splits if_splits)

lemma staged_binding: "verify_binding C cfg t p nonce = Inl e \<Longrightarrow> staged e"
  by (auto simp: verify_binding_def res_bind_Inl_iff dest: staged_kb split: sum.splits if_splits)

lemma staged_result: "result_of cfg issuer st kb = Inl e \<Longrightarrow> staged e"
  by (auto simp: result_of_def Let_def split: if_splits)

text \<open>
  C9: every failure of \<open>Verify\<close> is a \<open>VerificationError\<close>, which \<open>errors.As\<close> finds, with one of twenty
  stage names, and \<open>errors.Is\<close> finds in it the sentinel that belongs to the stage.
\<close>
theorem verify_errors_staged:
  assumes "Verify \<rho> v raw nonce = Inl e"
  shows "\<exists>stage e' s. e = VerificationError stage e' \<and> (stage, s) \<in> set stage_errors
    \<and> errors_Is e s \<and> errors_As_Verification e = Some (stage, e')"
proof -
  consider e' where "Parse raw = Inl e'" "e = VerificationError ''parse'' e'" | t where "authenticate \<rho> v t = Inl e"
    | p where "check_times \<rho> (clockSkew (vopts v)) p = Inl e" | t p where "verify_claims \<rho> t p = Inl e"
    | t p where "verify_binding (prims \<rho>) (vopts v) t p nonce = Inl e"
    | issuer st kb where "result_of (vopts v) issuer st kb = Inl e"
    using assms unfolding Verify_def by (auto simp: res_bind_Inl_iff map_err_Inl_iff)
  then have "staged e"
  proof cases
    case 1
    then have "e' = Sentinel ErrInvalidFormat" using Parse_err by blast
    then show ?thesis using 1 by simp
  qed (blast intro: staged_authenticate staged_times staged_claims staged_binding staged_result)+
  then show ?thesis by (auto simp: staged_def errors_As_Verification.simps)
qed

end
