(* ===== verification/Issuance.thy ===== *)
theory Issuance
  imports Issuer Verifier_Properties
begin

text \<open>
  What \<open>Issue\<close> puts into a token, seen through the definitions of the verifier: the payload of a good
  request, where the digests of its disclosures are, and that issuance succeeds.
\<close>

section \<open>Requests whose tokens can be verified\<close>

text \<open>
  \<open>issuable\<close>: names and values that JSON carries, no claim called \<open>_sd\<close>, and no structured claim that
  is itself selective. \<open>expected_claims\<close> lists the selective claims in the order in which they are
  disclosed, \<open>claims_depth\<close> bounds the nesting of the objects in the payload.
\<close>

definition value_depth_limit :: nat where
  "value_depth_limit = 9000"

fun issuable :: "gmap \<Rightarrow> string list \<Rightarrow> bool" where
  "issuable [] sel \<longleftrightarrow> True"
| "issuable ((k, GStruct fs fsel) # r) sel \<longleftrightarrow>
     k \<notin> keys r \<and> k \<noteq> ''_sd'' \<and> utf8_valid k \<and> k \<notin> set sel \<and> issuable fs fsel \<and> issuable r sel"
| "issuable ((k, v) # r) sel \<longleftrightarrow>
     k \<notin> keys r \<and> k \<noteq> ''_sd'' \<and> utf8_valid k \<and> (k \<in> set sel \<longrightarrow> k \<noteq> [])
     \<and> json_ok v \<and> decodes v \<and> json_depth v \<le> value_depth_limit \<and> issuable r sel"

fun expected_claims :: "gmap \<Rightarrow> string list \<Rightarrow> gmap" where
  "expected_claims [] sel = []"
| "expected_claims ((k, GStruct fs fsel) # r) sel = expected_claims fs fsel @ expected_claims r sel"
| "expected_claims ((k, v) # r) sel =
     (if k \<in> set sel then [(k, json_norm v)] else []) @ expected_claims r sel"

fun claims_depth :: "gmap \<Rightarrow> nat" where
  "claims_depth [] = 0"
| "claims_depth ((k, GStruct fs fsel) # r) = max (Suc (claims_depth fs)) (claims_depth r)"
| "claims_depth ((k, v) # r) = max (map_depth [(k, json_norm v)]) (claims_depth r)"

lemma issuable_plain:
  "\<not> is_struct v \<Longrightarrow> issuable ((k, v) # r) sel \<longleftrightarrow>
     k \<notin> keys r \<and> k \<noteq> ''_sd'' \<and> utf8_valid k \<and> (k \<in> set sel \<longrightarrow> k \<noteq> [])
     \<and> json_ok v \<and> decodes v \<and> json_depth v \<le> value_depth_limit \<and> issuable r sel"
  "\<not> is_struct v \<Longrightarrow> expected_claims ((k, v) # r) sel =
     (if k \<in> set sel then [(k, json_norm v)] else []) @ expected_claims r sel"
  "\<not> is_struct v \<Longrightarrow> claims_depth ((k, v) # r) = max (map_depth [(k, json_norm v)]) (claims_depth r)"
  by (cases v; simp add: is_struct_def)+

section \<open>Objects that survive the trip\<close>

text \<open>\<open>carried D J m\<close>: JSON carries the object \<open>m\<close>, with at most \<open>D\<close> levels of objects below it.\<close>

definition carried :: "nat \<Rightarrow> nat \<Rightarrow> gmap \<Rightarrow> bool" where
  "carried D J m \<longleftrightarrow>
     distinct (map fst m) \<and> json_ok_fields m \<and> decodes_fields m \<and> json_depth_fields m \<le> J
     \<and> map_depth (json_norm_fields m) \<le> D"

lemma map_depth_append: "map_depth (a @ b) = max (map_depth a) (map_depth b)"
  by (induction a rule: map_depth.induct) auto

lemma fields_append:
  "json_ok_fields (a @ b) \<longleftrightarrow> json_ok_fields a \<and> json_ok_fields b"
  "decodes_fields (a @ b) \<longleftrightarrow> decodes_fields a \<and> decodes_fields b"
  "json_depth_fields (a @ b) = max (json_depth_fields a) (json_depth_fields b)"
  "json_norm_fields (a @ b) = json_norm_fields a @ json_norm_fields b"
  by (induction a) auto

lemma carried_append:
  "carried D J (a @ b) \<longleftrightarrow> carried D J a \<and> carried D J b \<and> keys a \<inter> keys b = {}"
  by (auto simp: carried_def fields_append map_depth_append keys_def)

lemma carried_single:
  "carried D J [(k, v)] \<longleftrightarrow>
     utf8_valid k \<and> json_ok v \<and> decodes v \<and> json_depth v \<le> J \<and> map_depth [(k, json_norm v)] \<le> D"
  by (auto simp: carried_def)

lemma carried_Nil [simp]: "carried D J []"
  by (simp add: carried_def)

lemma map_depth_view: "map_depth (header_view m) = map_depth (json_norm_fields m)"
  by (rule map_depth_cong) (simp add: header_view_def)

lemma json_norm_GMap: "json_norm (GMap m) = GMap (header_view m)"
  by (simp add: header_view_def)

lemma map_depth_single: "map_depth [(k, GMap n)] = Suc (map_depth n)"
  by simp

lemma carried_nested:
  "carried D J m \<Longrightarrow> utf8_valid k \<Longrightarrow> carried (Suc D) (Suc J) [(k, GMap m)]"
  unfolding carried_single json_norm_GMap map_depth_single map_depth_view
  by (simp add: carried_def)

lemma carried_mono: "carried D J m \<Longrightarrow> D \<le> D' \<Longrightarrow> J \<le> J' \<Longrightarrow> carried D' J' m"
  by (auto simp: carried_def)

section \<open>Embedded digests of a marshalled object\<close>

lemma embeds_view_here:
  "distinct (map fst m) \<Longrightarrow> map_of m ''_sd'' = Some (GStrings ds) \<Longrightarrow> dg \<in> set ds \<Longrightarrow>
     embeds (header_view m) [] dg"
  by (auto simp: embeds_Nil_iff map_of_view)

lemma set_json_norm_fields: "set (json_norm_fields m) = (\<lambda>(k, v). (k, json_norm v)) ` set m"
  by (induction m) auto

lemma embeds_view_there:
  "(k, GMap n) \<in> set m \<Longrightarrow> embeds (header_view n) p dg \<Longrightarrow> embeds (header_view m) (k # p) dg"
proof -
  assume "(k, GMap n) \<in> set m" "embeds (header_view n) p dg"
  moreover from this have "(k, GMap (header_view n)) \<in> set (header_view m)"
    by (force simp: header_view_def set_json_norm_fields image_iff)
  ultimately show ?thesis by (blast intro: embeds.there)
qed

section \<open>One disclosure\<close>

text \<open>What the issuer appends when it discloses a claim, as the other parties see it.\<close>

definition disclosed_as :: "crypto \<Rightarrow> hash \<Rightarrow> string \<Rightarrow> string \<Rightarrow> bool" where
  "disclosed_as C h enc dg \<longleftrightarrow>
     (\<exists>d. ParseDisclosure enc = Inr d) \<and> Digest C h enc = Inr dg \<and> enc \<noteq> [] \<and> CHR ''~'' \<notin> set enc"

lemma disclose_Inr:
  assumes "disclose C R h k v st = (Inr dg, st')"
    and "utf8_valid k" "k \<noteq> []" "json_ok v" "decodes v" "json_depth v \<le> value_depth_limit"
  obtains enc where "allDisclosures st' = allDisclosures st @ [enc]" "disclosed_as C h enc dg"
    "name_of enc = Some (k, json_norm v)" "utf8_valid dg"
proof -
  obtain salt enc where d: "Disclosure_Digest C h \<lparr>Salt = b64_enc salt, Key = k, Value = v\<rparr> = Inr (enc, dg)"
    and st: "allDisclosures st' = allDisclosures st @ [enc]"
    using assms(1)
    by (auto simp: disclose_def NewDisclosure_def randomSalt_def split: prod.splits sum.splits option.splits)
  let ?d = "\<lparr>Salt = b64_enc salt, Key = k, Value = v\<rparr>"
  have enc: "Encode ?d = Inr enc" and dg: "Digest C h enc = Inr dg"
    using d by (auto simp: Disclosure_Digest_def res_bind_Inr_iff)
  have "ok_disclosure ?d"
    using assms(2-6) by (simp add: ok_disclosure_def b64_utf8_valid value_depth_limit_def json_max_depth_def)
  then have p: "ParseDisclosure enc = Inr (norm_disclosure ?d)" using enc by (rule parse_encode)
  have "disclosed_as C h enc dg"
    using p dg Encode_segment [OF enc] by (auto simp: disclosed_as_def)
  moreover have "name_of enc = Some (k, json_norm v)"
    using p assms(3) by (simp add: name_of_def norm_disclosure_def)
  moreover have "utf8_valid dg" using dg by (auto simp: Digest_Inr_iff b64_utf8_valid)
  ultimately show ?thesis using st that by blast
qed

section \<open>What the loop leaves\<close>

text \<open>
  \<open>loop_result C h claims sel extra ds new\<close>: the fields \<open>extra\<close> and the digests \<open>ds\<close> were added to the
  object and its \<open>_sd\<close> array, the encoded disclosures \<open>new\<close> to the token: they name the expected
  claims, and the digest of each is in the array or inside one of the added objects.
\<close>

definition json_bound :: "gmap \<Rightarrow> nat" where
  "json_bound claims = Suc (value_depth_limit + struct_depth claims)"

definition placed :: "string list \<Rightarrow> gmap \<Rightarrow> string \<Rightarrow> bool" where
  "placed ds m dg \<longleftrightarrow> dg \<in> set ds \<or> (\<exists>k n p. (k, GMap n) \<in> set m \<and> embeds (header_view n) p dg)"

definition opens_in :: "crypto \<Rightarrow> hash \<Rightarrow> string list \<Rightarrow> gmap \<Rightarrow> string \<Rightarrow> bool" where
  "opens_in C h ds m enc \<longleftrightarrow> (\<exists>dg. disclosed_as C h enc dg \<and> placed ds m dg)"

definition loop_result ::
  "crypto \<Rightarrow> hash \<Rightarrow> gmap \<Rightarrow> string list \<Rightarrow> gmap \<Rightarrow> string list \<Rightarrow> string list \<Rightarrow> bool" where
  "loop_result C h claims sel extra ds new \<longleftrightarrow>
     keys extra \<subseteq> keys claims \<and> carried (claims_depth claims) (json_bound claims) extra
     \<and> list_all utf8_valid ds \<and> named_claims new = expected_claims claims sel
     \<and> (\<forall>enc \<in> set new. opens_in C h ds extra enc)"

lemma placed_mono: "placed ds m dg \<Longrightarrow> set ds \<subseteq> set ds' \<Longrightarrow> set m \<subseteq> set m' \<Longrightarrow> placed ds' m' dg"
  unfolding placed_def by blast

lemma opens_in_mono:
  "opens_in C h ds m enc \<Longrightarrow> set ds \<subseteq> set ds' \<Longrightarrow> set m \<subseteq> set m' \<Longrightarrow> opens_in C h ds' m' enc"
  unfolding opens_in_def using placed_mono by metis

lemma loop_result_Nil: "loop_result C h [] sel [] [] []"
  by (simp add: loop_result_def)

lemma loop_result_clear:
  assumes "loop_result C h r sel extra ds new" and "\<not> is_struct v" "k \<notin> set sel"
    and "issuable ((k, v) # r) sel"
  shows "loop_result C h ((k, v) # r) sel ((k, v) # extra) ds new"
proof -
  have k: "k \<notin> keys r" "utf8_valid k" "json_ok v" "decodes v" "json_depth v \<le> value_depth_limit"
    using assms(4) by (simp_all add: issuable_plain [OF assms(2)])
  have "carried (claims_depth ((k, v) # r)) (json_bound ((k, v) # r)) ([(k, v)] @ extra)"
    unfolding carried_append
  proof (intro conjI)
    show "carried (claims_depth ((k, v) # r)) (json_bound ((k, v) # r)) [(k, v)]"
      using k by (simp add: carried_single issuable_plain [OF assms(2)] json_bound_def del: map_depth.simps)
    show "carried (claims_depth ((k, v) # r)) (json_bound ((k, v) # r)) extra"
      by (rule carried_mono [of "claims_depth r" "json_bound r"])
         (use assms(1,2) in \<open>simp_all add: loop_result_def issuable_plain json_bound_def struct_depth_plain\<close>)
    show "keys [(k, v)] \<inter> keys extra = {}"
      using assms(1) k by (auto simp: loop_result_def)
  qed
  moreover have "opens_in C h ds ((k, v) # extra) enc" if "opens_in C h ds extra enc" for enc
    using opens_in_mono [OF that] by (metis order_refl set_subset_Cons)
  ultimately show ?thesis
    using assms(1,3) by (auto simp: loop_result_def issuable_plain [OF assms(2)])
qed

lemma loop_result_hidden:
  assumes "loop_result C h r sel extra ds new" and "\<not> is_struct v" "k \<in> set sel"
    and "disclosed_as C h enc dg" "name_of enc = Some (k, json_norm v)" "utf8_valid dg"
  shows "loop_result C h ((k, v) # r) sel extra (dg # ds) (enc # new)"
proof -
  have "carried (claims_depth ((k, v) # r)) (json_bound ((k, v) # r)) extra"
    by (rule carried_mono [of "claims_depth r" "json_bound r"])
       (use assms(1,2) in \<open>simp_all add: loop_result_def issuable_plain json_bound_def struct_depth_plain\<close>)
  moreover have "opens_in C h (dg # ds) extra e" if "opens_in C h ds extra e" for e
    using opens_in_mono [OF that] by (metis order_refl set_subset_Cons)
  moreover have "opens_in C h (dg # ds) extra enc"
    using assms(4) by (auto simp: opens_in_def placed_def)
  ultimately show ?thesis
    using assms by (auto simp: loop_result_def issuable_plain)
qed

text \<open>The finished object: the digests under \<open>_sd\<close>, if there are any.\<close>

definition with_sd :: "gmap \<Rightarrow> string list \<Rightarrow> gmap" where
  "with_sd base ds = (if ds \<noteq> [] then AList.update ''_sd'' (GStrings ds) base else base)"

lemma sd_utf8: "utf8_valid ''_sd''"
  by (rule ascii_utf8_valid) simp

lemma carried_with_sd:
  assumes "carried D J base" "list_all utf8_valid ds" "1 \<le> J" "''_sd'' \<notin> keys base"
  shows "carried D J (with_sd base ds)"
proof -
  have "carried D J [(''_sd'', GStrings ds)]"
    using assms(2,3) sd_utf8 by (simp add: carried_single)
  then show ?thesis using assms by (auto simp: with_sd_def update_new carried_append)
qed

lemma placed_embeds:
  assumes "placed ds base dg" "distinct (map fst base)" "''_sd'' \<notin> keys base"
  shows "\<exists>p. embeds (header_view (with_sd base ds)) p dg"
proof (cases "dg \<in> set ds")
  case True
  then have ds: "ds \<noteq> []" by auto
  have "map_of (with_sd base ds) ''_sd'' = Some (GStrings ds)" "distinct (map fst (with_sd base ds))"
    using ds assms(2) by (simp_all add: with_sd_def)
  then show ?thesis using embeds_view_here True by blast
next
  case False
  then obtain k n p where "(k, GMap n) \<in> set base" "embeds (header_view n) p dg"
    using assms(1) by (auto simp: placed_def)
  moreover have "set base \<subseteq> set (with_sd base ds)"
    using assms(3) by (auto simp: with_sd_def update_new)
  ultimately show ?thesis using embeds_view_there by blast
qed

lemma issuable_no_sd: "issuable claims sel \<Longrightarrow> ''_sd'' \<notin> keys claims"
  by (induction claims rule: claims_induct) (auto simp: issuable_plain)

lemma loop_result_nested:
  assumes "loop_result C h fs fsel base ds0 new0" "loop_result C h r sel extra ds new"
    and "issuable ((k, GStruct fs fsel) # r) sel"
  shows "loop_result C h ((k, GStruct fs fsel) # r) sel ((k, GMap (with_sd base ds0)) # extra) ds (new0 @ new)"
proof -
  let ?n = "with_sd base ds0" and ?c = "(k, GStruct fs fsel) # r"
  have k: "k \<notin> keys r" "utf8_valid k" "issuable fs fsel" using assms(3) by simp_all
  have sd: "''_sd'' \<notin> keys base"
    using assms(1) issuable_no_sd [OF k(3)] by (auto simp: loop_result_def)
  have "carried (claims_depth fs) (json_bound fs) ?n"
    using assms(1) sd by (intro carried_with_sd) (simp_all add: loop_result_def json_bound_def)
  then have "carried (Suc (claims_depth fs)) (Suc (json_bound fs)) [(k, GMap ?n)]"
    using k(2) by (rule carried_nested)
  then have n: "carried (claims_depth ?c) (json_bound ?c) [(k, GMap ?n)]"
    by (rule carried_mono) (simp_all add: json_bound_def)
  have "carried (claims_depth ?c) (json_bound ?c) extra"
    by (rule carried_mono [of "claims_depth r" "json_bound r"])
       (use assms(2) in \<open>simp_all add: loop_result_def json_bound_def\<close>)
  moreover have "keys [(k, GMap ?n)] \<inter> keys extra = {}" using assms(2) k(1) by (auto simp: loop_result_def)
  ultimately have "carried (claims_depth ?c) (json_bound ?c) ([(k, GMap ?n)] @ extra)"
    using n by (simp only: carried_append)
  moreover have "opens_in C h ds ((k, GMap ?n) # extra) e" if "opens_in C h ds extra e" for e
    using opens_in_mono [OF that] by (metis order_refl set_subset_Cons)
  moreover have "opens_in C h ds ((k, GMap ?n) # extra) e" if e: "opens_in C h ds0 base e" for e
  proof -
    obtain dg where dg: "disclosed_as C h e dg" "placed ds0 base dg" using e by (auto simp: opens_in_def)
    have "distinct (map fst base)" using assms(1) by (simp add: loop_result_def carried_def)
    then obtain p where "embeds (header_view ?n) p dg" using placed_embeds [OF dg(2) _ sd] by blast
    then have "placed ds ((k, GMap ?n) # extra) dg" by (auto simp: placed_def)
    then show ?thesis using dg(1) by (auto simp: opens_in_def)
  qed
  moreover have "named_claims (new0 @ new) = named_claims new0 @ named_claims new"
    by (simp add: named_claims_def List.map_filter_def)
  ultimately show ?thesis
    using assms(1,2) unfolding loop_result_def by (auto simp del: map_depth.simps)
qed

lemma issue_loop:
  "claims_loop C R h claims sel st d obj sd = (Inr (obj', sd'), st') \<Longrightarrow> issuable claims sel \<Longrightarrow>
     keys obj \<inter> keys claims = {} \<Longrightarrow>
     \<exists>extra ds new. obj' = obj @ extra \<and> sd' = sd @ ds \<and> allDisclosures st' = allDisclosures st @ new
       \<and> loop_result C h claims sel extra ds new"
proof (induction claims arbitrary: sel st d obj sd obj' sd' st' rule: claims_induct)
  case Nil
  then show ?case using loop_result_Nil by auto
next
  case (plain k v r)
  note iss = plain.prems(2)
  have k: "k \<notin> keys obj" "k \<notin> keys r" "issuable r sel"
    using plain.prems(3) iss by (simp_all add: issuable_plain [OF plain.hyps])
  from plain.prems(1) show ?case
  proof (cases rule: claims_loop_step)
    case clear
    have "keys (obj @ [(k, v)]) \<inter> keys r = {}" using plain.prems(3) k by auto
    then obtain extra ds new where "obj' = (obj @ [(k, v)]) @ extra" "sd' = sd @ ds"
      "allDisclosures st' = allDisclosures st @ new" "loop_result C h r sel extra ds new"
      using plain.IH [OF clear(3) k(3)] k(1) by (auto simp: update_new)
    then show ?thesis using loop_result_clear [OF _ plain.hyps clear(2) iss] by fastforce
  next
    case (hidden w st1 st2 digest)
    have w: "w = v" "st1 = st" using hidden(2) plain.hyps by auto
    have disc: "disclose C R h k v st = (Inr digest, st2)" using hidden(4) w by simp
    obtain enc where enc: "allDisclosures st2 = allDisclosures st @ [enc]" "disclosed_as C h enc digest"
      "name_of enc = Some (k, json_norm v)" "utf8_valid digest"
      by (rule disclose_Inr [OF disc]) (use iss hidden(1) in \<open>auto simp: issuable_plain [OF plain.hyps]\<close>)
    have "keys obj \<inter> keys r = {}" using plain.prems(3) by auto
    then obtain extra ds new where "obj' = obj @ extra" "sd' = (sd @ [digest]) @ ds"
      "allDisclosures st' = allDisclosures st2 @ new" "loop_result C h r sel extra ds new"
      using plain.IH [OF hidden(5) k(3)] by blast
    then show ?thesis
      using loop_result_hidden [OF _ plain.hyps hidden(1) enc(2,3,4)] enc(1) by fastforce
  next
    case (nested fs fsel n st1)
    then show ?thesis using plain.hyps by (simp add: is_struct_def)
  qed
next
  case (struct k fs fsel r)
  note iss = struct.prems(2)
  have k: "k \<notin> keys obj" "k \<notin> keys r" "issuable r sel" "issuable fs fsel" "k \<notin> set sel"
    using struct.prems(3) iss by simp_all
  from struct.prems(1) show ?case
  proof (cases rule: claims_loop_step)
    case clear
    then show ?thesis by (simp add: is_struct_def)
  next
    case hidden
    then show ?thesis using k(5) by simp
  next
    case (nested fs' fsel' n st1)
    then have b: "buildClaimsObject C R h fs fsel st (d + 1) = (Inr n, st1)" by simp
    obtain base ds0 where l: "claims_loop C R h fs fsel st (d + 1) [] [] = (Inr (base, ds0), st1)"
      and n: "n = with_sd base ds0"
      using b by (rule buildClaimsObject_loop) (auto simp: with_sd_def)
    obtain new0 where new0: "allDisclosures st1 = allDisclosures st @ new0"
      "loop_result C h fs fsel base ds0 new0"
      using struct.IH(1) [OF l k(4)] by auto
    have "keys (obj @ [(k, GMap n)]) \<inter> keys r = {}" using struct.prems(3) k by auto
    then obtain extra ds new where "obj' = (obj @ [(k, GMap n)]) @ extra" "sd' = sd @ ds"
      "allDisclosures st' = allDisclosures st1 @ new" "loop_result C h r sel extra ds new"
      using struct.IH(2) [OF nested(4) k(3)] k(1) by (auto simp: update_new)
    then show ?thesis using loop_result_nested [OF new0(2) _ iss] new0(1) n by fastforce
  qed
qed

section \<open>The issued payload\<close>

lemma carried_all: "carried D J m \<longleftrightarrow> distinct (map fst m) \<and> (\<forall>(k, v) \<in> set m. carried D J [(k, v)])"
proof (induction m)
  case (Cons kv m)
  obtain k v where kv: "kv = (k, v)" by (cases kv)
  have eq: "carried D J ((k, v) # m) \<longleftrightarrow> carried D J [(k, v)] \<and> carried D J m \<and> k \<notin> keys m"
    using carried_append [of D J "[(k, v)]" m] by simp
  show ?case unfolding kv eq Cons.IH by (auto simp: keys_def)
qed simp

lemma carried_update:
  "carried D J m \<Longrightarrow> carried D J [(k, v)] \<Longrightarrow> carried D J (AList.update k v m)"
  unfolding carried_all [of D J m] carried_all [of D J "AList.update k v m"]
  using set_update_subset [of k v m] by auto

lemma carried_assign_all:
  "carried D J m \<Longrightarrow> \<forall>(k, v) \<in> set L. carried D J [(k, v)] \<Longrightarrow> carried D J (assign_all m L)"
proof (induction L arbitrary: m)
  case (Cons kv L)
  obtain k v where kv: "kv = (k, v)" by (cases kv)
  have "carried D J (AList.update k v m)" using Cons.prems kv by (intro carried_update) auto
  then show ?case using Cons.IH [of "AList.update k v m"] Cons.prems(2) kv by simp
qed simp

definition issued_nbf :: "issue_request \<Rightarrow> gtime \<Rightarrow> gtime" where
  "issued_nbf req now = (if is_zero_time (NotBefore req) then now else NotBefore req)"

definition issued_exp :: "issuer \<Rightarrow> issue_request \<Rightarrow> gtime \<Rightarrow> gtime" where
  "issued_exp I req now =
     (if is_zero_time (ExpiresAt req) then time_add now (tokenTTL (opts I)) else ExpiresAt req)"

text \<open>The assignments of registered claims as one list, and the names they use.\<close>

definition registered_list :: "issuer \<Rightarrow> issue_request \<Rightarrow> gtime \<Rightarrow> string \<Rightarrow> gmap \<Rightarrow> gmap" where
  "registered_list I req now sdAlg cnf =
     [(''iss'', GString (issuer_id I)), (''iat'', GInt (unix_of now)),
      (''nbf'', GInt (unix_of (issued_nbf req now))), (''exp'', GInt (unix_of (issued_exp I req now))),
      (''vct'', GString (VCT req)), (''_sd_alg'', GString sdAlg)]
     @ (if Subject req \<noteq> [] then [(''sub'', GString (Subject req))] else [])
     @ (if schemaURI (opts I) \<noteq> [] then [(''vct#integrity'', GString (schemaURI (opts I)))] else [])
     @ cnf"

definition registered_names :: "string set" where
  "registered_names =
     {''iss'', ''iat'', ''nbf'', ''exp'', ''vct'', ''_sd_alg'', ''sub'', ''vct#integrity'', ''cnf''}"

lemma registered_assign:
  "registered I req now sdAlg m = assign_all m (registered_list I req now sdAlg [])"
  by (simp add: registered_def registered_list_def issued_nbf_def issued_exp_def Let_def assign_all_append)

text \<open>
  Holder keys: a confirmation claim made of strings, floats and empty objects, such as \<open>buildCnf\<close> makes of
  a JWK of strings and of the key structs of the standard library.
\<close>

fun plain_value :: "gval \<Rightarrow> bool" where
  "plain_value (GString s) = utf8_valid s"
| "plain_value (GFloat f) = (float_text_ok f \<and> float_reads_back f)"
| "plain_value (GMap n) = (n = [])"
| "plain_value _ = False"

definition plain_view :: "gmap \<Rightarrow> bool" where
  "plain_view m \<longleftrightarrow> distinct (map fst m) \<and> list_all (\<lambda>(k, v). utf8_valid k \<and> plain_value v) m"

definition jwk_ok :: "gmap \<Rightarrow> bool" where
  "jwk_ok jwk \<longleftrightarrow> portable (GMap jwk) \<and> plain_view (header_view jwk)"

definition flat_jwk :: "gmap \<Rightarrow> bool" where
  "flat_jwk jwk \<longleftrightarrow> distinct (map fst jwk)
     \<and> list_all (\<lambda>(k, v). utf8_valid k \<and> (case v of GString s \<Rightarrow> utf8_valid s | _ \<Rightarrow> False)) jwk"

lemma plain_value_facts:
  "plain_value v \<Longrightarrow> json_norm v = v \<and> json_ok v \<and> decodes v \<and> json_depth v \<le> 1"
  by (cases v rule: plain_value.cases) simp_all

lemma plain_view_facts:
  assumes "plain_view m"
  shows "json_norm_fields m = m" "carried 1 1 m" "\<not> embeds m p s"
proof -
  have m: "\<forall>(k, v) \<in> set m. utf8_valid k \<and> plain_value v" and d: "distinct (map fst m)"
    using assms by (auto simp: plain_view_def list_all_iff)
  from m have "json_norm_fields m = m \<and> json_ok_fields m \<and> decodes_fields m \<and> json_depth_fields m \<le> 1
      \<and> map_depth m \<le> 1"
  proof (induction m rule: map_depth.induct)
    case (2 k n r)
    then show ?case by simp
  qed (auto dest!: plain_value_facts)
  then show "json_norm_fields m = m" "carried 1 1 m" using d by (simp_all add: carried_def)
  have "map_of m k \<noteq> Some (GSlice hs)" "(k, GMap n) \<in> set m \<Longrightarrow> n = []" for k hs n
    using m by (auto dest!: map_of_SomeD)
  moreover have "\<not> embeds [] q s" for q by (cases q) (simp_all add: embeds_Nil_iff embeds_Cons_iff)
  ultimately show "\<not> embeds m p s"
    by (cases p) (simp add: embeds_Nil_iff, metis embeds_Cons_iff)
qed

lemma jwk_view_again:
  assumes "jwk_ok jwk"
  shows "header_view (header_view jwk) = header_view jwk"
  using plain_view_facts(1) [of "header_view jwk"] assms unfolding jwk_ok_def
  by (simp add: header_view_def [of "header_view jwk"]) (simp add: header_view_def sort_key_id_if_sorted)

lemma flat_jwk_plain: "flat_jwk jwk \<Longrightarrow> plain_view jwk"
  unfolding flat_jwk_def plain_view_def list_all_iff by (fastforce split: gval.splits)

lemma header_view_flat: "flat_jwk jwk \<Longrightarrow> header_view jwk = sort_key fst jwk"
  by (simp add: header_view_def plain_view_facts flat_jwk_plain)

lemma flat_sorted: "flat_jwk jwk \<Longrightarrow> flat_jwk (sort_key fst jwk)"
  by (simp add: flat_jwk_def distinct_map list_all_iff)

lemma flat_jwk_ok:
  assumes "flat_jwk jwk"
  shows "jwk_ok jwk"
proof -
  have "carried 1 1 jwk" using assms by (intro plain_view_facts flat_jwk_plain)
  then have "portable (GMap jwk)" by (simp add: carried_def portable_def json_max_depth_def)
  then show ?thesis using flat_jwk_plain [OF flat_sorted [OF assms]] header_view_flat [OF assms] by (simp add: jwk_ok_def)
qed

definition cnf_entry :: "pubkey option \<Rightarrow> gmap" where
  "cnf_entry key =
     (case key of None \<Rightarrow> []
      | Some pub \<Rightarrow> (case key_json pub of GMap jwk \<Rightarrow> [(''cnf'', GMap [(''jwk'', GMap (header_view jwk))])] | _ \<Rightarrow> []))"

definition holder_key_ok :: "pubkey option \<Rightarrow> bool" where
  "holder_key_ok key \<longleftrightarrow>
     (case key of None \<Rightarrow> True | Some pub \<Rightarrow> (case key_json pub of GMap jwk \<Rightarrow> jwk_ok jwk | _ \<Rightarrow> False))"

lemma buildCnf_view:
  assumes "key_json pub = GMap jwk" "portable (GMap jwk)"
  shows "buildCnf pub = Inr [(''jwk'', GMap (header_view jwk))]"
proof -
  obtain t where "json_enc (GMap jwk) = Some t" "unmarshal_map t = Some (header_view jwk)"
    unfolding header_view_def by (rule unmarshal_marshal_map [OF assms(2)])
  then show ?thesis by (simp add: buildCnf_def assms(1) del: json_enc.simps)
qed

lemma holder_key_cases:
  assumes "holder_key_ok key" "(k, v) \<in> set (cnf_entry key)"
  obtains pub jwk where "key = Some pub" "key_json pub = GMap jwk" "jwk_ok jwk" "k = ''cnf''"
    "v = GMap [(''jwk'', GMap (header_view jwk))]"
  using assms by (auto simp: holder_key_ok_def cnf_entry_def split: option.splits gval.splits)

lemma add_cnf_assign:
  assumes "holder_key_ok key"
  shows "add_cnf key m = Inr (assign_all m (cnf_entry key))"
  using assms buildCnf_view
  by (auto simp: add_cnf_def cnf_entry_def holder_key_ok_def jwk_ok_def split: option.splits gval.splits)

lemma drop_empty_sd_id: "as_strings (map_of m ''_sd'') \<noteq> Some [] \<Longrightarrow> drop_empty_sd m = m"
  by (simp add: drop_empty_sd_def)

lemma registered_list_keys:
  "keys (registered_list I req now sdAlg (cnf_entry key)) \<subseteq> registered_names"
  by (auto simp: registered_list_def registered_names_def cnf_entry_def split: option.splits gval.splits)

lemma sd_not_registered: "''_sd'' \<notin> registered_names"
  by (simp add: registered_names_def)

lemma map_of_assign_other: "k \<notin> keys L \<Longrightarrow> map_of (assign_all m L) k = map_of m k"
proof -
  assume "k \<notin> keys L"
  then have "map_of (rev L) k = None" using keys_iff [of k "rev L"] by (auto simp: keys_def)
  then show ?thesis by (simp add: map_of_assign_all map_add_def)
qed

lemma map_of_registered:
  assumes "(k, v) \<in> set (registered_list I req now sdAlg (cnf_entry key))"
  shows "map_of (assign_all m (registered_list I req now sdAlg (cnf_entry key))) k = Some v"
proof -
  let ?L = "registered_list I req now sdAlg (cnf_entry key)"
  have "distinct (map fst ?L)"
    by (auto simp: registered_list_def cnf_entry_def split: option.splits gval.splits)
  then have "map_of (rev ?L) k = Some v" using assms by (simp add: distinct_map rev_map [symmetric])
  then show ?thesis by (simp add: map_of_assign_all map_add_def)
qed

lemma with_decoys_Inr:
  assumes "with_decoys R n m i = (Inr m', j)" and "map_of m ''_sd'' = (if ds = [] then None else Some (GStrings ds))"
  shows "\<exists>decoys. list_all utf8_valid decoys \<and> m' = (if n > 0 then AList.update ''_sd'' (GStrings (ds @ decoys)) m else m)
    \<and> length decoys = nat n"
proof -
  have add: "add_decoys R k ss i = (Inr r, j) \<Longrightarrow>
      \<exists>decoys. list_all utf8_valid decoys \<and> r = ss @ decoys \<and> length decoys = k" for k ss i r
  proof (induction k arbitrary: ss i)
    case (Suc k)
    then obtain b where "add_decoys R k (ss @ [b64_enc b]) (Suc i) = (Inr r, j)"
      by (auto simp: randomSalt_def split: option.splits)
    then obtain ds' where "list_all utf8_valid ds'" "r = (ss @ [b64_enc b]) @ ds'" "length ds' = k"
      using Suc.IH by blast
    then show ?case by (intro exI [of _ "b64_enc b # ds'"]) (simp add: b64_utf8_valid)
  qed simp
  have ds: "(case as_strings (map_of m ''_sd'') of None \<Rightarrow> [] | Some ss \<Rightarrow> ss) = ds"
    using assms(2) by auto
  show ?thesis
  proof (cases "n > 0")
    case True
    then obtain r where "add_decoys R (nat n) ds i = (Inr r, j)" "m' = AList.update ''_sd'' (GStrings r) m"
      using assms(1) unfolding with_decoys_def Let_def ds by (auto split: prod.splits sum.splits)
    then show ?thesis using add True by force
  next
    case False
    then show ?thesis using assms(1) by (auto simp: with_decoys_def intro: exI [of _ "[]"])
  qed
qed

section \<open>Issued tokens\<close>

lemma Issue_Inr:
  assumes "Issue C R now I req i = (Inr tok, j)"
  obtains sdAlg st obj payload p where "VCT req \<noteq> []" "SDAlgFromHash (hashAlg (opts I)) = Inr sdAlg"
    "first_missing (Claims req) (SelectiveFields req) = None"
    "buildClaimsObject C R (hashAlg (opts I)) (Claims req) (SelectiveFields req)
       \<lparr>allDisclosures = [], draws = i\<rparr> 0 = (Inr obj, st)"
    "with_decoys R (decoyCount (opts I)) obj (draws st) = (Inr payload, j)"
    "issuer_payload I req now sdAlg payload = Inr p"
    "signJWT (issuer_signer I) p = Inr (IssuerJWT tok)"
    "Disclosures tok = allDisclosures st" "KBJWT tok = []"
  using assms
  by (auto simp: Issue_def res_bind_Inr_iff simp del: buildClaimsObject.simps
      split: if_splits sum.splits option.splits prod.splits)

text \<open>The conditions under which an issued token is one that can be verified.\<close>

definition good_request :: "issuer \<Rightarrow> issue_request \<Rightarrow> gtime \<Rightarrow> bool" where
  "good_request I req now \<longleftrightarrow>
     issuable (Claims req) (SelectiveFields req) \<and> keys (Claims req) \<inter> registered_names = {}
     \<and> claims_depth (Claims req) \<le> 16 \<and> holder_key_ok (HolderKey req)
     \<and> issuer_id I \<noteq> [] \<and> list_all utf8_valid [issuer_id I, VCT req, Subject req, schemaURI (opts I),
          Algorithm (issuer_signer I), KeyID (issuer_signer I)]
     \<and> list_all (\<lambda>t. \<bar>unix_of t\<bar> < 2 ^ 53) [now, issued_nbf req now, issued_exp I req now]"

definition payload_limit :: nat where "payload_limit = 9100"

lemma struct_depth_le: "struct_depth c \<le> claims_depth c"
  by (induction c rule: claims_induct) (auto simp: issuable_plain struct_depth_plain le_max_iff_disj)

lemma carried_string: "utf8_valid k \<Longrightarrow> utf8_valid s \<Longrightarrow> carried D J [(k, GString s)]"
  by (simp add: carried_single)

lemma carried_int: "utf8_valid k \<Longrightarrow> \<bar>i\<bar> < 2 ^ 53 \<Longrightarrow> carried D J [(k, GInt i)]"
  using decodes_int [of i] by (simp add: carried_single del: decodes.simps(2) split: option.splits)

lemma registered_utf8: "k \<in> registered_names \<Longrightarrow> utf8_valid k"
  by (auto simp: registered_names_def intro!: ascii_utf8_valid)

lemma carried_cnf:
  assumes "holder_key_ok key" "(k, v) \<in> set (cnf_entry key)"
  shows "carried 16 payload_limit [(k, v)]"
proof -
  obtain jwk where jwk: "jwk_ok jwk" "k = ''cnf''" "v = GMap [(''jwk'', GMap (header_view jwk))]"
    by (rule holder_key_cases [OF assms])
  have "carried (Suc 0) (Suc 0) (header_view jwk)"
    using plain_view_facts(2) [of "header_view jwk"] jwk(1) by (simp add: jwk_ok_def)
  moreover have "utf8_valid ''jwk''" "utf8_valid ''cnf''" by (rule ascii_utf8_valid; simp)+
  ultimately have "carried (Suc (Suc (Suc 0))) (Suc (Suc (Suc 0))) [(k, v)]"
    unfolding jwk(2,3) by (intro carried_nested)
  then show ?thesis by (rule carried_mono) (simp_all add: payload_limit_def)
qed

lemma carried_registered:
  assumes "good_request I req now" "utf8_valid sdAlg"
  shows "\<forall>(k, v) \<in> set (registered_list I req now sdAlg (cnf_entry (HolderKey req))).
    carried 16 payload_limit [(k, v)]"
proof safe
  fix k v assume kv: "(k, v) \<in> set (registered_list I req now sdAlg (cnf_entry (HolderKey req)))"
  then have "k \<in> keys (registered_list I req now sdAlg (cnf_entry (HolderKey req)))"
    by (force simp: keys_def)
  then have k: "utf8_valid k" using registered_list_keys registered_utf8 by blast
  from kv consider "(k, v) \<in> set (cnf_entry (HolderKey req))"
    | s where "v = GString s" "utf8_valid s" | n where "v = GInt n" "\<bar>n\<bar> < 2 ^ 53"
    using assms by (auto simp: registered_list_def good_request_def split: if_splits)
  then show "carried 16 payload_limit [(k, v)]"
  proof cases
    case 1
    then show ?thesis by (rule carried_cnf [rotated]) (use assms(1) in \<open>simp add: good_request_def\<close>)
  qed (use k carried_string carried_int in auto)
qed

text \<open>The payload of an issued token: what it holds and where the digests are.\<close>

definition issued_payload ::
  "crypto \<Rightarrow> issuer \<Rightarrow> issue_request \<Rightarrow> gtime \<Rightarrow> string \<Rightarrow> string list \<Rightarrow> gmap \<Rightarrow> bool" where
  "issued_payload C I req now sdAlg encs m \<longleftrightarrow>
     carried 16 payload_limit m
     \<and> (\<forall>(k, v) \<in> set (registered_list I req now sdAlg (cnf_entry (HolderKey req))). map_of m k = Some v)
     \<and> (Subject req = [] \<longrightarrow> map_of m ''sub'' = None)
     \<and> named_claims encs = expected_claims (Claims req) (SelectiveFields req)
     \<and> (\<forall>enc \<in> set encs. \<exists>dg p. disclosed_as C (hashAlg (opts I)) enc dg \<and> embeds (header_view m) p dg)"

lemma placed_final:
  assumes "placed ds extra dg" "set extra \<subseteq> set m" "distinct (map fst m)"
    and "ds = [] \<or> (\<exists>ds'. map_of m ''_sd'' = Some (GStrings ds') \<and> set ds \<subseteq> set ds')"
  shows "\<exists>p. embeds (header_view m) p dg"
proof (cases "dg \<in> set ds")
  case True
  then show ?thesis using assms(3,4) embeds_view_here by fastforce
next
  case False
  then show ?thesis using assms(1,2) embeds_view_there unfolding placed_def by blast
qed

lemma assign_all_keeps:
  "set m \<subseteq> set m' \<Longrightarrow> keys m \<inter> keys L = {} \<Longrightarrow> set m \<subseteq> set (assign_all m' L)"
proof (induction L arbitrary: m')
  case (Cons kv L)
  obtain k v where kv: "kv = (k, v)" by (cases kv)
  have "set m \<subseteq> set (AList.update k v m')"
  proof
    fix x assume x: "x \<in> set m"
    then have "fst x \<noteq> k" using Cons.prems(2) kv by (force simp: keys_def)
    moreover have "x \<in> set m'" using x Cons.prems(1) by blast
    ultimately show "x \<in> set (AList.update k v m')" by (induction m') auto
  qed
  then show ?case using Cons kv by auto
qed simp

lemma object_built:
  assumes "buildClaimsObject C R (hashAlg (opts I)) (Claims req) (SelectiveFields req)
       \<lparr>allDisclosures = [], draws = i\<rparr> 0 = (Inr obj, st)"
    and "good_request I req now"
  obtains base ds where "obj = with_sd base ds"
    "loop_result C (hashAlg (opts I)) (Claims req) (SelectiveFields req) base ds (allDisclosures st)"
    "carried 16 payload_limit base" "''_sd'' \<notin> keys base"
proof -
  note req = assms(2) [unfolded good_request_def]
  let ?c = "Claims req"
  have isb: "issuable ?c (SelectiveFields req)" using req by blast
  obtain base ds where loop: "claims_loop C R (hashAlg (opts I)) ?c (SelectiveFields req)
      \<lparr>allDisclosures = [], draws = i\<rparr> 0 [] [] = (Inr (base, ds), st)" and obj: "obj = with_sd base ds"
    using assms(1) by (rule buildClaimsObject_loop) (auto simp: with_sd_def)
  have res: "loop_result C (hashAlg (opts I)) ?c (SelectiveFields req) base ds (allDisclosures st)"
    using issue_loop [OF loop isb] by auto
  have "carried (claims_depth ?c) (json_bound ?c) base" "''_sd'' \<notin> keys base"
    using res issuable_no_sd [OF isb] by (auto simp: loop_result_def)
  moreover from this(1) have "carried 16 payload_limit base"
    by (rule carried_mono)
       (use req struct_depth_le [of ?c] in \<open>auto simp: json_bound_def value_depth_limit_def payload_limit_def\<close>)
  ultimately show ?thesis using that obj res by blast
qed

lemma decoys_added:
  assumes "with_decoys R n (with_sd base ds) i = (Inr payload, j)"
    and "carried 16 payload_limit base" "''_sd'' \<notin> keys base" "list_all utf8_valid ds"
  shows "carried 16 payload_limit payload" "set base \<subseteq> set payload"
    "ds = [] \<or> (\<exists>ds'. map_of payload ''_sd'' = Some (GStrings ds') \<and> set ds \<subseteq> set ds')"
    "as_strings (map_of payload ''_sd'') \<noteq> Some []" "map_of payload ''sub'' = map_of base ''sub''"
proof -
  let ?obj = "with_sd base ds"
  have osd: "map_of ?obj ''_sd'' = (if ds = [] then None else Some (GStrings ds))"
    using assms(3) keys_iff [of "''_sd''" base] by (auto simp: with_sd_def)
  obtain decoys where dec: "list_all utf8_valid decoys"
    "payload = (if n > 0 then AList.update ''_sd'' (GStrings (ds @ decoys)) ?obj else ?obj)"
    "length decoys = nat n"
    using with_decoys_Inr [OF assms(1) osd] by blast
  have obj_c: "carried 16 payload_limit ?obj"
    using assms(2-4) by (intro carried_with_sd) (simp_all add: payload_limit_def)
  show "carried 16 payload_limit payload"
    using obj_c dec(1,2) assms(4) sd_utf8
    by (auto intro!: carried_update simp: carried_single payload_limit_def simp del: map_depth.simps) (simp add: payload_limit_def)
  show "set base \<subseteq> set payload"
    using assign_all_keeps [of base base "[(''_sd'', GStrings ds)]"]
      assign_all_keeps [of base ?obj "[(''_sd'', GStrings (ds @ decoys))]"] assms(3)
    by (auto simp: dec(2) with_sd_def)
  show "ds = [] \<or> (\<exists>ds'. map_of payload ''_sd'' = Some (GStrings ds') \<and> set ds \<subseteq> set ds')"
    using osd by (auto simp: dec(2))
  show "as_strings (map_of payload ''_sd'') \<noteq> Some []"
    using osd dec(3) by (auto simp: dec(2))
  show "map_of payload ''sub'' = map_of base ''sub''"
    by (simp add: dec(2) with_sd_def)
qed

lemma payload_assigned:
  assumes "good_request I req now" "as_strings (map_of payload ''_sd'') \<noteq> Some []"
  shows "issuer_payload I req now sdAlg payload =
    Inr (assign_all payload (registered_list I req now sdAlg (cnf_entry (HolderKey req))))"
proof -
  let ?L = "registered_list I req now sdAlg (cnf_entry (HolderKey req))"
  have "add_cnf (HolderKey req) (registered I req now sdAlg payload) = Inr (assign_all payload ?L)"
    using add_cnf_assign assms(1) unfolding good_request_def
    by (simp add: registered_assign registered_list_def flip: assign_all_append)
  moreover have "map_of (assign_all payload ?L) ''_sd'' = map_of payload ''_sd''"
    using registered_list_keys sd_not_registered by (intro map_of_assign_other) blast
  ultimately show ?thesis using drop_empty_sd_id assms(2) by (simp add: issuer_payload_def)
qed

lemma payload_built:
  assumes "good_request I req now" "SDAlgFromHash (hashAlg (opts I)) = Inr sdAlg"
    and "buildClaimsObject C R (hashAlg (opts I)) (Claims req) (SelectiveFields req)
       \<lparr>allDisclosures = [], draws = i\<rparr> 0 = (Inr obj, st)"
    and "with_decoys R (decoyCount (opts I)) obj (draws st) = (Inr payload, j)"
  obtains p where "issuer_payload I req now sdAlg payload = Inr p"
    "issued_payload C I req now sdAlg (allDisclosures st) p"
proof -
  note req = assms(1) [unfolded good_request_def]
  let ?L = "registered_list I req now sdAlg (cnf_entry (HolderKey req))"
  let ?p = "assign_all payload ?L"
  obtain base ds where obj: "obj = with_sd base ds"
    and res: "loop_result C (hashAlg (opts I)) (Claims req) (SelectiveFields req) base ds (allDisclosures st)"
    and base: "carried 16 payload_limit base" "''_sd'' \<notin> keys base"
    by (rule object_built [OF assms(3,1)])
  note lr = res [unfolded loop_result_def]
  have "list_all utf8_valid ds" using lr by blast
  note pay = decoys_added [OF assms(4) [unfolded obj] base this]
  have names: "keys ?L \<subseteq> registered_names" by (rule registered_list_keys)
  have final_sd: "map_of ?p ''_sd'' = map_of payload ''_sd''"
    using names sd_not_registered by (intro map_of_assign_other) blast
  have "utf8_valid sdAlg"
    using assms(2) by (auto simp: SDAlgFromHash_def intro!: ascii_utf8_valid split: if_splits)
  then have fin_c: "carried 16 payload_limit ?p"
    using pay(1) carried_registered [OF assms(1)] by (intro carried_assign_all) auto
  have kc: "keys base \<inter> keys ?L = {}" using lr req names by blast
  have keep: "set base \<subseteq> set ?p" using pay(2) kc by (rule assign_all_keeps)
  have dist: "distinct (map fst ?p)" using fin_c unfolding carried_def by (elim conjE)
  have "\<exists>q. embeds (header_view ?p) q dg" if "placed ds base dg" for dg
    by (rule placed_final [OF that keep dist]) (unfold final_sd, rule pay(3))
  then have "\<forall>enc \<in> set (allDisclosures st). \<exists>dg q. disclosed_as C (hashAlg (opts I)) enc dg \<and> embeds (header_view ?p) q dg"
    using lr unfolding opens_in_def by blast
  moreover have "\<forall>(k, v) \<in> set ?L. map_of ?p k = Some v"
    using map_of_registered by blast
  moreover have "map_of ?p ''sub'' = None" if "Subject req = []"
  proof -
    have "''sub'' \<notin> keys ?L" using that
      by (auto simp: registered_list_def cnf_entry_def split: option.splits gval.splits)
    then have "map_of ?p ''sub'' = map_of base ''sub''" using pay(5) map_of_assign_other by metis
    moreover have "''sub'' \<notin> keys base" using lr req by (auto simp: registered_names_def)
    ultimately show ?thesis by (simp add: keys_iff)
  qed
  ultimately have "issued_payload C I req now sdAlg (allDisclosures st) ?p"
    using fin_c lr by (simp add: issued_payload_def)
  then show ?thesis using that payload_assigned [OF assms(1) pay(4)] by blast
qed

lemma issued:
  assumes "Issue C R now I req i = (Inr tok, j)" and "good_request I req now"
  obtains sdAlg m where "SDAlgFromHash (hashAlg (opts I)) = Inr sdAlg" "VCT req \<noteq> []"
    "signJWT (issuer_signer I) m = Inr (IssuerJWT tok)" "KBJWT tok = []"
    "issued_payload C I req now sdAlg (Disclosures tok) m"
proof -
  obtain sdAlg st obj payload p where iss: "VCT req \<noteq> []" "SDAlgFromHash (hashAlg (opts I)) = Inr sdAlg"
    "buildClaimsObject C R (hashAlg (opts I)) (Claims req) (SelectiveFields req)
       \<lparr>allDisclosures = [], draws = i\<rparr> 0 = (Inr obj, st)"
    "with_decoys R (decoyCount (opts I)) obj (draws st) = (Inr payload, j)"
    "issuer_payload I req now sdAlg payload = Inr p"
    "signJWT (issuer_signer I) p = Inr (IssuerJWT tok)"
    "Disclosures tok = allDisclosures st" "KBJWT tok = []"
    by (rule Issue_Inr [OF assms(1)])
  have "issued_payload C I req now sdAlg (allDisclosures st) p"
    by (rule payload_built [OF assms(2) iss(2-4)]) (use iss(5) in simp)
  then show ?thesis using that iss by simp
qed

text \<open>Payloads that JSON carries are signed.\<close>

lemma sign_total:
  assumes "portable (GMap hdr)" "portable (GMap pl)" "\<forall>m. \<exists>sig. Sign sg m = Inr sig"
  obtains jwt where "sign_compact sg hdr pl = Inr jwt"
proof -
  obtain hb where "json_enc (GMap hdr) = Some hb" using assms(1) by (metis unmarshal_marshal)
  moreover obtain pb where "json_enc (GMap pl) = Some pb" using assms(2) by (metis unmarshal_marshal)
  moreover obtain sig where "Sign sg (signing_input hb pb) = Inr sig" using assms(3) by blast
  ultimately show ?thesis using that sign_compact_iff by metis
qed

end
