(* ===== verification/Issue_Success.thy ===== *)
theory Issue_Success
  imports Issuance
begin

text \<open>
  When \<open>Issue\<close> of \<open>issuer.go\<close> succeeds, and the disclosures it makes then: for every request whose claims
  can be marshalled, and in particular for the good requests of \<open>Issuance\<close>, which the verifier accepts.
\<close>

section \<open>What can be marshalled\<close>

text \<open>
  \<open>encodable claims\<close>: \<open>json.Marshal\<close> takes every value of the claims, in structured claims at every
  level. \<open>disclosed_names claims sel\<close>: the names of the disclosures in the order in which they are made,
  those inside a structured claim before the claim itself.
\<close>

fun encodable :: "gmap \<Rightarrow> bool" where
  "encodable [] \<longleftrightarrow> True"
| "encodable ((k, GStruct fs fsel) # r) \<longleftrightarrow> encodable fs \<and> encodable r"
| "encodable ((k, v) # r) \<longleftrightarrow> json_enc v \<noteq> None \<and> encodable r"

fun disclosed_names :: "gmap \<Rightarrow> string list \<Rightarrow> string list" where
  "disclosed_names [] sel = []"
| "disclosed_names ((k, GStruct fs fsel) # r) sel =
     disclosed_names fs fsel @ (if k \<in> set sel then [k] else []) @ disclosed_names r sel"
| "disclosed_names ((k, v) # r) sel = (if k \<in> set sel then [k] else []) @ disclosed_names r sel"

lemma encodable_plain:
  "\<not> is_struct v \<Longrightarrow> encodable ((k, v) # r) \<longleftrightarrow> json_enc v \<noteq> None \<and> encodable r"
  "\<not> is_struct v \<Longrightarrow> disclosed_names ((k, v) # r) sel = (if k \<in> set sel then [k] else []) @ disclosed_names r sel"
  by (cases v; simp add: is_struct_def)+

text \<open>The holder key is one that \<open>buildCnf\<close> can embed.\<close>

definition cnf_builds :: "pubkey option \<Rightarrow> bool" where
  "cnf_builds key \<longleftrightarrow>
     (case key of None \<Rightarrow> True
      | Some pub \<Rightarrow> (case buildCnf pub of Inl _ \<Rightarrow> False | Inr cnf \<Rightarrow> json_enc (GMap cnf) \<noteq> None))"

definition marshals :: "gmap \<Rightarrow> bool" where
  "marshals m \<longleftrightarrow> (\<forall>e \<in> set m. json_enc (snd e) \<noteq> None)"

lemma json_enc_fields_iff: "json_enc_fields m \<noteq> None \<longleftrightarrow> marshals m"
proof (induction m)
  case (Cons e m)
  then show ?case by (cases e) (auto simp: marshals_def split: option.splits)
qed (simp add: marshals_def)

lemma json_enc_map: "json_enc (GMap m) \<noteq> None \<longleftrightarrow> marshals m"
  using json_enc_fields_iff [of m] by simp

lemma marshals_simps [simp]:
  "marshals []" "marshals (e # m) \<longleftrightarrow> json_enc (snd e) \<noteq> None \<and> marshals m" "marshals (a @ b) \<longleftrightarrow> marshals a \<and> marshals b"
  by (auto simp: marshals_def)

lemma marshals_subset: "marshals m \<Longrightarrow> set m' \<subseteq> set m \<Longrightarrow> marshals m'"
  unfolding marshals_def by blast

lemma marshals_assign: "marshals m \<Longrightarrow> marshals L \<Longrightarrow> marshals (assign_all m L)"
  by (rule marshals_subset [of "m @ L"]) (use set_assign_all [of m L] in simp_all)

lemma marshals_update: "marshals m \<Longrightarrow> json_enc v \<noteq> None \<Longrightarrow> marshals (AList.update k v m)"
  using marshals_assign [of m "[(k, v)]"] by simp

lemma marshals_delete: "marshals m \<Longrightarrow> marshals (AList.delete k m)"
  by (rule marshals_subset) (auto simp: AList.delete_eq)

section \<open>Issuance succeeds\<close>

text \<open>What issuance needs of its surroundings: a source of randomness and a signer that do not fail.\<close>

definition reliable :: "rng \<Rightarrow> signer \<Rightarrow> bool" where
  "reliable R sg \<longleftrightarrow> (\<forall>i n. R i n \<noteq> None) \<and> (\<forall>m. \<exists>sig. Sign sg m = Inr sig)"

text \<open>The encodings \<open>encs\<close> are those of disclosures with the names \<open>ks\<close>.\<close>

definition encodes_names :: "string list \<Rightarrow> string list \<Rightarrow> bool" where
  "encodes_names encs ks \<longleftrightarrow> (\<exists>ds. map Encode ds = map Inr encs \<and> map Key ds = ks)"

lemma encodes_names_length: "encodes_names encs ks \<Longrightarrow> length encs = length ks"
  unfolding encodes_names_def by (metis length_map)

lemma encodes_names_append:
  "encodes_names a ks \<Longrightarrow> encodes_names b ls \<Longrightarrow> encodes_names (a @ b) (ks @ ls)"
  unfolding encodes_names_def by (metis map_append)

lemma disclose_names:
  "disclose C R h k v st = (Inr dg, st') \<Longrightarrow>
     \<exists>enc. allDisclosures st' = allDisclosures st @ [enc] \<and> encodes_names [enc] [k]"
  by (auto simp: disclose_def Disclosure_Digest_def NewDisclosure_def randomSalt_def res_bind_Inr_iff encodes_names_def
      split: prod.splits sum.splits option.splits) (metis disclosure.select_convs(2) list.simps(8,9))

lemma disclose_total:
  assumes "\<forall>i n. R i n \<noteq> None" "supported_hash h" "json_enc v \<noteq> None"
  obtains dg st' where "disclose C R h k v st = (Inr dg, st')"
proof -
  obtain b where "R (draws st) DefaultSaltBytes = Some b" using assms(1) by blast
  then have new: "NewDisclosure R k v (draws st) = (Inr \<lparr>Salt = b64_enc b, Key = k, Value = v\<rparr>, Suc (draws st))"
    by (simp add: NewDisclosure_def randomSalt_def)
  obtain enc where "Encode \<lparr>Salt = b64_enc b, Key = k, Value = v\<rparr> = Inr enc"
    using assms(3) by (cases "k = []") (auto simp: Encode_def disclosure_array_def)
  moreover obtain dg where "Digest C h enc = Inr dg" using Digest_total [OF assms(2)] by blast
  ultimately show ?thesis using new that by (simp add: disclose_def Disclosure_Digest_def)
qed

lemma loop_names:
  "claims_loop C R h claims sel st d obj sd = (Inr out, st') \<Longrightarrow>
     \<exists>new. allDisclosures st' = allDisclosures st @ new \<and> encodes_names new (disclosed_names claims sel)"
proof (induction claims arbitrary: sel st d obj sd out st' rule: claims_induct)
  case Nil
  then show ?case by (auto simp: encodes_names_def)
next
  case (plain k v r)
  from plain.prems show ?case
  proof (cases rule: claims_loop_step)
    case clear
    then show ?thesis using plain.IH [OF clear(3)] by (simp add: encodable_plain)
  next
    case (hidden w st1 st2 digest)
    then have "allDisclosures st1 = allDisclosures st" using plain.hyps by blast
    then obtain e where e: "allDisclosures st2 = allDisclosures st @ [e]" "encodes_names [e] [k]"
      using disclose_names [OF hidden(4)] by auto
    obtain new where n: "allDisclosures st' = allDisclosures st2 @ new" "encodes_names new (disclosed_names r sel)"
      using plain.IH [OF hidden(5)] by blast
    have "encodes_names ([e] @ new) (disclosed_names ((k, v) # r) sel)"
      using encodes_names_append [OF e(2) n(2)] hidden(1) by (simp add: encodable_plain(2) [OF plain.hyps])
    moreover have "allDisclosures st' = allDisclosures st @ ([e] @ new)" using n(1) e(1) by simp
    ultimately show ?thesis by blast
  next
    case (nested fs fsel n st1)
    then show ?thesis using plain.hyps by (simp add: is_struct_def)
  qed
next
  case (struct k fs fsel r)
  have inner: "\<exists>new. allDisclosures st1 = allDisclosures st @ new \<and> encodes_names new (disclosed_names fs fsel)"
    if b: "buildClaimsObject C R h fs fsel st (d + 1) = (Inr n, st1)" for n st1
  proof -
    obtain base ds where "claims_loop C R h fs fsel st (d + 1) [] [] = (Inr (base, ds), st1)"
      using b by (rule buildClaimsObject_loop) auto
    then show ?thesis by (rule struct.IH(1))
  qed
  from struct.prems show ?case
  proof (cases rule: claims_loop_step)
    case clear
    then show ?thesis by (simp add: is_struct_def)
  next
    case (hidden w st1 st2 digest)
    obtain n where "buildClaimsObject C R h fs fsel st (d + 1) = (Inr n, st1)"
      using hidden(3) [OF refl] by (elim exE conjE)
    then obtain new0 where n0: "allDisclosures st1 = allDisclosures st @ new0" "encodes_names new0 (disclosed_names fs fsel)"
      using inner by blast
    obtain e where e: "allDisclosures st2 = allDisclosures st1 @ [e]" "encodes_names [e] [k]"
      using disclose_names [OF hidden(4)] by blast
    obtain new where n: "allDisclosures st' = allDisclosures st2 @ new" "encodes_names new (disclosed_names r sel)"
      using struct.IH(2) [OF hidden(5)] by blast
    have "encodes_names (new0 @ [e] @ new) (disclosed_names ((k, GStruct fs fsel) # r) sel)"
      using encodes_names_append [OF n0(2) encodes_names_append [OF e(2) n(2)]] hidden(1) by simp
    moreover have "allDisclosures st' = allDisclosures st @ (new0 @ [e] @ new)" using n(1) e(1) n0(1) by simp
    ultimately show ?thesis by blast
  next
    case (nested fs' fsel' n st1)
    then have "buildClaimsObject C R h fs fsel st (d + 1) = (Inr n, st1)" by simp
    then obtain new0 where n0: "allDisclosures st1 = allDisclosures st @ new0" "encodes_names new0 (disclosed_names fs fsel)"
      using inner by blast
    obtain new where n: "allDisclosures st' = allDisclosures st1 @ new" "encodes_names new (disclosed_names r sel)"
      using struct.IH(2) [OF nested(4)] by blast
    have "encodes_names (new0 @ new) (disclosed_names ((k, GStruct fs fsel) # r) sel)"
      using encodes_names_append [OF n0(2) n(2)] nested(2) by simp
    moreover have "allDisclosures st' = allDisclosures st @ (new0 @ new)" using n(1) n0(1) by simp
    ultimately show ?thesis by blast
  qed
qed

lemma loop_total:
  assumes "\<forall>i n. R i n \<noteq> None" "supported_hash h"
  shows "encodable claims \<Longrightarrow> d + struct_depth claims \<le> maxNestingDepth \<Longrightarrow> marshals obj \<Longrightarrow>
    \<exists>obj' sd' st'. claims_loop C R h claims sel st d obj sd = (Inr (obj', sd'), st') \<and> marshals obj'"
proof (induction claims arbitrary: sel st d obj sd rule: claims_induct)
  case (plain k v r)
  have enc: "json_enc v \<noteq> None" "encodable r" using plain.prems(1) encodable_plain(1) [OF plain.hyps] by simp_all
  have dr: "d + struct_depth r \<le> maxNestingDepth" using plain.prems(2) struct_depth_plain [OF plain.hyps] by simp
  note IH = plain.IH [OF enc(2) dr]
  obtain dg st1 where one: "disclose C R h k v st = (Inr dg, st1)"
    by (rule disclose_total [OF assms enc(1)])
  show ?case
    unfolding claims_loop_plain [OF plain.hyps] one
    using IH [OF plain.prems(3), of sel st1 "sd @ [dg]"] IH [OF marshals_update [OF plain.prems(3) enc(1)], of sel st k sd]
    by simp
next
  case (struct k fs fsel r)
  have d: "\<not> d + 1 > maxNestingDepth" "d + 1 + struct_depth fs \<le> maxNestingDepth" "d + struct_depth r \<le> maxNestingDepth"
    using struct.prems(2) by simp_all
  have enc: "encodable fs" "encodable r" using struct.prems(1) by simp_all
  obtain base ds st1 where l: "claims_loop C R h fs fsel st (d + 1) [] [] = (Inr (base, ds), st1)" "marshals base"
    using struct.IH(1) [OF enc(1) d(2) marshals_simps(1)] by blast
  define n where "n = (if ds \<noteq> [] then AList.update ''_sd'' (GStrings ds) base else base)"
  have b: "buildClaimsObject C R h fs fsel st (d + 1) = (Inr n, st1)" using l(1) d(1) by (simp add: n_def)
  have "marshals n" using l(2) by (simp add: n_def marshals_update)
  then have n: "json_enc (GMap n) \<noteq> None" by (simp only: json_enc_map)
  obtain dg st2 where one: "disclose C R h k (GMap n) st1 = (Inr dg, st2)"
    by (rule disclose_total [OF assms n])
  note IH = struct.IH(2) [OF enc(2) d(3)]
  show ?case
    using b one IH [OF struct.prems(3), of sel st2 "sd @ [dg]"]
      IH [OF marshals_update [OF struct.prems(3) n], of sel st1 k sd]
    by (simp del: buildClaimsObject.simps)
qed simp

lemma add_decoys_total: "(\<forall>i n. R i n \<noteq> None) \<Longrightarrow> \<exists>r j. add_decoys R n ss i = (Inr r, j)"
proof (induction n arbitrary: ss i)
  case (Suc n)
  then obtain b where "R i 32 = Some b" by blast
  then show ?case using Suc by (simp add: randomSalt_def)
qed simp

lemma with_decoys_total:
  assumes "\<forall>i n. R i n \<noteq> None" "marshals m"
  shows "\<exists>payload j. with_decoys R n m i = (Inr payload, j) \<and> marshals payload"
proof -
  let ?ss = "case as_strings (map_of m ''_sd'') of None \<Rightarrow> [] | Some ss \<Rightarrow> ss"
  obtain r j where "add_decoys R (nat n) ?ss i = (Inr r, j)" using add_decoys_total [OF assms(1)] by blast
  then show ?thesis using assms(2) by (simp add: with_decoys_def Let_def marshals_update)
qed

lemma first_missing_None: "set fs \<subseteq> keys claims \<Longrightarrow> first_missing claims fs = None"
  by (induction fs) (auto simp: keys_iff)

lemma payload_total:
  assumes "cnf_builds (HolderKey req)" "marshals payload"
  shows "\<exists>p. issuer_payload I req now sdAlg payload = Inr p \<and> marshals p"
proof -
  have reg: "marshals (registered I req now sdAlg payload)"
    unfolding registered_assign by (intro marshals_assign assms(2)) (simp add: registered_list_def)
  then obtain p where "add_cnf (HolderKey req) (registered I req now sdAlg payload) = Inr p" "marshals p"
    using assms(1) by (auto simp: add_cnf_def cnf_builds_def marshals_update simp del: json_enc.simps(8)
        split: option.splits sum.splits)
  then show ?thesis by (auto simp: issuer_payload_def drop_empty_sd_def marshals_delete)
qed

lemma sign_succeeds:
  assumes "\<forall>m. \<exists>sig. Sign sg m = Inr sig" "marshals payload"
  obtains jwt where "signJWT sg payload = Inr jwt"
proof -
  have "marshals (jwt_header ''vc+sd-jwt'' sg)" by (simp add: jwt_header_def)
  then obtain hb where "json_enc (GMap (jwt_header ''vc+sd-jwt'' sg)) = Some hb" using json_enc_map by blast
  moreover obtain pb where "json_enc (GMap payload) = Some pb" using json_enc_map assms(2) by blast
  moreover obtain sig where "Sign sg (signing_input hb pb) = Inr sig" using assms(1) by blast
  ultimately show ?thesis using that unfolding signJWT_def sign_compact_iff by blast
qed

lemma issue_total:
  assumes "reliable R (issuer_signer I)" and "supported_hash (hashAlg (opts I))"
    and "VCT req \<noteq> []" and "set (SelectiveFields req) \<subseteq> keys (Claims req)"
    and "encodable (Claims req)" and "struct_depth (Claims req) \<le> 16" and "cnf_builds (HolderKey req)"
  shows "\<exists>tok j ds. Issue C R now I req i = (Inr tok, j) \<and> map Encode ds = map Inr (Disclosures tok)
    \<and> map Key ds = disclosed_names (Claims req) (SelectiveFields req)"
proof -
  have R: "\<forall>i n. R i n \<noteq> None" and S: "\<forall>m. \<exists>sig. Sign (issuer_signer I) m = Inr sig"
    using assms(1) by (simp_all add: reliable_def)
  obtain sdAlg where alg: "SDAlgFromHash (hashAlg (opts I)) = Inr sdAlg" using SDAlg_total assms(2) by blast
  have d: "0 + struct_depth (Claims req) \<le> maxNestingDepth" using assms(6) by (simp add: maxNestingDepth_def)
  obtain base ds st where l: "claims_loop C R (hashAlg (opts I)) (Claims req) (SelectiveFields req)
       \<lparr>allDisclosures = [], draws = i\<rparr> 0 [] [] = (Inr (base, ds), st)" "marshals base"
    using loop_total [OF R assms(2,5) d marshals_simps(1)] by blast
  define obj where "obj = (if ds \<noteq> [] then AList.update ''_sd'' (GStrings ds) base else base)"
  have b: "buildClaimsObject C R (hashAlg (opts I)) (Claims req) (SelectiveFields req)
       \<lparr>allDisclosures = [], draws = i\<rparr> 0 = (Inr obj, st)"
    using l(1) by (simp add: obj_def)
  have "marshals obj" using l(2) by (simp add: obj_def marshals_update)
  then obtain payload j where dec: "with_decoys R (decoyCount (opts I)) obj (draws st) = (Inr payload, j)" "marshals payload"
    using with_decoys_total [OF R] by blast
  obtain p where p: "issuer_payload I req now sdAlg payload = Inr p" "marshals p"
    using payload_total [OF assms(7) dec(2)] by blast
  obtain jwt where jwt: "signJWT (issuer_signer I) p = Inr jwt" by (rule sign_succeeds [OF S p(2)])
  have "Issue C R now I req i = (Inr \<lparr>IssuerJWT = jwt, Disclosures = allDisclosures st, KBJWT = []\<rparr>, j)"
    using assms(3) alg first_missing_None [OF assms(4)] b dec(1) p(1) jwt
    by (simp add: Issue_def del: buildClaimsObject.simps)
  moreover obtain dl where "map Encode dl = map Inr (allDisclosures st)"
    "map Key dl = disclosed_names (Claims req) (SelectiveFields req)"
    using loop_names [OF l(1)] by (auto simp: encodes_names_def)
  moreover have "Disclosures \<lparr>IssuerJWT = jwt, Disclosures = allDisclosures st, KBJWT = []\<rparr> = allDisclosures st" by simp
  ultimately show ?thesis by metis
qed

text \<open>
  C16: issuance succeeds: with a source of randomness and a signer that do not fail and a supported hash,
  every request with a type, with selective names that are claims of it, with claims that \<open>json.Marshal\<close>
  takes, structured claims nested at most 16 deep (selective ones and ones named like a registered claim
  included) and a holder key that \<open>buildCnf\<close> can embed gets a token. Its disclosures are encoded
  disclosures with the names that are selective, at every level, in the order in which they are made.
\<close>
theorem issue_succeeds:
  assumes "reliable R (issuer_signer I)" and "supported_hash (hashAlg (opts I))"
    and "VCT req \<noteq> []" and "set (SelectiveFields req) \<subseteq> keys (Claims req)"
    and "encodable (Claims req)" and "struct_depth (Claims req) \<le> 16" and "cnf_builds (HolderKey req)"
  shows "\<exists>tok j ds. Issue C R now I req i = (Inr tok, j) \<and> map Encode ds = map Inr (Disclosures tok)
    \<and> map Key ds = disclosed_names (Claims req) (SelectiveFields req)"
  using assms by (rule issue_total)

section \<open>Good requests\<close>

lemma encodable_issuable: "issuable claims sel \<Longrightarrow> encodable claims"
proof (induction claims arbitrary: sel rule: claims_induct)
  case (plain k v r)
  note iss = plain.prems [unfolded issuable_plain(1) [OF plain.hyps]]
  have "json_depth v \<le> json_max_depth" using iss by (simp add: value_depth_limit_def json_max_depth_def)
  then have "json_enc v \<noteq> None" using parse_json_enc [of v] iss by blast
  moreover have "encodable r" by (rule plain.IH [of sel]) (use iss in blast)
  ultimately show ?case by (simp add: encodable_plain(1) [OF plain.hyps])
qed auto

lemma cnf_builds_ok: "holder_key_ok key \<Longrightarrow> cnf_builds key"
proof (cases key)
  case (Some pub)
  assume "holder_key_ok key"
  then obtain jwk where jwk: "key_json pub = GMap jwk" "jwk_ok jwk"
    by (auto simp: Some holder_key_ok_def split: gval.splits)
  have "portable (GMap jwk)" using jwk(2) by (simp add: jwk_ok_def)
  then have b: "buildCnf pub = Inr [(''jwk'', GMap (header_view jwk))]" by (rule buildCnf_view [OF jwk(1)])
  have "carried (Suc 0) (Suc 0) (header_view jwk)"
    using plain_view_facts(2) [of "header_view jwk"] jwk(2) by (simp add: jwk_ok_def)
  moreover have "utf8_valid ''jwk''" by (rule ascii_utf8_valid) simp
  ultimately have "carried (Suc (Suc 0)) (Suc (Suc 0)) [(''jwk'', GMap (header_view jwk))]" by (rule carried_nested)
  then have "portable (GMap [(''jwk'', GMap (header_view jwk))])"
    by (simp add: carried_def portable_def json_max_depth_def)
  then have "json_enc (GMap [(''jwk'', GMap (header_view jwk))]) \<noteq> None"
    using parse_json_enc [of "GMap [(''jwk'', GMap (header_view jwk))]"] unfolding portable_def by blast
  then show ?thesis by (simp add: Some cnf_builds_def b del: json_enc.simps)
qed (simp add: cnf_builds_def)

lemma Issue_total:
  assumes "good_request I req now" "reliable R (issuer_signer I)" "supported_hash (hashAlg (opts I))"
    and "VCT req \<noteq> []" "set (SelectiveFields req) \<subseteq> keys (Claims req)"
  shows "\<exists>tok j. Issue C R now I req i = (Inr tok, j)
    \<and> named_claims (Disclosures tok) = expected_claims (Claims req) (SelectiveFields req)"
proof -
  note req = assms(1) [unfolded good_request_def]
  have "struct_depth (Claims req) \<le> 16" using req struct_depth_le [of "Claims req"] by simp
  moreover have "encodable (Claims req)" using req encodable_issuable by blast
  moreover have "cnf_builds (HolderKey req)" using req cnf_builds_ok by blast
  ultimately obtain tok j where "Issue C R now I req i = (Inr tok, j)"
    using issue_total [OF assms(2-5)] by blast
  moreover from this obtain sdAlg m where "issued_payload C I req now sdAlg (Disclosures tok) m"
    by (rule issued [OF _ assms(1)])
  ultimately show ?thesis unfolding issued_payload_def by blast
qed

end
