(* ===== verification/Holder.thy ===== *)
theory Holder
  imports Jwt Token Go_Time
begin

text \<open>
  \<open>holder.go\<close>: the choice of disclosures and the key-binding JWT over the prefix they leave.
  A \<open>Holder\<close> is its signer, which may be nil.
\<close>

record holder =
  holder_signer :: "signer option"

definition NewHolder :: "signer option \<Rightarrow> holder" where
  "NewHolder sg = \<lparr>holder_signer = sg\<rparr>"

record present_options =
  RevealClaims :: "string list"
  Nonce :: string
  Audience :: string
  KeyBinding :: bool

fun select_loop :: "string list \<Rightarrow> string list \<Rightarrow> string list \<Rightarrow> goerr + string list" where
  "select_loop wanted [] selected = Inr selected"
| "select_loop wanted (enc # encs) selected =
     (case ParseDisclosure enc of
        Inl e \<Rightarrow> Inl e
      | Inr d \<Rightarrow>
          select_loop wanted encs
            (if Key d = [] \<or> Key d \<in> set wanted then selected @ [enc] else selected))"

definition selectDisclosures :: "token \<Rightarrow> string list \<Rightarrow> goerr + string list" where
  "selectDisclosures t reveal =
     (if length reveal = 0 then Inr (Disclosures t) else select_loop reveal (Disclosures t) [])"

definition kb_payload :: "crypto \<Rightarrow> gtime \<Rightarrow> token \<Rightarrow> string \<Rightarrow> string \<Rightarrow> gmap" where
  "kb_payload C now presented nonce audience =
     [(''iat'', GInt (unix_of now)), (''nonce'', GString nonce), (''aud'', GString audience),
      (''sd_hash'', GString (DigestSHA256 C (Prefix presented)))]"

definition buildKBJWT ::
  "crypto \<Rightarrow> gtime \<Rightarrow> signer \<Rightarrow> token \<Rightarrow> string \<Rightarrow> string \<Rightarrow> goerr + string" where
  "buildKBJWT C now sg presented nonce audience =
     sign_compact sg (jwt_header ''kb+jwt'' sg) (kb_payload C now presented nonce audience)"

definition Present ::
  "crypto \<Rightarrow> gtime \<Rightarrow> holder \<Rightarrow> token \<Rightarrow> present_options \<Rightarrow> goerr + token" where
  "Present C now h t op =
     res_bind (selectDisclosures t (RevealClaims op)) (\<lambda>selected.
       let presented = \<lparr>IssuerJWT = IssuerJWT t, Disclosures = selected, KBJWT = []\<rparr> in
       if \<not> KeyBinding op then Inr presented
       else (case holder_signer h of
          None \<Rightarrow> Inl (Errorf [Txt ''sdjwt: Holder has no Signer; cannot produce KB-JWT''])
        | Some sg \<Rightarrow>
          if Nonce op = [] then Inl (Errorf [Txt ''sdjwt: Nonce is required for key binding''])
          else if Audience op = [] then
            Inl (Errorf [Txt ''sdjwt: Audience is required for key binding''])
          else
            res_bind (map_err (\<lambda>e. Errorf [Txt ''sdjwt: building KB-JWT: '', Wrapped e])
                        (buildKBJWT C now sg presented (Nonce op) (Audience op)))
              (\<lambda>kbJWT. Inr (presented\<lparr>KBJWT := kbJWT\<rparr>))))"

section \<open>Selection\<close>

text \<open>A disclosure is shown if it has no name or its name is asked for.\<close>

definition shown :: "string list \<Rightarrow> string \<Rightarrow> bool" where
  "shown wanted enc \<longleftrightarrow>
     (case ParseDisclosure enc of Inl _ \<Rightarrow> False | Inr d \<Rightarrow> Key d = [] \<or> Key d \<in> set wanted)"

lemma select_loop_Inr:
  "select_loop wanted encs acc = Inr r \<longleftrightarrow>
     (\<forall>enc \<in> set encs. \<exists>d. ParseDisclosure enc = Inr d) \<and> r = acc @ filter (shown wanted) encs"
  by (induction encs arbitrary: acc) (auto simp: shown_def split: sum.splits)

lemma selectDisclosures_Inr:
  "selectDisclosures t wanted = Inr r \<longleftrightarrow>
     (if wanted = [] then r = Disclosures t
      else (\<forall>enc \<in> set (Disclosures t). \<exists>d. ParseDisclosure enc = Inr d)
           \<and> r = filter (shown wanted) (Disclosures t))"
  by (auto simp: selectDisclosures_def select_loop_Inr)

lemma select_loop_Inl: "select_loop wanted encs acc = Inl e \<Longrightarrow> \<exists>enc \<in> set encs. ParseDisclosure enc = Inl e"
  by (induction encs arbitrary: acc) (auto split: sum.splits)

text \<open>
  C35: the holder shows what is asked for and nothing else: with a non-empty list of claim names, a
  presentation keeps the issuer JWT and exactly the disclosures that carry one of the names (or no
  name), in their order; an empty list reveals everything; and a disclosure that does not parse
  makes the selection fail with the error of that disclosure.
\<close>
theorem present_selects:
  "(Present C now h t op = Inr p \<longrightarrow>
      IssuerJWT p = IssuerJWT t
      \<and> (RevealClaims op = [] \<longrightarrow> Disclosures p = Disclosures t)
      \<and> (RevealClaims op \<noteq> [] \<longrightarrow>
          Disclosures p = filter (\<lambda>enc. \<exists>d. ParseDisclosure enc = Inr d
             \<and> (Key d = [] \<or> Key d \<in> set (RevealClaims op))) (Disclosures t)))
   \<and> (RevealClaims op \<noteq> [] \<longrightarrow> enc \<in> set (Disclosures t) \<longrightarrow> ParseDisclosure enc = Inl e \<longrightarrow>
      (\<exists>enc' e'. enc' \<in> set (Disclosures t) \<and> ParseDisclosure enc' = Inl e'
         \<and> Present C now h t op = Inl e'))"
proof (intro conjI impI)
  assume "Present C now h t op = Inr p"
  then obtain sel where sel: "selectDisclosures t (RevealClaims op) = Inr sel"
    and p: "IssuerJWT p = IssuerJWT t" "Disclosures p = sel"
    by (auto simp: Present_def res_bind_Inr_iff Let_def split: if_splits option.splits)
  show "IssuerJWT p = IssuerJWT t" by (rule p(1))
  show "Disclosures p = Disclosures t" if "RevealClaims op = []"
    using sel that p(2) by (simp add: selectDisclosures_Inr)
  have "shown r = (\<lambda>enc. \<exists>d. ParseDisclosure enc = Inr d \<and> (Key d = [] \<or> Key d \<in> set r))" for r
    by (auto simp: shown_def fun_eq_iff split: sum.splits)
  then show "Disclosures p = filter (\<lambda>enc. \<exists>d. ParseDisclosure enc = Inr d
      \<and> (Key d = [] \<or> Key d \<in> set (RevealClaims op))) (Disclosures t)" if "RevealClaims op \<noteq> []"
    using sel that p(2) by (simp add: selectDisclosures_Inr)
next
  assume r: "RevealClaims op \<noteq> []" and bad: "enc \<in> set (Disclosures t)" "ParseDisclosure enc = Inl e"
  then have "selectDisclosures t (RevealClaims op) \<noteq> Inr x" for x
    by (metis Inl_Inr_False selectDisclosures_Inr)
  then obtain e' where e': "selectDisclosures t (RevealClaims op) = Inl e'"
    by (metis sum.exhaust)
  then have "select_loop (RevealClaims op) (Disclosures t) [] = Inl e'"
    using r by (simp add: selectDisclosures_def)
  moreover have "Present C now h t op = Inl e'" by (simp add: Present_def e')
  ultimately show "\<exists>enc' e'. enc' \<in> set (Disclosures t) \<and> ParseDisclosure enc' = Inl e'
      \<and> Present C now h t op = Inl e'"
    using select_loop_Inl by metis
qed

lemma Present_bound:
  "Present C now h t op = Inr p \<Longrightarrow> KeyBinding op \<Longrightarrow>
     \<exists>sg sel kb. holder_signer h = Some sg \<and> Nonce op \<noteq> [] \<and> Audience op \<noteq> []
       \<and> selectDisclosures t (RevealClaims op) = Inr sel
       \<and> buildKBJWT C now sg \<lparr>IssuerJWT = IssuerJWT t, Disclosures = sel, KBJWT = []\<rparr>
           (Nonce op) (Audience op) = Inr kb
       \<and> p = \<lparr>IssuerJWT = IssuerJWT t, Disclosures = sel, KBJWT = kb\<rparr>"
  by (auto simp: Present_def res_bind_Inr_iff Let_def split: if_splits option.splits)

lemma buildKBJWT_segment:
  "buildKBJWT C now sg t nonce aud = Inr kb \<Longrightarrow> kb \<noteq> [] \<and> CHR ''~'' \<notin> set kb"
  using compact_segment by (auto simp: buildKBJWT_def sign_compact_iff simp del: json_enc.simps)

text \<open>
  Key binding needs a signer, a nonce and an audience: without one of them no presentation is
  produced, and without key binding the presentation carries no KB-JWT.
\<close>
lemma present_binding_preconditions:
  "(Present C now h t op = Inr p \<longrightarrow> KeyBinding op \<longrightarrow>
      (\<exists>sg. holder_signer h = Some sg) \<and> Nonce op \<noteq> [] \<and> Audience op \<noteq> [] \<and> HasKeyBinding p)
   \<and> (Present C now h t op = Inr p \<longrightarrow> \<not> KeyBinding op \<longrightarrow> \<not> HasKeyBinding p)"
proof (intro conjI impI)
  assume "Present C now h t op = Inr p" "KeyBinding op"
  then obtain sg sel kb where *: "holder_signer h = Some sg" "Nonce op \<noteq> []" "Audience op \<noteq> []"
    "buildKBJWT C now sg \<lparr>IssuerJWT = IssuerJWT t, Disclosures = sel, KBJWT = []\<rparr>
           (Nonce op) (Audience op) = Inr kb"
    "p = \<lparr>IssuerJWT = IssuerJWT t, Disclosures = sel, KBJWT = kb\<rparr>"
    using Present_bound by blast
  show "\<exists>sg. holder_signer h = Some sg" "Nonce op \<noteq> []" "Audience op \<noteq> []" using *(1-3) by simp_all
  show "HasKeyBinding p" using buildKBJWT_segment [OF *(4)] by (simp add: *(5) HasKeyBinding_def)
next
  assume "Present C now h t op = Inr p" "\<not> KeyBinding op"
  then show "\<not> HasKeyBinding p"
    by (auto simp: Present_def res_bind_Inr_iff Let_def HasKeyBinding_def)
qed

section \<open>The key-binding JWT\<close>

lemma kb_payload_portable:
  assumes "utf8_valid nonce" "utf8_valid aud" "\<bar>unix_of now\<bar> < 2 ^ 53"
  shows "portable (GMap (kb_payload C now t nonce aud))"
proof -
  have b: "utf8_valid (b64_enc s)" for s
    by (rule b64_utf8_valid)
  have "utf8_valid ''iat''" "utf8_valid ''nonce''" "utf8_valid ''aud''" "utf8_valid ''sd_hash''"
    by (rule ascii_utf8_valid; simp)+
  then show ?thesis
    using assms b decodes_int [OF assms(3)]
    by (simp add: portable_def kb_payload_def json_max_depth_def DigestSHA256_def del: decodes.simps(2))
qed

lemma kb_payload_distinct: "distinct (map fst (kb_payload C now t nonce aud))"
  by (simp add: kb_payload_def)


end
