(* ===== verification/EndToEnd.thy ===== *)
theory EndToEnd
  imports Issue_Success Holder
begin

text \<open>
  The three roles together: \<open>Present\<close> selects from a token of \<open>Issue\<close>, and \<open>Verify\<close> accepts the
  presentation and returns its claims.
\<close>

section \<open>The KB-JWT of a presentation\<close>

lemma holder_kb:
  assumes "Present C now \<lparr>holder_signer = Some sg\<rparr> t op = Inr p" and "KeyBinding op"
    and "signs_for C sg pub" and "jwkToPublicKey jwk = Inr pub"
    and "utf8_valid (Algorithm sg)" and "utf8_valid (KeyID sg)"
    and "utf8_valid (Nonce op)" and "utf8_valid (Audience op)" and "\<bar>unix_of now\<bar> < 2 ^ 53"
    and "aud = [] \<or> aud = Audience op"
  shows "verifyKBJWT C p jwk (Nonce op) aud = Inr ()"
proof -
  obtain sel kb where b: "buildKBJWT C now sg \<lparr>IssuerJWT = IssuerJWT t, Disclosures = sel, KBJWT = []\<rparr>
      (Nonce op) (Audience op) = Inr kb"
    and p: "p = \<lparr>IssuerJWT = IssuerJWT t, Disclosures = sel, KBJWT = kb\<rparr>"
    using Present_bound [OF assms(1,2)] by auto
  let ?h = "jwt_header ''kb+jwt'' sg"
  let ?p = "kb_payload C now \<lparr>IssuerJWT = IssuerJWT t, Disclosures = sel, KBJWT = []\<rparr> (Nonce op) (Audience op)"
  have "portable (GMap ?h)" using assms(5,6) by (intro jwt_header_portable) (rule ascii_utf8_valid; simp)
  then have dec: "decodeJWT kb = Inr (header_view ?h, header_view ?p)"
    using decode_signed kb_payload_portable [OF assms(7-9)] b unfolding buildKBJWT_def by blast
  have alg: "string_or_empty (map_of (header_view ?h) ''alg'') = Algorithm sg"
    by (subst map_of_view) (simp_all add: jwt_header_def)
  obtain hb pb sig where "Sign sg (signing_input hb pb) = Inr sig" "kb = compact hb pb sig"
    using b by (auto simp: buildKBJWT_def sign_compact_iff simp del: json_enc.simps)
  then have ver: "verifyJWTSignature C kb pub (Algorithm sg) = Inr ()"
    using assms(3) by (simp add: verify_compact signs_for_def)
  have look: "map_of (header_view ?p) k = map_option json_norm (map_of ?p k)" for k
    by (rule map_of_view [OF kb_payload_distinct])
  have claims: "map_of (header_view ?p) ''nonce'' = Some (GString (Nonce op))"
    "map_of (header_view ?p) ''aud'' = Some (GString (Audience op))"
    "map_of (header_view ?p) ''sd_hash'' = Some (GString (DigestSHA256 C (Prefix p)))"
    unfolding look by (simp_all add: kb_payload_def p Prefix_def)
  have "KBJWT p = kb" by (simp add: p)
  then show ?thesis
    unfolding verifyKBJWT_Inr using dec ver alg assms(4,10) claims
    by (intro exI [of _ "header_view ?h"] exI [of _ "header_view ?p"] exI [of _ pub])
       (auto simp: aud_matches_def)
qed

text \<open>
  C36: the verifier accepts the KB-JWT a holder makes: for the nonce and audience it was made for, and
  with any confirmation JWK that stands for a key the holder's signer signs for.
\<close>
theorem holder_binding_verifies:
  assumes "Present C now \<lparr>holder_signer = Some sg\<rparr> t op = Inr p" and "KeyBinding op"
    and "signs_for C sg pub" and "jwkToPublicKey jwk = Inr pub"
    and "utf8_valid (Algorithm sg)" and "utf8_valid (KeyID sg)"
    and "utf8_valid (Nonce op)" and "utf8_valid (Audience op)" and "\<bar>unix_of now\<bar> < 2 ^ 53"
  shows "verifyKBJWT C p jwk (Nonce op) (Audience op) = Inr ()"
  using holder_kb [OF assms] by simp

section \<open>Verification of a presentation of an issued token\<close>

lemma write_all_untouched:
  "\<forall>w \<in> set ws. \<not> is_prefix (write_slot w) q \<and> \<not> is_prefix q (fst w) \<Longrightarrow>
     slot_at q (issuerPayload (write_all ws st)) = slot_at q (issuerPayload st)"
proof (induction ws arbitrary: st)
  case (Cons w ws)
  obtain p key v where w: "w = (p, key, v)" by (cases w)
  have "slot_at q (issuerPayload (write_back p key v st)) = slot_at q (issuerPayload st)"
    using Cons.prems w by (auto simp: write_back_def write_slot_def intro!: slot_update_disjoint)
  then show ?case using Cons w by simp
qed simp

text \<open>A top-level claim keeps its value if no disclosure has its name and no digest lies inside it.\<close>

lemma claim_kept:
  assumes "fair_run \<rho>" "verify_claims \<rho> t payload = Inr st"
    and "k \<notin> keys (named_claims (Disclosures t))" "\<And>p s. \<not> embeds payload (k # p) s"
  shows "map_of (issuerPayload st) k = map_of payload k"
proof -
  obtain h D where D: "collectDigests \<rho> [] payload 0 = Inr D"
    and op: "\<forall>enc \<in> set (Disclosures t). opened (prims \<rho>) h D enc \<noteq> None"
    and st: "st = after_writes (writes (prims \<rho>) h D (Disclosures t)) (start_state payload)"
    using assms(2) by (auto simp: verify_claims_Inr)
  let ?W = "writes (prims \<rho>) h D (Disclosures t)"
  have "\<not> is_prefix (write_slot w) [k] \<and> \<not> is_prefix [k] (fst w)" if w: "w \<in> set ?W" for w
  proof
    have "snd w \<in> set (named_claims (Disclosures t))"
      using w unfolding writes_claims [OF op, symmetric] by simp
    then have "write_key w \<in> keys (named_claims (Disclosures t))" by (auto simp: keys_def)
    then show "\<not> is_prefix (write_slot w) [k]"
      using assms(3) by (cases "fst w") (auto simp: write_slot_def is_prefix_iff)
    obtain enc where "named_write (opened (prims \<rho>) h D enc) = Some w"
      using w by (auto simp: writes_def set_map_filter_iff)
    then obtain dg where "map_of D dg = Some (fst w)"
      by (auto simp: opened_def named_write_def split: sum.splits option.splits if_splits)
    then have "embeds payload (fst w) dg" by (rule collected_iff(2) [OF assms(1) D])
    then show "\<not> is_prefix [k] (fst w)"
      using assms(4) by (cases "fst w") auto
  qed
  then have "slot_at [k] (issuerPayload (write_all ?W (start_state payload))) = slot_at [k] payload"
    using write_all_untouched [of ?W "[k]" "start_state payload"] by simp
  then show ?thesis by (simp add: st after_writes_def)
qed

text \<open>The conditions on the verifier's side.\<close>

definition accepting_run :: "run \<Rightarrow> verifier \<Rightarrow> crypto \<Rightarrow> issuer \<Rightarrow> issue_request \<Rightarrow> gtime \<Rightarrow> bool" where
  "accepting_run \<rho> v C I req now \<longleftrightarrow>
     prims \<rho> = C \<and> fair_run \<rho> \<and> wf_time (clock \<rho>)
     \<and> 0 \<le> clockSkew (vopts v) \<and> int64_range (clockSkew (vopts v))
     \<and> unix_nanos (clock \<rho>) \<le> unix_of (issued_exp I req now) * 1000000000 + clockSkew (vopts v)
     \<and> unix_of (issued_nbf req now) * 1000000000 - clockSkew (vopts v) \<le> unix_nanos (clock \<rho>)
     \<and> (expectedVCT (vopts v) = [] \<or> expectedVCT (vopts v) = VCT req)"

text \<open>The conditions on the holder's side: when binding is asked for, the holder has the key of the request.\<close>

definition matching_holder ::
  "crypto \<Rightarrow> holder \<Rightarrow> issue_request \<Rightarrow> present_options \<Rightarrow> gtime \<Rightarrow> bool" where
  "matching_holder C h req op now \<longleftrightarrow>
     (KeyBinding op \<longrightarrow>
       (\<exists>sg jwk pub. holder_signer h = Some sg \<and> HolderKey req = Some (OtherKey (GMap jwk))
          \<and> jwkToPublicKey (GMap (header_view jwk)) = Inr pub \<and> signs_for C sg pub
          \<and> list_all utf8_valid [Algorithm sg, KeyID sg, Nonce op, Audience op]
          \<and> \<bar>unix_of now\<bar> < 2 ^ 53))"

lemma issued_times:
  assumes "issued_payload C I req now sdAlg encs m" "good_request I req now" "accepting_run \<rho> v C I req now"
  shows "check_times \<rho> (clockSkew (vopts v)) (header_view m) = Inr ()"
proof -
  let ?E = "unix_of (issued_exp I req now)" and ?N = "unix_of (issued_nbf req now)" and ?d = "clockSkew (vopts v)"
  note run = assms(3) [unfolded accepting_run_def]
  have small: "\<bar>?E\<bar> < 2 ^ 53" "\<bar>?N\<bar> < 2 ^ 53" using assms(2) by (simp_all add: good_request_def)
  obtain e where e: "f64_of_int ?E = Some e" "f64_to_int64 (out_of_range \<rho>) e = ?E"
    by (rule f64_of_int_exact [OF small(1)])
  obtain n where n: "f64_of_int ?N = Some n" "f64_to_int64 (out_of_range \<rho>) n = ?N"
    by (rule f64_of_int_exact [OF small(2)])
  have look: "map_of (header_view m) k = map_option json_norm (map_of m k)" for k
    using assms(1) by (intro map_of_view) (simp add: issued_payload_def carried_def)
  have "map_of m ''exp'' = Some (GInt ?E)" "map_of m ''nbf'' = Some (GInt ?N)"
    using assms(1) by (auto simp: issued_payload_def registered_list_def)
  then have c: "map_of (header_view m) ''exp'' = Some (GFloat e)" "map_of (header_view m) ''nbf'' = Some (GFloat n)"
    using e n by (simp_all add: look)
  have neg: "wrap64 (- ?d) = - ?d" "int64_range (- ?d)"
    using run wrap64_id [of "- ?d"] by (auto simp: int64_range_def)
  have b: "\<bar>?E\<bar> \<le> 2 ^ 61" "\<bar>?N\<bar> \<le> 2 ^ 61" using small by simp_all
  have le: "a \<le> b \<longleftrightarrow> unix_nanos a \<le> unix_nanos b" if "wf_time a" "wf_time b" for a b
    using less_by_nanos [of b a] that by (auto simp: wf_time_def unix_nanos_def not_less [symmetric])
  have "clock \<rho> \<le> time_add (time_unix ?E) ?d"
    using run le [of "clock \<rho>" "time_add (time_unix ?E) ?d"] deadline_nanos [OF b(1)] by auto
  moreover have "time_add (time_unix ?N) (- ?d) \<le> clock \<rho>"
    using run le [of "time_add (time_unix ?N) (- ?d)" "clock \<rho>"] deadline_nanos [OF b(2) neg(2)] by auto
  ultimately show ?thesis
    unfolding check_times_def Let_def c
    by (simp add: e n neg time_after_def time_before_def not_less)
qed

text \<open>A presentation is well formed and shows disclosures of the token.\<close>

lemma Present_parts:
  assumes "Present C now h t op = Inr p"
  obtains sel where "selectDisclosures t (RevealClaims op) = Inr sel" "IssuerJWT p = IssuerJWT t"
    "Disclosures p = sel" "HasKeyBinding p \<longleftrightarrow> KeyBinding op" "CHR ''~'' \<notin> set (KBJWT p)"
proof -
  show ?thesis
  proof (cases "KeyBinding op")
    case True
    obtain sg sel kb where "selectDisclosures t (RevealClaims op) = Inr sel"
      "buildKBJWT C now sg \<lparr>IssuerJWT = IssuerJWT t, Disclosures = sel, KBJWT = []\<rparr>
           (Nonce op) (Audience op) = Inr kb"
      "p = \<lparr>IssuerJWT = IssuerJWT t, Disclosures = sel, KBJWT = kb\<rparr>"
      using Present_bound [OF assms True] by blast
    then show ?thesis using that [of sel] buildKBJWT_segment [of C now sg] True
      by (auto simp: HasKeyBinding_def)
  next
    case False
    then show ?thesis using assms that
      by (auto simp: Present_def res_bind_Inr_iff Let_def HasKeyBinding_def)
  qed
qed

definition kept_names :: "string list \<Rightarrow> gmap \<Rightarrow> gmap" where
  "kept_names asked claims = filter (\<lambda>(k, _). asked = [] \<or> k \<in> set asked) claims"

lemma named_claims_selected:
  assumes "selectDisclosures t asked = Inr sel"
  shows "named_claims sel = kept_names asked (named_claims (Disclosures t))" and "set sel \<subseteq> set (Disclosures t)"
proof -
  have f: "named_claims (filter (shown asked) encs) = filter (\<lambda>(k, _). k \<in> set asked) (named_claims encs)" for encs
    by (induction encs) (auto simp: shown_def name_of_def split: sum.splits option.splits if_splits)
  show "named_claims sel = kept_names asked (named_claims (Disclosures t))"
    using assms f by (auto simp: selectDisclosures_Inr kept_names_def split: if_splits)
  show "set sel \<subseteq> set (Disclosures t)"
    using assms by (auto simp: selectDisclosures_Inr split: if_splits)
qed

lemma signJWT_segment: "signJWT sg m = Inr jwt \<Longrightarrow> jwt \<noteq> [] \<and> CHR ''~'' \<notin> set jwt"
  using compact_segment by (auto simp: signJWT_def sign_compact_iff simp del: json_enc.simps)

lemma presented_parses:
  assumes "signJWT sg m = Inr (IssuerJWT p)" "\<forall>enc \<in> set (Disclosures p). \<exists>h dg. disclosed_as C h enc dg"
    and "CHR ''~'' \<notin> set (KBJWT p)"
  shows "Parse (String p) = Inr p"
  using signJWT_segment [OF assms(1)] assms(2,3)
  by (auto simp: Parse_iff wf_token_def tilde_def list_all_iff disclosed_as_def)

section \<open>The registered claims of an issued payload\<close>

lemma issued_lookup:
  assumes "issued_payload C I req now sdAlg encs m"
    and "(k, v) \<in> set (registered_list I req now sdAlg (cnf_entry (HolderKey req)))"
  shows "map_of (header_view m) k = Some (json_norm v)"
proof -
  have "map_of m k = Some v" using assms unfolding issued_payload_def by blast
  moreover have "distinct (map fst m)" using assms(1) by (simp add: issued_payload_def carried_def)
  ultimately show ?thesis by (simp only: map_of_view option.map)
qed

lemma issued_sub:
  assumes "issued_payload C I req now sdAlg encs m"
  shows "string_or_empty (map_of (header_view m) ''sub'') = Subject req"
proof (cases "Subject req = []")
  case True
  then show ?thesis
    using assms map_of_view [of m "''sub''"] by (auto simp: issued_payload_def carried_def)
next
  case False
  then have "(''sub'', GString (Subject req)) \<in> set (registered_list I req now sdAlg (cnf_entry (HolderKey req)))"
    by (simp add: registered_list_def)
  then show ?thesis using issued_lookup [OF assms] by simp
qed

text \<open>No digest lies inside a registered claim.\<close>

lemma embeds_Cons_map:
  "distinct (map fst m) \<Longrightarrow> embeds m (k # p) s \<longleftrightarrow> (\<exists>n. map_of m k = Some (GMap n) \<and> embeds n p s)"
  by (simp add: embeds_Cons_iff)

lemma not_embedded_plain:
  assumes "distinct (map fst m)" "\<And>n. map_of m k \<noteq> Some (GMap n)"
  shows "\<not> embeds m (k # p) s"
  unfolding embeds_Cons_map [OF assms(1)] using assms(2) by blast

lemma distinct_view: "distinct (map fst m) \<Longrightarrow> distinct (map fst (header_view m))"
  by (simp add: header_view_def distinct_sort_fst)

lemma issued_not_embedded:
  assumes "issued_payload C I req now sdAlg encs m" "holder_key_ok (HolderKey req)"
    and "k = ''vct'' \<or> k = ''sub'' \<or> k = ''cnf'' \<and> (k, v) \<in> set (cnf_entry (HolderKey req))"
  shows "\<not> embeds (header_view m) (k # p) s"
proof -
  have d: "distinct (map fst (header_view m))"
    using assms(1) by (intro distinct_view) (simp add: issued_payload_def carried_def)
  consider "k = ''vct''" | "k = ''sub''" | "k = ''cnf''" "(k, v) \<in> set (cnf_entry (HolderKey req))"
    using assms(3) by blast
  then show ?thesis
  proof cases
    case 1
    have "map_of (header_view m) ''vct'' = Some (GString (VCT req))"
      using issued_lookup [OF assms(1), of "''vct''" "GString (VCT req)"] by (simp add: registered_list_def)
    then show ?thesis unfolding 1 by (intro not_embedded_plain [OF d]) (simp only: option.inject gval.distinct simp_thms)
  next
    case 2
    have "map_of (header_view m) ''sub'' = None \<or> map_of (header_view m) ''sub'' = Some (GString (Subject req))"
    proof (cases "Subject req = []")
      case True
      then show ?thesis using assms(1) map_of_view [of m "''sub''"] by (simp add: issued_payload_def carried_def)
    next
      case False
      then show ?thesis
        using issued_lookup [OF assms(1), of "''sub''" "GString (Subject req)"] by (simp add: registered_list_def)
    qed
    then have "map_of (header_view m) ''sub'' \<noteq> Some (GMap n)" for n
    proof -
      assume "map_of (header_view m) ''sub'' = None \<or> map_of (header_view m) ''sub'' = Some (GString (Subject req))"
      then have "as_map (map_of (header_view m) ''sub'') = None" by (elim disjE) (simp_all only: as_map.simps)
      then show "map_of (header_view m) ''sub'' \<noteq> Some (GMap n)" by (metis as_map.simps(1) option.distinct(1))
    qed
    then show ?thesis unfolding 2 by (intro not_embedded_plain [OF d])
  next
    case 3
    obtain jwk where jwk: "jwk_ok jwk" "v = GMap [(''jwk'', GMap (header_view jwk))]"
      by (rule holder_key_cases [OF assms(2) 3(2)])
    have "map_of (header_view m) ''cnf'' = Some (json_norm v)"
      using issued_lookup [OF assms(1), of k v] 3 by (simp add: registered_list_def)
    moreover have "json_norm v = v"
      using jwk_view_again [OF jwk(1)] by (simp add: jwk(2) header_view_def)
    ultimately have "embeds (header_view m) (k # p) s \<longleftrightarrow> embeds [(''jwk'', GMap (header_view jwk))] p s"
      unfolding embeds_Cons_map [OF d] 3(1) jwk(2) by simp
    moreover have "\<not> embeds [(''jwk'', GMap (header_view jwk))] p s"
      using plain_view_facts(3) [of "header_view jwk"] jwk(1)
      by (cases p) (auto simp: embeds_Nil_iff embeds_Cons_iff jwk_ok_def)
    ultimately show ?thesis by simp
  qed
qed

lemma json_norm_single: "json_norm (GMap [(k, GMap n)]) = GMap [(k, GMap (header_view n))]"
  by (simp add: header_view_def)

lemma issued_cnf:
  assumes "issued_payload C I req now sdAlg encs m" "HolderKey req = Some pub" "key_json pub = GMap jwk" "jwk_ok jwk"
  shows "map_of (header_view m) ''cnf'' = Some (GMap [(''jwk'', GMap (header_view jwk))])"
  using issued_lookup [OF assms(1), of "''cnf''" "GMap [(''jwk'', GMap (header_view jwk))]"] assms(2,3)
  unfolding json_norm_single jwk_view_again [OF assms(4)] by (simp add: registered_list_def cnf_entry_def)

lemma issued_decodes:
  assumes "issued_payload C I req now sdAlg encs m" "good_request I req now"
    and "signJWT (issuer_signer I) m = Inr jwt"
  shows "decodeJWT jwt = Inr (header_view (jwt_header ''vc+sd-jwt'' (issuer_signer I)), header_view m)"
proof -
  have "portable (GMap (jwt_header ''vc+sd-jwt'' (issuer_signer I)))"
    using assms(2) by (intro jwt_header_portable) (simp_all add: ascii_utf8_valid good_request_def)
  moreover have "portable (GMap m)"
    using assms(1) by (simp add: issued_payload_def carried_def portable_def payload_limit_def json_max_depth_def)
  ultimately show ?thesis using decode_signed assms(3) unfolding signJWT_def by blast
qed

lemma issued_authenticated:
  assumes "issued_payload C I req now sdAlg encs m" "good_request I req now"
    and "signJWT (issuer_signer I) m = Inr (IssuerJWT p)" "signs_for C (issuer_signer I) pub"
    and "resolver v (issuer_id I) (KeyID (issuer_signer I)) = Inr pub" "prims \<rho> = C"
  shows "authenticate \<rho> v p = Inr (header_view m, issuer_id I)"
proof -
  let ?h = "jwt_header ''vc+sd-jwt'' (issuer_signer I)"
  note req = assms(2) [unfolded good_request_def] and dec = issued_decodes [OF assms(1-3)]
  have hd: "map_of (header_view ?h) k = map_option json_norm (map_of ?h k)" for k
    by (rule map_of_view) (simp add: jwt_header_def)
  have alg: "string_or_empty (map_of (header_view ?h) ''alg'') = Algorithm (issuer_signer I)"
    and kid: "string_or_empty (map_of (header_view ?h) ''kid'') = KeyID (issuer_signer I)"
    unfolding hd by (simp_all add: jwt_header_def)
  obtain hb pb sig where "Sign (issuer_signer I) (signing_input hb pb) = Inr sig" "IssuerJWT p = compact hb pb sig"
    using assms(3) by (auto simp: signJWT_def sign_compact_iff simp del: json_enc.simps)
  then have ver: "verifyJWTSignature C (IssuerJWT p) pub (Algorithm (issuer_signer I)) = Inr ()"
    using assms(4) by (simp add: verify_compact signs_for_def)
  have "map_of (header_view m) ''iss'' = Some (GString (issuer_id I))"
    using issued_lookup [OF assms(1), of "''iss''" "GString (issuer_id I)"] by (simp add: registered_list_def)
  then show ?thesis
    unfolding authenticate_Inr using dec alg kid ver assms(5,6) req
    by (intro exI [of _ "header_view ?h"] exI [of _ pub]) simp
qed

lemma issued_alg:
  assumes "issued_payload C I req now sdAlg encs m" "SDAlgFromHash (hashAlg (opts I)) = Inr sdAlg"
  shows "sd_hash_alg (header_view m) = Inr (hashAlg (opts I))"
proof -
  have "map_of (header_view m) ''_sd_alg'' = Some (GString sdAlg)"
    using issued_lookup [OF assms(1), of "''_sd_alg''" "GString sdAlg"] by (simp add: registered_list_def)
  moreover have "AlgorithmFromSDAlg sdAlg = Inr (hashAlg (opts I))" "sdAlg \<noteq> []"
    using assms(2) by (auto simp: SDAlgFromHash_def AlgorithmFromSDAlg_def split: if_splits)
  ultimately show ?thesis by (simp add: sd_hash_alg_def)
qed

lemma issued_claims_accepted:
  assumes "issued_payload C I req now sdAlg encs m" "SDAlgFromHash (hashAlg (opts I)) = Inr sdAlg"
    and "fair_run \<rho>" "prims \<rho> = C" "set (Disclosures p) \<subseteq> set encs"
    and "distinct (map fst (named_claims (Disclosures p)))"
  obtains st where "verify_claims \<rho> p (header_view m) = Inr st"
proof -
  have "\<forall>enc \<in> set (Disclosures p). (\<exists>d. ParseDisclosure enc = Inr d)
      \<and> committed (prims \<rho>) (hashAlg (opts I)) (header_view m) enc"
  proof
    fix enc assume "enc \<in> set (Disclosures p)"
    then obtain dg q where "disclosed_as C (hashAlg (opts I)) enc dg" "embeds (header_view m) q dg"
      using assms(1,5) unfolding issued_payload_def by blast
    then show "(\<exists>d. ParseDisclosure enc = Inr d) \<and> committed (prims \<rho>) (hashAlg (opts I)) (header_view m) enc"
      unfolding disclosed_as_def committed_def assms(4) by blast
  qed
  moreover have "map_depth (header_view m) \<le> maxVerifyDepth"
    using assms(1) unfolding map_depth_view by (simp add: issued_payload_def carried_def maxVerifyDepth_def)
  ultimately have "\<exists>st. verify_claims \<rho> p (header_view m) = Inr st"
    unfolding verify_claims_accepts [OF assms(3)] using assms(6) issued_alg [OF assms(1,2)] by blast
  then show ?thesis using that by blast
qed

lemma distinct_kept: "distinct (map fst c) \<Longrightarrow> distinct (map fst (kept_names asked c))"
  unfolding kept_names_def by (rule distinct_map_filter)

lemma keys_kept: "keys (kept_names asked c) \<subseteq> keys c"
  by (auto simp: kept_names_def keys_def)

lemma presented_verifies:
  assumes "Issue C R now I req i = (Inr tok, j)" and "good_request I req now"
    and "distinct (map fst (expected_claims (Claims req) (SelectiveFields req)))"
    and "keys (expected_claims (Claims req) (SelectiveFields req)) \<inter> registered_names = {}"
    and "signs_for C (issuer_signer I) pub"
    and "resolver v (issuer_id I) (KeyID (issuer_signer I)) = Inr pub"
    and "Present C now' h tok op = Inr p" and "matching_holder C h req op now'"
    and "accepting_run \<rho> v C I req now"
    and "requireKeyBinding (vopts v) \<longrightarrow> KeyBinding op"
    and "KeyBinding op \<longrightarrow> audience (vopts v) = [] \<or> audience (vopts v) = Audience op"
  shows "\<exists>claims. Verify \<rho> v (String p) (Nonce op) = Inr
     \<lparr>IssuerClaims = claims,
      DisclosedClaims = filter (\<lambda>(k, _). RevealClaims op = [] \<or> k \<in> set (RevealClaims op))
                          (expected_claims (Claims req) (SelectiveFields req)),
      ResultIssuer = issuer_id I, ResultVCT = VCT req, ResultSubject = Subject req,
      KeyBound = KeyBinding op\<rparr>"
proof -
  obtain sdAlg m where iss: "SDAlgFromHash (hashAlg (opts I)) = Inr sdAlg" "VCT req \<noteq> []"
    "signJWT (issuer_signer I) m = Inr (IssuerJWT tok)" "KBJWT tok = []"
    and pay: "issued_payload C I req now sdAlg (Disclosures tok) m"
    by (rule issued [OF assms(1,2)])
  obtain sel where sel: "selectDisclosures tok (RevealClaims op) = Inr sel"
    and p: "IssuerJWT p = IssuerJWT tok" "Disclosures p = sel" "HasKeyBinding p \<longleftrightarrow> KeyBinding op"
      "CHR ''~'' \<notin> set (KBJWT p)"
    by (rule Present_parts [OF assms(7)])
  let ?exp = "expected_claims (Claims req) (SelectiveFields req)"
  note run = assms(9) [unfolded accepting_run_def] and good = assms(2) [unfolded good_request_def]
  have names: "named_claims (Disclosures p) = kept_names (RevealClaims op) ?exp"
    and sub: "set (Disclosures p) \<subseteq> set (Disclosures tok)"
    using named_claims_selected [OF sel] pay p(2) by (simp_all add: issued_payload_def)
  have parse: "Parse (String p) = Inr p"
  proof (rule presented_parses)
    show "signJWT (issuer_signer I) m = Inr (IssuerJWT p)" using iss(3) p(1) by simp
    show "\<forall>enc \<in> set (Disclosures p). \<exists>h dg. disclosed_as C h enc dg"
      using pay sub unfolding issued_payload_def by blast
  qed (rule p(4))
  have auth: "authenticate \<rho> v p = Inr (header_view m, issuer_id I)"
    using issued_authenticated [OF pay assms(2) _ assms(5,6)] iss(3) p(1) run by simp
  have times: "check_times \<rho> (clockSkew (vopts v)) (header_view m) = Inr ()"
    by (rule issued_times [OF pay assms(2,9)])
  have dist: "distinct (map fst (named_claims (Disclosures p)))"
    unfolding names using assms(3) by (rule distinct_kept)
  obtain st where st: "verify_claims \<rho> p (header_view m) = Inr st"
    using issued_claims_accepted [OF pay iss(1) _ _ sub dist] run by blast
  have unnamed: "k \<notin> keys (named_claims (Disclosures p))" if "k \<in> registered_names" for k
    unfolding names using that keys_kept [of "RevealClaims op" ?exp] assms(4) by blast
  have fair: "fair_run \<rho>" using run by blast
  have hk: "holder_key_ok (HolderKey req)" using good by blast
  have kept: "map_of (issuerPayload st) k = map_of (header_view m) k"
    if "k = ''vct'' \<or> k = ''sub'' \<or> k = ''cnf'' \<and> (k, w) \<in> set (cnf_entry (HolderKey req))" for k w
    by (rule claim_kept [OF fair st unnamed issued_not_embedded [OF pay hk that]])
       (use that in \<open>auto simp: registered_names_def\<close>)
  have bind: "verify_binding (prims \<rho>) (vopts v) p (issuerPayload st) (Nonce op) = Inr (KeyBinding op)"
  proof (cases "KeyBinding op")
    case False
    then show ?thesis using p(3) assms(10) by (simp add: verify_binding_Inr)
  next
    case True
    then obtain sg jwk hpub where h: "holder_signer h = Some sg" "HolderKey req = Some (OtherKey (GMap jwk))"
      "jwkToPublicKey (GMap (header_view jwk)) = Inr hpub" "signs_for C sg hpub"
      "list_all utf8_valid [Algorithm sg, KeyID sg, Nonce op, Audience op]" "\<bar>unix_of now'\<bar> < 2 ^ 53"
      using assms(8) by (auto simp: matching_holder_def)
    have key: "key_json (OtherKey (GMap jwk)) = GMap jwk" by (simp add: key_json_def)
    then have jwk: "jwk_ok jwk" using hk h(2) by (simp add: holder_key_ok_def)
    have "map_of (issuerPayload st) ''cnf'' = Some (GMap [(''jwk'', GMap (header_view jwk))])"
      using kept [of "''cnf''" "GMap [(''jwk'', GMap (header_view jwk))]"] issued_cnf [OF pay h(2) key jwk] h(2) key
      by (simp add: cnf_entry_def)
    then have cnf: "extractCnf (issuerPayload st) = Inr (header_view jwk)" by (simp add: extractCnf_def)
    have "h = \<lparr>holder_signer = Some sg\<rparr>" using h(1) by (cases h) simp
    then have "verifyKBJWT C p (GMap (header_view jwk)) (Nonce op) (audience (vopts v)) = Inr ()"
      using holder_kb [OF _ True h(4,3)] assms(7,11) True h(5,6) by simp
    then show ?thesis using cnf True p(3) run by (simp add: verify_binding_Inr)
  qed
  have vct: "string_or_empty (map_of (issuerPayload st) ''vct'') = VCT req"
    using kept [of "''vct''"] issued_lookup [OF pay, of "''vct''" "GString (VCT req)"]
    by (simp add: registered_list_def)
  have subj: "string_or_empty (map_of (issuerPayload st) ''sub'') = Subject req"
    using kept [of "''sub''"] issued_sub [OF pay] by simp
  have disc: "disclosedClaims st = kept_names (RevealClaims op) ?exp"
    using verify_claims_disclosed(1) [OF st] names by simp
  have "result_of (vopts v) (issuer_id I) st (KeyBinding op) = Inr
     \<lparr>IssuerClaims = issuerPayload st, DisclosedClaims = kept_names (RevealClaims op) ?exp,
      ResultIssuer = issuer_id I, ResultVCT = VCT req, ResultSubject = Subject req,
      KeyBound = KeyBinding op\<rparr>"
    unfolding result_of_Inr vct subj disc using run by auto
  then show ?thesis
    unfolding Verify_Inr using parse auth times st bind unfolding kept_names_def by blast
qed

text \<open>
  C5: completeness of the protocol. Let an issuer with a name succeed on a good request (names and values
  that JSON carries, no selective structured claim, no claim named \<open>_sd\<close>, no top-level claim named like a
  registered one, objects at most 16 deep, times below 2^53, a holder key, if any, that is a flat JWK), with
  distinct names of the selective claims, none of them that of a registered claim at any level, and let
  the verifier's resolver return the key the issuer signs for. Then every presentation verifies that a
  holder makes of the token, who, where binding is asked for, has the key of the request: within the
  validity period, with the holder's nonce and audience, for a verifier that expects this type or any.
  The verifier reports exactly the asked-for claims with their values, the issuer, type and subject of the
  request, and key binding as asked for.
\<close>
theorem issue_present_verify:
  assumes "Issue C R now I req i = (Inr tok, j)" and "good_request I req now"
    and "distinct (map fst (expected_claims (Claims req) (SelectiveFields req)))"
    and "keys (expected_claims (Claims req) (SelectiveFields req)) \<inter> registered_names = {}"
    and "signs_for C (issuer_signer I) pub"
    and "resolver v (issuer_id I) (KeyID (issuer_signer I)) = Inr pub"
    and "Present C now' h tok op = Inr p" and "matching_holder C h req op now'"
    and "accepting_run \<rho> v C I req now"
    and "requireKeyBinding (vopts v) \<longrightarrow> KeyBinding op"
    and "KeyBinding op \<longrightarrow> audience (vopts v) = [] \<or> audience (vopts v) = Audience op"
  shows "\<exists>claims. Verify \<rho> v (String p) (Nonce op) = Inr
     \<lparr>IssuerClaims = claims,
      DisclosedClaims = filter (\<lambda>(k, _). RevealClaims op = [] \<or> k \<in> set (RevealClaims op))
                          (expected_claims (Claims req) (SelectiveFields req)),
      ResultIssuer = issuer_id I, ResultVCT = VCT req, ResultSubject = Subject req,
      KeyBound = KeyBinding op\<rparr>"
  using assms by (rule presented_verifies)

section \<open>The protocol completes\<close>

text \<open>A presentation succeeds too, when its disclosures parse and binding has what it needs.\<close>

definition can_bind :: "holder \<Rightarrow> present_options \<Rightarrow> gtime \<Rightarrow> bool" where
  "can_bind h op now \<longleftrightarrow> (\<exists>sg. holder_signer h = Some sg \<and> (\<forall>m. \<exists>sig. Sign sg m = Inr sig)
       \<and> list_all utf8_valid [Algorithm sg, KeyID sg, Nonce op, Audience op])
     \<and> Nonce op \<noteq> [] \<and> Audience op \<noteq> [] \<and> \<bar>unix_of now\<bar> < 2 ^ 53"

lemma Present_total:
  assumes "KeyBinding op \<longrightarrow> can_bind h op now"
    and "\<forall>enc \<in> set (Disclosures t). \<exists>d. ParseDisclosure enc = Inr d"
  obtains p where "Present C now h t op = Inr p"
proof -
  obtain sel where sel: "selectDisclosures t (RevealClaims op) = Inr sel"
    using assms(2) by (cases "RevealClaims op = []") (simp_all add: selectDisclosures_Inr)
  let ?p = "\<lparr>IssuerJWT = IssuerJWT t, Disclosures = sel, KBJWT = []\<rparr>"
  show ?thesis
  proof (cases "KeyBinding op")
    case False
    then show ?thesis using sel that by (simp add: Present_def)
  next
    case True
    then obtain sg where sg: "holder_signer h = Some sg" "\<forall>m. \<exists>sig. Sign sg m = Inr sig"
      "list_all utf8_valid [Algorithm sg, KeyID sg, Nonce op, Audience op]"
      and op: "Nonce op \<noteq> []" "Audience op \<noteq> []" "\<bar>unix_of now\<bar> < 2 ^ 53"
      using assms(1) by (auto simp: can_bind_def)
    have hdr: "portable (GMap (jwt_header ''kb+jwt'' sg))"
      using sg(3) by (intro jwt_header_portable) (simp_all add: ascii_utf8_valid)
    have pl: "portable (GMap (kb_payload C now ?p (Nonce op) (Audience op)))"
      using sg(3) op(3) by (intro kb_payload_portable) simp_all
    obtain kb where "buildKBJWT C now sg ?p (Nonce op) (Audience op) = Inr kb"
      unfolding buildKBJWT_def by (rule sign_total [OF hdr pl sg(2)])
    then show ?thesis using sel sg(1) op(1,2) True that by (simp add: Present_def)
  qed
qed

text \<open>
  C1: the protocol completes: an issuer with a good request and a reliable signer issues a token, a
  holder who can bind makes a presentation of it, and the verifier accepts that and returns the
  claims that were asked for. No step of the three parties is assumed to succeed.
\<close>
theorem protocol_completes:
  assumes "good_request I req now" "reliable R (issuer_signer I)" "supported_hash (hashAlg (opts I))"
    and "VCT req \<noteq> []" "set (SelectiveFields req) \<subseteq> keys (Claims req)"
    and "distinct (map fst (expected_claims (Claims req) (SelectiveFields req)))"
    and "keys (expected_claims (Claims req) (SelectiveFields req)) \<inter> registered_names = {}"
    and "signs_for C (issuer_signer I) pub" "resolver v (issuer_id I) (KeyID (issuer_signer I)) = Inr pub"
    and "KeyBinding op \<longrightarrow> can_bind h op now'" "matching_holder C h req op now'"
    and "accepting_run \<rho> v C I req now" "requireKeyBinding (vopts v) \<longrightarrow> KeyBinding op"
    and "KeyBinding op \<longrightarrow> audience (vopts v) = [] \<or> audience (vopts v) = Audience op"
  shows "\<exists>tok j p res. Issue C R now I req i = (Inr tok, j) \<and> Present C now' h tok op = Inr p
    \<and> Verify \<rho> v (String p) (Nonce op) = Inr res \<and> KeyBound res = KeyBinding op
    \<and> DisclosedClaims res = filter (\<lambda>(k, _). RevealClaims op = [] \<or> k \<in> set (RevealClaims op))
        (expected_claims (Claims req) (SelectiveFields req))"
proof -
  obtain tok j where issue: "Issue C R now I req i = (Inr tok, j)"
    using Issue_total [OF assms(1-5)] by blast
  obtain sdAlg m where "issued_payload C I req now sdAlg (Disclosures tok) m"
    by (rule issued [OF issue assms(1)])
  then have "\<forall>enc \<in> set (Disclosures tok). \<exists>d. ParseDisclosure enc = Inr d"
    unfolding issued_payload_def disclosed_as_def by blast
  then obtain p where present: "Present C now' h tok op = Inr p"
    by (rule Present_total [OF assms(10)])
  show ?thesis
    using presented_verifies [OF issue assms(1,6,7,8,9) present assms(11-14)] issue present by fastforce
qed

end
