(* ===== verification/Sample.thy ===== *)
theory Sample
  imports EndToEnd
begin

text \<open>
  One run of the protocol on concrete parties: an issuer, a holder and a verifier with the toy
  primitives, a request with a selective claim and a structured claim, the token, the presentation
  and the result. The properties of the development are applied to it, which shows that their
  hypotheses can be met together.
\<close>

section \<open>The parties\<close>

definition sample_time :: int where "sample_time = 1700000000"

definition sample_jwk :: gmap where
  "sample_jwk = [(''crv'', GString ''P-256''), (''kty'', GString ''EC''), (''x'', GString ''AQ''), (''y'', GString ''Ag'')]"

definition sample_issuer :: issuer where
  "sample_issuer = NewIssuer ''https://issuer'' (toy_signer ''k1'') []"

definition sample_claims :: gmap where
  "sample_claims = [(''name'', GString ''Ada''),
     (''address'', Structured [(''city'', GString ''Rome''), (''country'', GString ''IT'')] [''city''])]"

definition sample_request :: issue_request where
  "sample_request =
     \<lparr>VCT = ''urn:id'', Subject = ''ada'', Claims = sample_claims, SelectiveFields = [''name''],
      HolderKey = Some (OtherKey (GMap sample_jwk)), NotBefore = Time 0 0, ExpiresAt = Time 0 0\<rparr>"

definition sample_holder :: holder where
  "sample_holder = NewHolder (Some (toy_signer ''h1''))"

definition sample_options :: present_options where
  "sample_options =
     \<lparr>RevealClaims = [], Nonce = ''n-1'', Audience = ''https://verifier'', KeyBinding = True\<rparr>"

definition sample_resolver :: key_resolver where
  "sample_resolver iss kid =
     (if iss = ''https://issuer'' \<and> kid = ''k1'' then Inr toy_key else Inl (LibError ''unknown key''))"

definition sample_verifier :: verifier where
  "sample_verifier =
     NewVerifier sample_resolver [ExpectVCT ''urn:id'', RequireKeyBinding ''https://verifier'']"

definition sample_run :: run where
  "sample_run =
     \<lparr>prims = toy_crypto, clock = time_unix (sample_time + 60), out_of_range = (\<lambda>f. 0), range_order = (\<lambda>m. m)\<rparr>"

text \<open>The two disclosures, with the salts the randomness yields, and the payload of the issuer JWT.\<close>

definition sample_name :: disclosure where
  "sample_name = \<lparr>Salt = b64_enc (replicate 16 (char_of (0 :: nat))), Key = ''name'', Value = GString ''Ada''\<rparr>"

definition sample_city :: disclosure where
  "sample_city = \<lparr>Salt = b64_enc (replicate 16 (char_of (Suc 0))), Key = ''city'', Value = GString ''Rome''\<rparr>"

definition sample_digest :: "disclosure \<Rightarrow> string" where
  "sample_digest d = b64_enc (encode_or_empty d)"

definition sample_payload :: gmap where
  "sample_payload =
     [(''address'', GMap [(''country'', GString ''IT''), (''_sd'', GStrings [sample_digest sample_city])]),
      (''_sd'', GStrings [sample_digest sample_name]), (''iss'', GString ''https://issuer''),
      (''iat'', GInt 1700000000), (''nbf'', GInt 1700000000), (''exp'', GInt 1707776000),
      (''vct'', GString ''urn:id''), (''_sd_alg'', GString ''sha-256''), (''sub'', GString ''ada''),
      (''cnf'', GMap [(''jwk'', GMap sample_jwk)])]"

section \<open>What the parties need holds\<close>

lemma sample_ok_disclosures: "ok_disclosure sample_name" "ok_disclosure sample_city"
  by (simp_all add: ok_disclosure_def sample_name_def sample_city_def json_max_depth_def ascii_utf8_valid b64_utf8_valid)

lemma sample_enc: "Encode sample_name = Inr (encode_or_empty sample_name)"
    "Encode sample_city = Inr (encode_or_empty sample_city)"
  using encode_ok [OF sample_ok_disclosures(1)] encode_ok [OF sample_ok_disclosures(2)]
  by (metis encode_or_empty_def sum.case(2))+

lemma sample_parse: "ParseDisclosure (encode_or_empty sample_name) = Inr sample_name"
    "ParseDisclosure (encode_or_empty sample_city) = Inr sample_city"
  using parse_encode [OF sample_ok_disclosures(1) sample_enc(1)] parse_encode [OF sample_ok_disclosures(2) sample_enc(2)]
  by (simp_all add: norm_disclosure_def sample_name_def sample_city_def)

lemma sample_toy_digest: "Digest toy_crypto SHA256 s = Inr (b64_enc s)"
  by (simp add: Digest_Inr_iff supported_hash_def hash_sum_def hash_codes toy_crypto_def)

lemma sample_disclose:
  "disclose toy_crypto toy_rng SHA256 ''name'' (GString ''Ada'') \<lparr>allDisclosures = [], draws = 0\<rparr> =
     (Inr (sample_digest sample_name), \<lparr>allDisclosures = [encode_or_empty sample_name], draws = Suc 0\<rparr>)"
  "disclose toy_crypto toy_rng SHA256 ''city'' (GString ''Rome'') \<lparr>allDisclosures = encs, draws = Suc 0\<rparr> =
     (Inr (sample_digest sample_city), \<lparr>allDisclosures = encs @ [encode_or_empty sample_city], draws = Suc (Suc 0)\<rparr>)"
  using sample_enc sample_toy_digest
  by (simp_all add: disclose_def NewDisclosure_def randomSalt_def toy_rng_def DefaultSaltBytes_def
      Disclosure_Digest_def sample_digest_def flip: sample_name_def sample_city_def)

lemma sample_object:
  "buildClaimsObject toy_crypto toy_rng SHA256 sample_claims [''name''] \<lparr>allDisclosures = [], draws = 0\<rparr> 0 =
     (Inr (take 2 sample_payload),
      \<lparr>allDisclosures = [encode_or_empty sample_name, encode_or_empty sample_city], draws = Suc (Suc 0)\<rparr>)"
  using sample_disclose
  by (simp add: sample_claims_def Structured_def maxNestingDepth_def sample_payload_def)

lemma sample_times: "sample_time = 1700000000" "time_unix 1700000000 = Time 63835596800 0"
  "time_unix 1700000060 = Time 63835596860 0"
  by (simp_all add: sample_time_def time_unix_def unix_to_internal_def wrap64_def)

lemma sample_unix: "unix_of (Time 63835596800 0) = 1700000000"
  "unix_of (time_add (Time 63835596800 0) (90 * 24 * hour)) = 1707776000"
  "is_zero_time (Time 0 0)"
  by (simp_all add: unix_of_def unix_to_internal_def wrap64_def is_zero_time_def time_add_def hour_def
      add_sec_def Let_def signed_divide_int_def signed_modulo_int_def)

lemma sample_issued:
  "issued_exp sample_issuer sample_request (time_unix sample_time) = time_add (Time 63835596800 0) (90 * 24 * hour)"
  "issued_nbf sample_request (time_unix sample_time) = Time 63835596800 0"
  by (simp_all add: issued_exp_def issued_nbf_def sample_request_def sample_unix sample_times sample_issuer_def
      NewIssuer_def default_issuer_config_def)

lemma sample_good: "good_request sample_issuer sample_request (time_unix sample_time)"
proof -
  have "issuable sample_claims [''name'']" "claims_depth sample_claims \<le> 16" "keys sample_claims \<inter> registered_names = {}"
    by (simp_all add: sample_claims_def Structured_def ascii_utf8_valid registered_names_def value_depth_limit_def)
  moreover have "flat_jwk sample_jwk" by (simp add: flat_jwk_def sample_jwk_def ascii_utf8_valid)
  ultimately show ?thesis
    using sample_unix sample_issued sample_times
    by (simp add: good_request_def sample_request_def sample_issuer_def NewIssuer_def default_issuer_config_def holder_key_ok_def
        key_json_def flat_jwk_ok toy_signer_def ascii_utf8_valid)
qed

definition right_of :: "goerr + 'a \<Rightarrow> 'a" where
  "right_of r = (case r of Inl _ \<Rightarrow> undefined | Inr a \<Rightarrow> a)"

lemma right_of_Inr [simp]: "right_of (Inr a) = a"
  by (simp add: right_of_def)

definition sample_token :: token where
  "sample_token = right_of (fst (Issue toy_crypto toy_rng (time_unix sample_time) sample_issuer sample_request 0))"

definition sample_presentation :: token where
  "sample_presentation = right_of (Present toy_crypto (time_unix sample_time) sample_holder sample_token sample_options)"

definition sample_raw :: string where
  "sample_raw = String sample_presentation"

definition sample_result :: verification_result where
  "sample_result = right_of (Verify sample_run sample_verifier sample_raw ''n-1'')"

lemma toy_rng_total: "\<forall>i n. toy_rng i n \<noteq> None"
  by (simp add: toy_rng_def)

lemma toy_signer_total: "\<forall>m. \<exists>sig. Sign (toy_signer kid) m = Inr sig"
  by (simp add: toy_signer_def)

lemma sample_reliable: "reliable toy_rng (issuer_signer sample_issuer)"
  using toy_rng_total toy_signer_total by (simp add: reliable_def sample_issuer_def NewIssuer_def)

lemma sample_config: "hashAlg (opts sample_issuer) = SHA256" "schemaURI (opts sample_issuer) = []"
  "decoyCount (opts sample_issuer) = 0"
  "issuer_signer sample_issuer = toy_signer ''k1''" "issuer_id sample_issuer = ''https://issuer''"
  "VCT sample_request = ''urn:id''" "Claims sample_request = sample_claims"
  "SelectiveFields sample_request = [''name'']"
  "HolderKey sample_request = Some (OtherKey (GMap sample_jwk))" "Subject sample_request = ''ada''"
  by (simp_all add: sample_issuer_def NewIssuer_def default_issuer_config_def sample_request_def)

lemma sample_expected: "expected_claims sample_claims [''name''] = [(''name'', GString ''Ada''), (''city'', GString ''Rome'')]"
  by (simp add: sample_claims_def Structured_def)

lemma sample_final_payload:
  "issuer_payload sample_issuer sample_request (time_unix sample_time) ''sha-256'' (take 2 sample_payload) = Inr sample_payload"
proof -
  have "flat_jwk sample_jwk" "sorted (map fst sample_jwk)"
    by (simp_all add: flat_jwk_def sample_jwk_def ascii_utf8_valid less_char_def)
  then have "header_view sample_jwk = sample_jwk" by (simp add: header_view_flat sort_key_id_if_sorted)
  then show ?thesis
    using sample_unix sample_issued sample_times
    by (subst payload_assigned [OF sample_good])
      (simp_all add: sample_payload_def registered_list_def cnf_entry_def key_json_def sample_config)
qed

lemma sample_issue:
  "Issue toy_crypto toy_rng (time_unix sample_time) sample_issuer sample_request 0 = (Inr sample_token, Suc (Suc 0))"
  "Disclosures sample_token = [encode_or_empty sample_name, encode_or_empty sample_city]"
  "signJWT (toy_signer ''k1'') sample_payload = Inr (IssuerJWT sample_token)" "KBJWT sample_token = []"
proof -
  obtain tok j where tok: "Issue toy_crypto toy_rng (time_unix sample_time) sample_issuer sample_request 0 = (Inr tok, j)"
    using Issue_total [OF sample_good sample_reliable, of toy_crypto 0]
    by (auto simp: sample_config supported_hash_def sample_claims_def)
  then have t: "sample_token = tok" by (simp add: sample_token_def)
  obtain sdAlg st obj payload p where i: "SDAlgFromHash (hashAlg (opts sample_issuer)) = Inr sdAlg"
    "buildClaimsObject toy_crypto toy_rng (hashAlg (opts sample_issuer)) (Claims sample_request)
       (SelectiveFields sample_request) \<lparr>allDisclosures = [], draws = 0\<rparr> 0 = (Inr obj, st)"
    "with_decoys toy_rng (decoyCount (opts sample_issuer)) obj (draws st) = (Inr payload, j)"
    "issuer_payload sample_issuer sample_request (time_unix sample_time) sdAlg payload = Inr p"
    "signJWT (issuer_signer sample_issuer) p = Inr (IssuerJWT tok)"
    "Disclosures tok = allDisclosures st" "KBJWT tok = []"
    by (rule Issue_Inr [OF tok])
  have b: "obj = take 2 sample_payload"
    "st = \<lparr>allDisclosures = [encode_or_empty sample_name, encode_or_empty sample_city], draws = Suc (Suc 0)\<rparr>"
    using i(2) sample_object by (simp_all add: sample_config del: buildClaimsObject.simps)
  have "payload = take 2 sample_payload" "j = Suc (Suc 0)"
    using i(3) b by (simp_all add: sample_config with_decoys_def)
  moreover have "sdAlg = ''sha-256''" using i(1) by (simp add: sample_config SDAlgFromHash_def)
  ultimately have "p = sample_payload" using i(4) sample_final_payload by simp
  then show "Issue toy_crypto toy_rng (time_unix sample_time) sample_issuer sample_request 0 = (Inr sample_token, Suc (Suc 0))"
    "Disclosures sample_token = [encode_or_empty sample_name, encode_or_empty sample_city]"
    "signJWT (toy_signer ''k1'') sample_payload = Inr (IssuerJWT sample_token)" "KBJWT sample_token = []"
    using tok t i(5-7) b(2) \<open>j = Suc (Suc 0)\<close> by (simp_all add: sample_config)
qed

lemma sample_jwk_view: "header_view sample_jwk = sample_jwk" "flat_jwk sample_jwk"
proof -
  have "sorted (map fst sample_jwk)" by (simp add: sample_jwk_def less_char_def)
  moreover show "flat_jwk sample_jwk" by (simp add: flat_jwk_def sample_jwk_def ascii_utf8_valid)
  ultimately show "header_view sample_jwk = sample_jwk" by (simp add: header_view_flat sort_key_id_if_sorted)
qed

lemma sample_holder_key: "jwkToPublicKey (GMap sample_jwk) = Inr toy_key"
proof -
  have "b64_dec ''AQ'' = Some [CHR 0x01]" "b64_dec ''Ag'' = Some [CHR 0x02]" by code_simp+
  then show ?thesis
    by (simp add: jwkToPublicKey_def sample_jwk_def ecPublicKeyFromJWK_def curveForName_def be_nat_def toy_key_def)
qed

lemma sample_binds: "can_bind sample_holder sample_options (time_unix sample_time)"
  using toy_signer_total sample_unix(1) sample_times
  by (simp add: can_bind_def sample_holder_def NewHolder_def sample_options_def toy_signer_def ascii_utf8_valid)

lemma sample_matching:
  "matching_holder toy_crypto sample_holder sample_request sample_options (time_unix sample_time)"
  using sample_binds sample_holder_key sample_jwk_view toy_signs_for [of "''h1''"]
  by (auto simp: matching_holder_def can_bind_def sample_config sample_holder_def NewHolder_def)

lemma sample_verifier_config: "resolver sample_verifier = sample_resolver"
  "vopts sample_verifier = \<lparr>expectedVCT = ''urn:id'', requireKeyBinding = True, audience = ''https://verifier'', clockSkew = 0\<rparr>"
  by (simp_all add: sample_verifier_def NewVerifier_def default_verifier_config_def ExpectVCT_def RequireKeyBinding_def)

lemma sample_fair: "fair_run sample_run" "prims sample_run = toy_crypto"
  "clock sample_run = Time 63835596860 0" "wf_time (clock sample_run)"
  by (simp_all add: fair_run_def sample_run_def sample_times(1) sample_times(3) wf_time_def int64_range_def)

lemma sample_accepting:
  "accepting_run sample_run sample_verifier toy_crypto sample_issuer sample_request (time_unix sample_time)"
  using sample_unix sample_issued sample_fair
  by (simp add: accepting_run_def sample_verifier_config sample_config unix_nanos_def nanos_def unix_to_internal_def
      int64_range_def)

lemma sample_present:
  "Present toy_crypto (time_unix sample_time) sample_holder sample_token sample_options = Inr sample_presentation"
proof -
  have "\<forall>enc \<in> set (Disclosures sample_token). \<exists>d. ParseDisclosure enc = Inr d"
    using sample_parse by (simp add: sample_issue)
  then obtain p where "Present toy_crypto (time_unix sample_time) sample_holder sample_token sample_options = Inr p"
    using Present_total [of sample_options sample_holder] sample_binds by metis
  then show ?thesis by (simp add: sample_presentation_def)
qed

lemma sample_verified: 
  "Verify sample_run sample_verifier sample_raw ''n-1'' = Inr sample_result"
  "DisclosedClaims sample_result = [(''name'', GString ''Ada''), (''city'', GString ''Rome'')]"
  "ResultIssuer sample_result = ''https://issuer''" "ResultVCT sample_result = ''urn:id''"
  "ResultSubject sample_result = ''ada''" "KeyBound sample_result"
proof -
  have e: "RevealClaims sample_options = []" "KeyBinding sample_options" "Nonce sample_options = ''n-1''"
    "Audience sample_options = ''https://verifier''"
    by (simp_all add: sample_options_def)
  obtain claims where "Verify sample_run sample_verifier (String sample_presentation) (Nonce sample_options) = Inr
     \<lparr>IssuerClaims = claims,
      DisclosedClaims = filter (\<lambda>(k, _). RevealClaims sample_options = [] \<or> k \<in> set (RevealClaims sample_options))
                          (expected_claims (Claims sample_request) (SelectiveFields sample_request)),
      ResultIssuer = issuer_id sample_issuer, ResultVCT = VCT sample_request, ResultSubject = Subject sample_request,
      KeyBound = KeyBinding sample_options\<rparr>"
    using presented_verifies [OF sample_issue(1) sample_good _ _ _ _ sample_present sample_matching sample_accepting]
      toy_signs_for
    by (auto simp: sample_config sample_expected registered_names_def sample_verifier_config sample_resolver_def e
      toy_signer_def)
  then have v: "Verify sample_run sample_verifier sample_raw ''n-1'' = Inr
     \<lparr>IssuerClaims = claims, DisclosedClaims = [(''name'', GString ''Ada''), (''city'', GString ''Rome'')],
      ResultIssuer = ''https://issuer'', ResultVCT = ''urn:id'', ResultSubject = ''ada'', KeyBound = True\<rparr>"
    by (simp add: sample_raw_def e sample_config sample_expected)
  show "Verify sample_run sample_verifier sample_raw ''n-1'' = Inr sample_result"
    unfolding sample_result_def v by simp
  show "DisclosedClaims sample_result = [(''name'', GString ''Ada''), (''city'', GString ''Rome'')]"
    "ResultIssuer sample_result = ''https://issuer''" "ResultVCT sample_result = ''urn:id''"
    "ResultSubject sample_result = ''ada''" "KeyBound sample_result"
    by (simp_all add: sample_result_def v)
qed

section \<open>The presentation and its payload\<close>

lemma sample_presented:
  "IssuerJWT sample_presentation = IssuerJWT sample_token"
  "Disclosures sample_presentation = [encode_or_empty sample_name, encode_or_empty sample_city]"
  "HasKeyBinding sample_presentation" "KBJWT sample_presentation \<noteq> []"
  "Parse sample_raw = Inr sample_presentation"
proof -
  obtain sel where "selectDisclosures sample_token (RevealClaims sample_options) = Inr sel"
    and p: "IssuerJWT sample_presentation = IssuerJWT sample_token" "Disclosures sample_presentation = sel"
      "HasKeyBinding sample_presentation \<longleftrightarrow> KeyBinding sample_options" "CHR ''~'' \<notin> set (KBJWT sample_presentation)"
    by (rule Present_parts [OF sample_present])
  then show d: "Disclosures sample_presentation = [encode_or_empty sample_name, encode_or_empty sample_city]"
    by (simp add: selectDisclosures_Inr sample_options_def sample_issue)
  show "IssuerJWT sample_presentation = IssuerJWT sample_token" by (rule p(1))
  show b: "HasKeyBinding sample_presentation" using p(3) by (simp add: sample_options_def)
  then show "KBJWT sample_presentation \<noteq> []" by (simp add: HasKeyBinding_def)
  show "Parse sample_raw = Inr sample_presentation"
    unfolding sample_raw_def
  proof (rule presented_parses)
    show "signJWT (toy_signer ''k1'') sample_payload = Inr (IssuerJWT sample_presentation)"
      using sample_issue(3) p(1) by simp
    have "disclosed_as toy_crypto SHA256 (encode_or_empty d) (b64_enc (encode_or_empty d))"
      if "d = sample_name \<or> d = sample_city" for d
      using that sample_parse sample_enc Encode_segment sample_toy_digest by (auto simp: disclosed_as_def)
    then show "\<forall>enc \<in> set (Disclosures sample_presentation). \<exists>h dg. disclosed_as toy_crypto h enc dg"
      by (auto simp: d)
    show "CHR ''~'' \<notin> set (KBJWT sample_presentation)" by (rule p(4))
  qed
qed

definition sample_view :: gmap where
  "sample_view = header_view sample_payload"

lemma sample_issued_payload:
  "issued_payload toy_crypto sample_issuer sample_request (time_unix sample_time) ''sha-256''
     [encode_or_empty sample_name, encode_or_empty sample_city] sample_payload"
proof -
  have a: "SDAlgFromHash (hashAlg (opts sample_issuer)) = Inr ''sha-256''"
    by (simp add: sample_config SDAlgFromHash_def)
  have b: "buildClaimsObject toy_crypto toy_rng (hashAlg (opts sample_issuer)) (Claims sample_request)
       (SelectiveFields sample_request) \<lparr>allDisclosures = [], draws = 0\<rparr> 0 = (Inr (take 2 sample_payload),
      \<lparr>allDisclosures = [encode_or_empty sample_name, encode_or_empty sample_city], draws = Suc (Suc 0)\<rparr>)"
    (is "_ = (_, ?st)")
    using sample_object by (simp add: sample_config del: buildClaimsObject.simps)
  have "with_decoys toy_rng (decoyCount (opts sample_issuer)) (take 2 sample_payload) (draws ?st)
      = (Inr (take 2 sample_payload), Suc (Suc 0))"
    by (simp add: with_decoys_def sample_config)
  from payload_built [OF sample_good a b this] obtain p where
    "issuer_payload sample_issuer sample_request (time_unix sample_time) ''sha-256'' (take 2 sample_payload) = Inr p"
    "issued_payload toy_crypto sample_issuer sample_request (time_unix sample_time) ''sha-256'' (allDisclosures ?st) p"
    by blast
  then show ?thesis using sample_final_payload by simp
qed

lemma sample_authenticated: "authenticate sample_run sample_verifier sample_presentation = Inr (sample_view, ''https://issuer'')"
  using issued_authenticated [OF sample_issued_payload sample_good, of sample_presentation toy_key sample_verifier sample_run]
    sample_issue(3) sample_presented(1) toy_signs_for
  by (simp add: sample_config sample_verifier_config sample_resolver_def toy_signer_def sample_fair sample_view_def)

lemma sample_decoded:
  obtains header where "decodeJWT (IssuerJWT sample_presentation) = Inr (header, sample_view)"
  using sample_authenticated by (auto simp: authenticate_Inr)

lemma sample_alg: "sd_hash_alg sample_view = Inr SHA256"
  using issued_alg [OF sample_issued_payload] by (simp add: sample_view_def sample_config SDAlgFromHash_def)

lemma sample_distinct: "distinct (map fst sample_payload)"
  by (simp add: sample_payload_def)

lemma sample_lookup: "map_of sample_view k = map_option json_norm (map_of sample_payload k)"
  unfolding sample_view_def by (rule map_of_view [OF sample_distinct])

lemma sample_digests_differ: "sample_digest sample_name \<noteq> sample_digest sample_city"
proof
  assume "sample_digest sample_name = sample_digest sample_city"
  then have "encode_or_empty sample_name = encode_or_empty sample_city"
    by (simp add: sample_digest_def b64.enc_inj)
  then show False using sample_parse by (simp add: sample_name_def sample_city_def)
qed

text \<open>The digest of the name is at the top, the digest of the city in the address; there are no others.\<close>

definition sample_address :: gmap where
  "sample_address = header_view [(''country'', GString ''IT''), (''_sd'', GStrings [sample_digest sample_city])]"

lemma sample_address_lookup:
  "map_of sample_address ''_sd'' = Some (GSlice [GString (sample_digest sample_city)])"
  "map_of sample_address ''country'' = Some (GString ''IT'')" "(k, GMap n) \<notin> set sample_address"
proof -
  have d: "distinct (map fst [(''country'', GString ''IT''), (''_sd'', GStrings [sample_digest sample_city])])" by simp
  show "map_of sample_address ''_sd'' = Some (GSlice [GString (sample_digest sample_city)])"
    "map_of sample_address ''country'' = Some (GString ''IT'')"
    unfolding sample_address_def by (simp_all only: map_of_view [OF d]) simp_all
  show "(k, GMap n) \<notin> set sample_address" by (simp add: sample_address_def header_view_def)
qed

lemma sample_maps:
  "(k, GMap n) \<in> set sample_view \<longleftrightarrow> k = ''address'' \<and> n = sample_address
     \<or> k = ''cnf'' \<and> n = header_view [(''jwk'', GMap sample_jwk)]"
  unfolding sample_view_def sample_address_def
  by (auto simp: header_view_def sample_payload_def split: option.splits)

lemma sample_cnf_empty: "\<not> embeds (header_view [(''jwk'', GMap sample_jwk)]) p s"
proof -
  have "\<not> embeds (header_view sample_jwk) q s" for q
    unfolding sample_jwk_view(1) by (rule plain_view_facts(3) [OF flat_jwk_plain [OF sample_jwk_view(2)]])
  then show ?thesis by (cases p) (auto simp: header_view_def embeds_Nil_iff embeds_Cons_iff)
qed

lemma sample_embeds:
  "embeds sample_view p s \<longleftrightarrow> p = [] \<and> s = sample_digest sample_name
     \<or> p = [''address''] \<and> s = sample_digest sample_city"
proof (cases p)
  case Nil
  have "map_of sample_view ''_sd'' = Some (GSlice [GString (sample_digest sample_name)])"
    by (simp add: sample_lookup sample_payload_def)
  then show ?thesis by (auto simp: Nil embeds_Nil_iff)
next
  case (Cons k q)
  have "embeds sample_address q s \<longleftrightarrow> q = [] \<and> s = sample_digest sample_city"
    using sample_address_lookup by (cases q) (auto simp: embeds_Nil_iff embeds_Cons_iff)
  then show ?thesis using sample_cnf_empty by (auto simp: Cons embeds_Cons_iff sample_maps)
qed

lemma sample_one_place: "embeds sample_view p s \<Longrightarrow> embeds sample_view q s \<Longrightarrow> p = q"
  using sample_digests_differ by (auto simp: sample_embeds)

end
