(* ===== verification/Key_Resolver.thy ===== *)
theory Key_Resolver
  imports Verifier_Properties
begin

text \<open>
  The \<open>KeyResolver\<close> interface of \<open>crypto.go\<close>: what a verifier may conclude when its resolver hands
  out only keys it trusts for an issuer, and the adapter from functions to resolvers.
\<close>

section \<open>KeyResolverFunc\<close>

type_synonym KeyResolverFunc = "string \<Rightarrow> string \<Rightarrow> goerr + pubkey"

definition ResolveKey :: "KeyResolverFunc \<Rightarrow> key_resolver" where
  "ResolveKey f iss keyID = f iss keyID"

section \<open>Resolvers that keep to a set of trusted keys\<close>

locale sound_resolver =
  fixes resolve :: key_resolver
    and trusted :: "string \<Rightarrow> pubkey set"
  assumes resolved_trusted: "resolve iss kid = Inr pub \<Longrightarrow> pub \<in> trusted iss"
begin

text \<open>A presentation that verifies was signed under a key that is trusted for the issuer it names.\<close>

lemma verified_by_trusted:
  assumes "Verify \<rho> v raw nonce = Inr res" and "resolver v = resolve"
  shows "\<exists>t header payload pub. Parse raw = Inr t \<and> decodeJWT (IssuerJWT t) = Inr (header, payload)
    \<and> pub \<in> trusted (ResultIssuer res)
    \<and> verifyJWTSignature (prims \<rho>) (IssuerJWT t) pub (string_or_empty (map_of header ''alg'')) = Inr ()"
  using Verify_signed [OF assms(1)] resolved_trusted unfolding assms(2) by blast

lemma untrusted_rejected:
  assumes "trusted iss = {}" and "resolver v = resolve" and "Verify \<rho> v raw nonce = Inr res"
  shows "ResultIssuer res \<noteq> iss"
  using verified_by_trusted [OF assms(3,2)] assms(1) by blast

end

end
