(* ===== verification/Jwx_Adapter.thy ===== *)
theory Jwx_Adapter
  imports Key_Resolver
begin

text \<open>
  \<open>adapters/jwx/jwx.go\<close> without its HTTP cache: the signer over a JWK private key and the static key
  resolver. The module \<open>lestrrat-go/jwx\<close> is third-party code; what the adapter calls of it is the
  record \<open>jwk_package\<close>, over a type \<open>'k\<close> of keys and a type \<open>'s\<close> of key sets.
\<close>

section \<open>The package jwx\<close>

text \<open>\<open>crypto.Signer.Sign(nil, digest, h)\<close> of the private key inside a JWK.\<close>

type_synonym raw_signer = "bytes \<Rightarrow> hash \<Rightarrow> goerr + bytes"

record ('k, 's) jwk_package =
  key_Raw_signer :: "'k \<Rightarrow> goerr + raw_signer"
  key_Raw_public :: "'k \<Rightarrow> goerr + pubkey"
  key_KeyID :: "'k \<Rightarrow> string option"
  key_Thumbprint :: "'k \<Rightarrow> hash \<Rightarrow> goerr + bytes"
  key_PublicKey :: "'k \<Rightarrow> goerr + 'k"
  key_Algorithm :: "'k \<Rightarrow> string"
  key_KeyType :: "'k \<Rightarrow> string"
  key_Get_crv :: "'k \<Rightarrow> goerr + string"
  set_Len :: "'s \<Rightarrow> nat"
  set_Key :: "'s \<Rightarrow> nat \<Rightarrow> 'k"
  set_LookupKeyID :: "'s \<Rightarrow> string \<Rightarrow> 'k option"
  jws_Sign :: "bytes \<Rightarrow> string \<Rightarrow> 'k \<Rightarrow> goerr + bytes"
  jwa_curves :: "string \<times> string \<times> string"
  jwa_algs :: "string \<times> string \<times> string \<times> string \<times> string"

text \<open>
  \<open>jwa_curves\<close> are the constants \<open>jwa.P256\<close>, \<open>P384\<close>, \<open>P521\<close>, \<open>jwa_algs\<close> are \<open>jwa.ES256\<close>, \<open>ES384\<close>,
  \<open>ES512\<close>, \<open>RS256\<close>, \<open>EdDSA\<close>. The package documents them as the names of RFC 7518 and 8037.
\<close>

definition jwa_names :: "('k, 's) jwk_package \<Rightarrow> bool" where
  "jwa_names P \<longleftrightarrow> jwa_curves P = (''P-256'', ''P-384'', ''P-521'')
     \<and> jwa_algs P = (''ES256'', ''ES384'', ''ES512'', ''RS256'', ''EdDSA'')"

section \<open>Helpers\<close>

definition extractPublicKey :: "('k, 's) jwk_package \<Rightarrow> 'k \<Rightarrow> goerr + pubkey" where
  "extractPublicKey P key =
     res_bind (map_err (\<lambda>e. Errorf [Txt ''extracting public JWK: '', Wrapped e]) (key_PublicKey P key))
       (\<lambda>pub. map_err (\<lambda>e. Errorf [Txt ''extracting raw public key: '', Wrapped e]) (key_Raw_public P pub))"

definition inferAlgorithm :: "('k, 's) jwk_package \<Rightarrow> 'k \<Rightarrow> goerr + string" where
  "inferAlgorithm P key =
     (case jwa_algs P of (es256, es384, es512, rs256, eddsa) \<Rightarrow>
     (case jwa_curves P of (p256, p384, p521) \<Rightarrow>
        if key_Algorithm P key \<noteq> [] then Inr (key_Algorithm P key)
        else if key_KeyType P key = ''EC'' then
          (case key_Get_crv P key of
             Inr crv \<Rightarrow>
               if crv = p256 then Inr es256 else if crv = p384 then Inr es384
               else if crv = p521 then Inr es512 else Inr es256
           | Inl _ \<Rightarrow> Inr es256)
        else if key_KeyType P key = ''RSA'' then Inr rs256
        else if key_KeyType P key = ''OKP'' then Inr eddsa
        else Inl (Errorf [Txt ''cannot infer algorithm from key type '', Txt (key_KeyType P key)])))"

definition hashForAlg :: "string \<Rightarrow> goerr + hash" where
  "hashForAlg alg =
     (if alg \<in> {''ES256'', ''RS256'', ''PS256''} then Inr SHA256
      else if alg \<in> {''ES384'', ''RS384'', ''PS384''} then Inr SHA384
      else if alg \<in> {''ES512'', ''RS512'', ''PS512''} then Inr SHA512
      else if alg = ''EdDSA'' then Inr 0
      else Inl (Errorf [Txt ''unsupported algorithm '', Quot alg]))"

text \<open>\<open>h.New()\<close> for the hashes \<open>hashForAlg\<close> returns; 0 stands for signing the message itself.\<close>

definition jwx_hash :: "crypto \<Rightarrow> hash \<Rightarrow> bytes \<Rightarrow> goerr + bytes" where
  "jwx_hash C h data = (if h = 0 then Inr data else Inr (hash_sum C h data))"

section \<open>Signer\<close>

record 'k jwx_signer =
  jwx_key :: 'k
  jwx_alg :: string

record signer_config =
  cfg_alg :: string

type_synonym signer_option = "signer_config \<Rightarrow> signer_config"

definition WithAlgorithm :: "string \<Rightarrow> signer_option" where
  "WithAlgorithm alg c = c\<lparr>cfg_alg := alg\<rparr>"

definition NewSigner ::
  "('k, 's) jwk_package \<Rightarrow> 'k \<Rightarrow> signer_option list \<Rightarrow> goerr + 'k jwx_signer" where
  "NewSigner P key os =
     (let cfg = foldl (\<lambda>c f. f c) \<lparr>cfg_alg = []\<rparr> os; alg = cfg_alg cfg in
      if alg = [] then
        res_bind (map_err (\<lambda>e. Errorf [Txt ''jwx signer: '', Wrapped e]) (inferAlgorithm P key))
          (\<lambda>inferred. Inr \<lparr>jwx_key = key, jwx_alg = inferred\<rparr>)
      else Inr \<lparr>jwx_key = key, jwx_alg = alg\<rparr>)"

definition signRaw ::
  "('k, 's) jwk_package \<Rightarrow> crypto \<Rightarrow> bytes \<Rightarrow> 'k \<Rightarrow> string \<Rightarrow> goerr + bytes" where
  "signRaw P C payload key alg =
     res_bind (map_err (\<lambda>e. Errorf [Txt ''extracting raw key: '', Wrapped e]) (key_Raw_signer P key))
       (\<lambda>raw. res_bind (hashForAlg alg)
       (\<lambda>h. res_bind (jwx_hash C h payload)
       (\<lambda>digest. map_err (\<lambda>e. Errorf [Txt ''signing: '', Wrapped e]) (raw digest h))))"




definition jwx_PublicKey :: "('k, 's) jwk_package \<Rightarrow> 'k jwx_signer \<Rightarrow> goerr + 'k" where
  "jwx_PublicKey P s = key_PublicKey P (jwx_key s)"


section \<open>StaticKeyResolver\<close>

definition nul :: char where "nul = CHR 0x00"

definition entry_name :: "string \<Rightarrow> string \<Rightarrow> string" where
  "entry_name iss kid = iss @ nul # kid"

record static_resolver =
  static_keys :: "(string \<times> pubkey) list"

definition kid_or_empty :: "('k, 's) jwk_package \<Rightarrow> 'k \<Rightarrow> string" where
  "kid_or_empty P key = (case key_KeyID P key of Some k \<Rightarrow> k | None \<Rightarrow> [])"

fun static_key_loop ::
  "('k, 's) jwk_package \<Rightarrow> string \<Rightarrow> 's \<Rightarrow> nat list \<Rightarrow> (string \<times> pubkey) list
     \<Rightarrow> goerr + (string \<times> pubkey) list" where
  "static_key_loop P iss jwks [] ks = Inr ks"
| "static_key_loop P iss jwks (i # rest) ks =
     (case extractPublicKey P (set_Key P jwks i) of
        Inl e \<Rightarrow> Inl e
      | Inr pub \<Rightarrow>
          static_key_loop P iss jwks rest
            (AList.update (entry_name iss (kid_or_empty P (set_Key P jwks i))) pub ks))"

fun static_set_loop ::
  "('k, 's) jwk_package \<Rightarrow> (string \<times> 's) list \<Rightarrow> (string \<times> pubkey) list
     \<Rightarrow> goerr + (string \<times> pubkey) list" where
  "static_set_loop P [] ks = Inr ks"
| "static_set_loop P ((iss, jwks) # r) ks =
     (case static_key_loop P iss jwks [0 ..< set_Len P jwks] ks of
        Inl e \<Rightarrow> Inl e
      | Inr ks' \<Rightarrow> static_set_loop P r ks')"

definition NewStaticKeyResolver ::
  "('k, 's) jwk_package \<Rightarrow> (string \<times> 's) list \<Rightarrow> goerr + static_resolver" where
  "NewStaticKeyResolver P sets =
     res_bind (static_set_loop P sets []) (\<lambda>ks. Inr \<lparr>static_keys = ks\<rparr>)"

definition Static_ResolveKey :: "static_resolver \<Rightarrow> key_resolver" where
  "Static_ResolveKey r iss keyID =
     (case map_of (static_keys r) (entry_name iss keyID) of
        Some k \<Rightarrow> Inr k
      | None \<Rightarrow>
        (case map_of (static_keys r) (entry_name iss []) of
           Some k \<Rightarrow> Inr k
         | None \<Rightarrow> Inl (Errorf [Txt ''no key for issuer='', Quot iss, Txt '' kid='', Quot keyID])))"

section \<open>Signing with the adapter\<close>

lemma hashForAlg_cases:
  "hashForAlg alg = Inr h \<longleftrightarrow> alg_hash alg = Some h \<or> alg = ''EdDSA'' \<and> h = 0"
  by (auto simp: hashForAlg_def alg_hash_def)

lemma alg_hash_nonzero: "alg_hash alg = Some h \<Longrightarrow> h \<noteq> 0"
  by (auto simp: alg_hash_def hash_codes split: if_splits)

lemma alg_hash_EdDSA [simp]: "alg_hash ''EdDSA'' = None"
  by (simp add: alg_hash_def)


lemma signRaw_Inr:
  "signRaw P C payload key alg = Inr sig \<longleftrightarrow>
     (\<exists>raw h. key_Raw_signer P key = Inr raw \<and> hashForAlg alg = Inr h
        \<and> raw (if h = 0 then payload else hash_sum C h payload) h = Inr sig)"
  by (auto simp: signRaw_def res_bind_Inr_iff jwx_hash_def)

text \<open>
  The adapter and the verifier hash alike: for every algorithm name the verifier supports, the
  adapter signs the digest the verifier computes, and the only other name the adapter signs for is
  EdDSA, which the verifier does not know.
\<close>
theorem adapter_hash_agrees:
  "(\<exists>h. algToDigest C alg data = Inr (digest, h)) \<longleftrightarrow>
     alg \<noteq> ''EdDSA'' \<and> (\<exists>h. hashForAlg alg = Inr h \<and> jwx_hash C h data = Inr digest)"
  using alg_hash_nonzero [of alg]
  by (auto simp: algToDigest_eq hashForAlg_cases jwx_hash_def split: option.splits)










lemma inferAlgorithm_abstract:
  assumes "jwa_algs P = (es256, es384, es512, rs256, eddsa)" and "key_Algorithm P key = []"
    and "inferAlgorithm P key = Inr alg"
  shows "if key_KeyType P key = ''OKP'' then alg = eddsa else alg \<in> {es256, es384, es512, rs256}"
  using assms by (auto simp: inferAlgorithm_def split: if_splits sum.splits prod.splits)

lemma inferAlgorithm_names:
  assumes "jwa_names P" and "key_Algorithm P key = []" and "inferAlgorithm P key = Inr alg"
  shows "if key_KeyType P key = ''OKP'' then alg = ''EdDSA''
    else alg \<in> {''ES256'', ''ES384'', ''ES512'', ''RS256''}"
  by (rule inferAlgorithm_abstract [OF _ assms(2,3)]) (use assms(1) in \<open>simp add: jwa_names_def\<close>)

lemma supported_names:
  "alg \<in> {''ES256'', ''ES384'', ''ES512'', ''RS256''} \<Longrightarrow> \<exists>h. alg_hash alg = Some h"
  by (elim insertE) (simp_all add: alg_hash_def)

lemma inferred:
  assumes "NewSigner P key [] = Inr s"
  obtains alg where "inferAlgorithm P key = Inr alg" "s = \<lparr>jwx_key = key, jwx_alg = alg\<rparr>"
  using assms by (auto simp: NewSigner_def res_bind_Inr_iff)

text \<open>
  C31: a signer made without an algorithm override is one for the given key and has the algorithm the key
  names; for a key that names none, it has an algorithm the adapter can hash for, and one the verifier
  supports unless the key is an OKP key.
\<close>
theorem inferred_algorithm_supported:
  assumes "jwa_names P" and "NewSigner P key [] = Inr s"
  shows "jwx_key s = key
    \<and> (if key_Algorithm P key \<noteq> [] then jwx_alg s = key_Algorithm P key
       else (\<exists>h. hashForAlg (jwx_alg s) = Inr h) \<and> (alg_hash (jwx_alg s) = None \<longleftrightarrow> key_KeyType P key = ''OKP''))"
proof -
  obtain alg where alg: "inferAlgorithm P key = Inr alg" and s: "s = \<lparr>jwx_key = key, jwx_alg = alg\<rparr>"
    by (rule inferred [OF assms(2)])
  consider "key_Algorithm P key \<noteq> []" | "key_Algorithm P key = []" "key_KeyType P key = ''OKP''"
    | "key_Algorithm P key = []" "key_KeyType P key \<noteq> ''OKP''" by blast
  then show ?thesis
  proof cases
    case 1
    then show ?thesis using alg by (auto simp: s inferAlgorithm_def split: prod.splits)
  next
    case 2
    then show ?thesis using inferAlgorithm_names [OF assms(1) 2(1) alg] by (simp add: s hashForAlg_cases)
  next
    case 3
    then obtain h where "alg_hash alg = Some h"
      using inferAlgorithm_names [OF assms(1) 3(1) alg] supported_names by auto
    then show ?thesis using 3 by (auto simp: s hashForAlg_cases)
  qed
qed

section \<open>Signatures in ASN.1\<close>

lemma be_nat_Cons: "be_nat (b # bs) = byte_val b * 256 ^ length bs + be_nat bs"
proof (induction bs rule: rev_induct)
  case (snoc c cs)
  have "be_nat (b # cs @ [c]) = be_nat (b # cs) * 256 + byte_val c"
    using be_nat_snoc [of "b # cs" c] by simp
  then show ?case using snoc by (simp add: algebra_simps)
qed (simp add: be_nat_def)

text \<open>The bytes that hold the order of a curve.\<close>

fun order_bytes :: "curve \<Rightarrow> nat" where
  "order_bytes P224 = 28"
| "order_bytes P256 = 32"
| "order_bytes P384 = 48"
| "order_bytes P521 = 66"

text \<open>\<open>ecdsa.Verify\<close> documents that \<open>r\<close> and \<open>s\<close> must be below the order of the curve.\<close>

definition order_checked :: "crypto \<Rightarrow> bool" where
  "order_checked C \<longleftrightarrow>
     (\<forall>crv x y digest r s. ecdsa_Verify C crv x y digest r s \<longrightarrow> r < 256 ^ order_bytes crv)"

lemma asn1_rejected:
  assumes "order_checked C" and "sig = CHR 0x30 # rest" and "2 * order_bytes crv + 2 \<le> length sig"
  shows "\<not> primitive_accepts C (EcdsaKey crv x y) alg h digest sig"
proof
  let ?l = "length sig div 2"
  assume "primitive_accepts C (EcdsaKey crv x y) alg h digest sig"
  then have small: "be_nat (take ?l sig) < 256 ^ order_bytes crv"
    using assms(1) unfolding order_checked_def primitive_accepts.simps by blast
  have l: "Suc (order_bytes crv) \<le> ?l" using assms(3) by linarith
  then obtain m where m: "?l = Suc m" "order_bytes crv \<le> m" by (cases ?l) auto
  have "take ?l sig = take (Suc m) sig" by (simp only: m(1))
  also have "\<dots> = CHR 0x30 # take m rest" by (simp add: assms(2))
  finally have "take ?l sig = CHR 0x30 # take m rest" .
  moreover have "length (take m rest) = m" using m(1) assms(2) by simp
  ultimately have "be_nat (take ?l sig) = 48 * 256 ^ m + be_nat (take m rest)"
    by (simp add: be_nat_Cons)
  moreover have "(256::nat) ^ order_bytes crv \<le> 256 ^ m" using m(2) by (simp add: power_increasing)
  ultimately have "256 ^ order_bytes crv \<le> be_nat (take ?l sig)" by linarith
  then show False using small by simp
qed

text \<open>
  C11: a signer that returns ASN.1 signatures cannot be used: \<open>verifyECDSA\<close> cuts a signature into two
  halves, and the first half of a DER sequence (it starts with the byte 48) is a number above the
  order of the curve unless the sequence is shorter than the two numbers it holds. So no
  presentation of a JWT made with such a signer is accepted by a verifier whose resolver returns
  keys on that curve, whatever the algorithm, the claims and the options are.
\<close>
theorem asn1_signer_never_verifies:
  assumes "order_checked (prims \<rho>)" and "signJWT sg payload = Inr (IssuerJWT t)"
    and "\<And>m sig. Sign sg m = Inr sig \<Longrightarrow> 2 * order_bytes crv + 2 \<le> length sig \<and> take 1 sig = [CHR 0x30]"
    and "\<And>iss kid pub. resolver v iss kid = Inr pub \<Longrightarrow> \<exists>x y. pub = EcdsaKey crv x y"
    and "Parse raw = Inr t"
  shows "\<exists>e. Verify \<rho> v raw nonce = Inl e"
proof (rule ccontr)
  assume "\<nexists>e. Verify \<rho> v raw nonce = Inl e"
  then obtain res where "Verify \<rho> v raw nonce = Inr res" by (meson sum.exhaust_sel)
  from Verify_signed [OF this] obtain header pub where
    pub: "resolver v (ResultIssuer res) (string_or_empty (map_of header ''kid'')) = Inr pub"
    and ver: "verifyJWTSignature (prims \<rho>) (IssuerJWT t) pub (string_or_empty (map_of header ''alg'')) = Inr ()"
    using assms(5) by auto
  obtain hb pb sig where sig: "Sign sg (signing_input hb pb) = Inr sig" "IssuerJWT t = compact hb pb sig"
    using assms(2) by (auto simp: signJWT_def sign_compact_iff simp del: json_enc.simps)
  obtain x y where "pub = EcdsaKey crv x y" using assms(4) [OF pub] by blast
  then obtain h digest where acc: "primitive_accepts (prims \<rho>) (EcdsaKey crv x y)
      (string_or_empty (map_of header ''alg'')) h digest sig"
    using ver by (auto simp: sig(2) verify_compact check_signature_iff simp del: primitive_accepts.simps)
  have len: "2 * order_bytes crv + 2 \<le> length sig" and "take 1 sig = [CHR 0x30]"
    using assms(3) [OF sig(1)] by blast+
  then obtain rest where "sig = CHR 0x30 # rest" by (cases sig) auto
  then show False using asn1_rejected [OF assms(1) _ len] acc by blast
qed

section \<open>The static resolver\<close>

text \<open>The keys of the configuration in the order of the loops, and the table they make.\<close>

definition set_entries :: "('k, 's) jwk_package \<Rightarrow> string \<Rightarrow> 's \<Rightarrow> nat list \<Rightarrow> ((string \<times> string) \<times> pubkey) list" where
  "set_entries P iss jwks is = List.map_filter
     (\<lambda>i. case extractPublicKey P (set_Key P jwks i) of
        Inl _ \<Rightarrow> None | Inr pub \<Rightarrow> Some ((iss, kid_or_empty P (set_Key P jwks i)), pub)) is"

definition config_entries :: "('k, 's) jwk_package \<Rightarrow> (string \<times> 's) list \<Rightarrow> ((string \<times> string) \<times> pubkey) list" where
  "config_entries P sets = concat (map (\<lambda>(iss, jwks). set_entries P iss jwks [0 ..< set_Len P jwks]) sets)"

definition named :: "((string \<times> string) \<times> pubkey) list \<Rightarrow> (string \<times> pubkey) list" where
  "named es = map (\<lambda>((iss, kid), pub). (entry_name iss kid, pub)) es"

lemma named_append [simp]: "named (a @ b) = named a @ named b"
  by (simp add: named_def)

lemma static_key_loop_Inr:
  "static_key_loop P iss jwks is ks = Inr ks' \<Longrightarrow> ks' = assign_all ks (named (set_entries P iss jwks is))"
  by (induction P iss jwks "is" ks rule: static_key_loop.induct)
     (auto simp: set_entries_def List.map_filter_simps named_def split: sum.splits)

lemma static_set_loop_Inr:
  "static_set_loop P sets ks = Inr ks' \<Longrightarrow> ks' = assign_all ks (named (config_entries P sets))"
  by (induction P sets ks rule: static_set_loop.induct)
     (auto simp: config_entries_def assign_all_append named_def dest!: static_key_loop_Inr split: sum.splits)

lemma entry_name_eq:
  assumes "nul \<notin> set iss" "nul \<notin> set kid"
  shows "entry_name q k = entry_name iss kid \<longleftrightarrow> q = iss \<and> k = kid"
proof
  assume e: "entry_name q k = entry_name iss kid"
  then have "count_list (entry_name q k) nul = 1"
    using assms by (simp add: entry_name_def count_notin)
  then have "nul \<notin> set q" "nul \<notin> set k"
    by (auto simp: entry_name_def count_list_0_iff)
  then show "q = iss \<and> k = kid"
    using e assms unfolding entry_name_def by (metis append_Cons_eq_iff)
qed (simp add: entry_name_def)

text \<open>The configuration names issuers and keys without NUL bytes, as URIs and key identifiers are.\<close>

definition nul_free :: "('k, 's) jwk_package \<Rightarrow> (string \<times> 's) list \<Rightarrow> bool" where
  "nul_free P sets \<longleftrightarrow>
     (\<forall>((iss, kid), pub) \<in> set (config_entries P sets). nul \<notin> set iss \<and> nul \<notin> set kid)"

lemma map_of_named:
  "\<forall>((iss, kid), pub) \<in> set es. nul \<notin> set iss \<and> nul \<notin> set kid \<Longrightarrow>
     map_of (named es) (entry_name q k) = map_of es (q, k)"
  by (induction es) (auto simp: named_def entry_name_eq)

lemma static_table:
  assumes "NewStaticKeyResolver P sets = Inr r" and "nul_free P sets"
  shows "map_of (static_keys r) (entry_name q k) = map_of (rev (config_entries P sets)) (q, k)"
proof -
  have "static_keys r = assign_all [] (named (config_entries P sets))"
    using assms(1) static_set_loop_Inr by (auto simp: NewStaticKeyResolver_def res_bind_Inr_iff)
  moreover have "rev (named es) = named (rev es)" for es by (simp add: named_def rev_map)
  ultimately show ?thesis
    using map_of_named [of "rev (config_entries P sets)"] assms(2)
    by (simp add: map_of_assign_all nul_free_def)
qed

text \<open>
  C15: the static resolver implements its specification, for a configuration whose issuer names and key
  identifiers are free of NUL bytes: it returns the last key configured for the issuer under the key
  identifier of the header, else the last one configured for the issuer without an identifier, else an
  error. The flat table of joined names never mixes up two issuers,
  even for a presentation that chooses its issuer and key identifier freely.
\<close>
theorem static_resolver_refines:
  assumes "NewStaticKeyResolver P sets = Inr r" and "nul_free P sets"
  shows "Static_ResolveKey r iss kid =
    (case map_of (rev (config_entries P sets)) (iss, kid) of
       Some pub \<Rightarrow> Inr pub
     | None \<Rightarrow> (case map_of (rev (config_entries P sets)) (iss, []) of
         Some pub \<Rightarrow> Inr pub
       | None \<Rightarrow> Inl (Errorf [Txt ''no key for issuer='', Quot iss, Txt '' kid='', Quot kid])))"
  using static_table [OF assms] by (simp add: Static_ResolveKey_def split: option.split)

text \<open>The keys a configuration holds for an issuer; the static resolver keeps to them.\<close>

definition configured :: "('k, 's) jwk_package \<Rightarrow> (string \<times> 's) list \<Rightarrow> string \<Rightarrow> pubkey set" where
  "configured P sets iss = {pub. \<exists>jwks i. (iss, jwks) \<in> set sets \<and> i < set_Len P jwks
     \<and> extractPublicKey P (set_Key P jwks i) = Inr pub}"

definition listed :: "static_resolver \<Rightarrow> string \<Rightarrow> pubkey set" where
  "listed r iss = {pub. \<exists>kid. map_of (static_keys r) (entry_name iss kid) = Some pub}"

interpretation static: sound_resolver "Static_ResolveKey r" "listed r" for r
  by unfold_locales (auto simp: Static_ResolveKey_def listed_def split: option.splits)

interpretation func: sound_resolver "ResolveKey f" "\<lambda>iss. {pub. \<exists>kid. f iss kid = Inr pub}" for f
  by unfold_locales (auto simp: ResolveKey_def)

lemma set_entries_iff:
  "((iss, kid), pub) \<in> set (set_entries P q jwks is) \<longleftrightarrow> q = iss
     \<and> (\<exists>i \<in> set is. extractPublicKey P (set_Key P jwks i) = Inr pub \<and> kid_or_empty P (set_Key P jwks i) = kid)"
  by (induction "is") (auto simp: set_entries_def List.map_filter_simps split: sum.splits)

lemma config_entry_configured:
  "((iss, kid), pub) \<in> set (config_entries P sets) \<Longrightarrow> pub \<in> configured P sets iss"
  by (auto simp: config_entries_def set_entries_iff configured_def) blast

lemma listed_configured:
  assumes "NewStaticKeyResolver P sets = Inr r" and "nul_free P sets"
  shows "listed r iss \<subseteq> configured P sets iss"
proof
  fix pub assume "pub \<in> listed r iss"
  then obtain kid where "map_of (static_keys r) (entry_name iss kid) = Some pub" by (auto simp: listed_def)
  then have "map_of (rev (config_entries P sets)) (iss, kid) = Some pub"
    using static_table [OF assms] by simp
  then have "((iss, kid), pub) \<in> set (config_entries P sets)" by (auto dest: map_of_SomeD)
  then show "pub \<in> configured P sets iss" by (rule config_entry_configured)
qed

text \<open>
  C29: with a static resolver whose configuration names issuers and keys without NUL bytes, a presentation
  that verifies was signed under a key that the
  configuration lists for the very issuer the result names.
\<close>
theorem static_verified_by_configured_key:
  assumes "NewStaticKeyResolver P sets = Inr r" and "nul_free P sets"
    and "resolver v = Static_ResolveKey r" and "Verify \<rho> v raw nonce = Inr res"
  shows "\<exists>t header payload pub. Parse raw = Inr t \<and> decodeJWT (IssuerJWT t) = Inr (header, payload)
    \<and> pub \<in> configured P sets (ResultIssuer res)
    \<and> verifyJWTSignature (prims \<rho>) (IssuerJWT t) pub (string_or_empty (map_of header ''alg'')) = Inr ()"
  using static.verified_by_trusted [OF assms(4,3)] listed_configured [OF assms(1,2)] by blast

section \<open>A concrete package\<close>

text \<open>Keys are pairs of a key identifier and a coordinate, sets are lists of keys.\<close>

definition toy_package :: "(string \<times> nat, (string \<times> nat) list) jwk_package" where
  "toy_package =
     \<lparr>key_Raw_signer = (\<lambda>k. Inr (\<lambda>digest h. Inr (digest @ digest))),
      key_Raw_public = (\<lambda>(kid, x). Inr (EcdsaKey P256 x (x + 1))),
      key_KeyID = (\<lambda>(kid, x). if kid = [] then None else Some kid),
      key_Thumbprint = (\<lambda>k h. Inr ''thumb''), key_PublicKey = Inr, key_Algorithm = (\<lambda>k. []),
      key_KeyType = (\<lambda>k. ''EC''), key_Get_crv = (\<lambda>k. Inr ''P-256''),
      set_Len = length, set_Key = (!),
      set_LookupKeyID = (\<lambda>ks kid. find (\<lambda>k. fst k = kid) ks),
      jws_Sign = (\<lambda>payload alg k. Inl (LibError ''jws.Sign'')),
      jwa_curves = (''P-256'', ''P-384'', ''P-521''),
      jwa_algs = (''ES256'', ''ES384'', ''ES512'', ''RS256'', ''EdDSA'')\<rparr>"

definition toy_jwx_signer :: "(string \<times> nat) jwx_signer" where
  "toy_jwx_signer = \<lparr>jwx_key = (''k1'', 1), jwx_alg = ''ES256''\<rparr>"

lemma toy_jwa_names: "jwa_names toy_package"
  by (simp add: jwa_names_def toy_package_def)

theorem inferred_algorithm_supported_witness:
  "NewSigner toy_package (''k1'', 1) [] = Inr toy_jwx_signer \<and> alg_hash (jwx_alg toy_jwx_signer) \<noteq> None"
proof -
  have "NewSigner toy_package (''k1'', 1) [] = Inr toy_jwx_signer"
    by (simp add: NewSigner_def inferAlgorithm_def toy_package_def toy_jwx_signer_def)
  with inferred_algorithm_supported [OF toy_jwa_names this] show ?thesis by (simp add: toy_package_def)
qed





definition toy_config :: "(string \<times> (string \<times> nat) list) list" where
  "toy_config = [(''https://issuer'', [(''k0'', 7), (''k1'', 1)]), (''https://other'', [(''k1'', 9)])]"

definition toy_static :: static_resolver where
  "toy_static = \<lparr>static_keys =
     [(entry_name ''https://issuer'' ''k0'', EcdsaKey P256 7 8), (entry_name ''https://issuer'' ''k1'', EcdsaKey P256 1 2),
      (entry_name ''https://other'' ''k1'', EcdsaKey P256 9 10)]\<rparr>"

lemma toy_static: "NewStaticKeyResolver toy_package toy_config = Inr toy_static"
  by (simp add: NewStaticKeyResolver_def toy_config_def toy_static_def toy_package_def extractPublicKey_def
      kid_or_empty_def entry_name_def upt_rec)

lemma toy_nul_free: "nul_free toy_package toy_config"
  by (auto simp: nul_free_def config_entries_def set_entries_def List.map_filter_simps toy_config_def
      toy_package_def extractPublicKey_def kid_or_empty_def nul_def upt_rec)

theorem static_resolver_refines_witness:
  "Static_ResolveKey toy_static ''https://issuer'' ''k1'' = Inr (EcdsaKey P256 1 2)
    \<and> Static_ResolveKey toy_static ''https://other'' ''k0'' \<noteq> Inr (EcdsaKey P256 7 8)"
  unfolding static_resolver_refines [OF toy_static toy_nul_free]
  by (simp add: config_entries_def set_entries_def List.map_filter_simps toy_config_def
      toy_package_def extractPublicKey_def kid_or_empty_def upt_rec)

end
