(* ===== verification/Native_Keys.thy ===== *)
theory Native_Keys
  imports EndToEnd
begin

text \<open>
  Tokens for holder keys in the key structs of the standard library, \<open>*ecdsa.PublicKey\<close> and
  \<open>*rsa.PublicKey\<close>: what \<open>buildCnf\<close> makes of them, and that no key-binding JWT is accepted for them.
\<close>

section \<open>Keys that marshal\<close>

definition native_key :: "pubkey \<Rightarrow> bool" where
  "native_key pub \<longleftrightarrow> (\<nexists>v. pub = OtherKey v)"

lemma native_json:
  assumes "native_key pub"
  obtains m where "key_json pub = GMap m" "map_of m ''kty'' = None" "distinct (map fst m)"
    "json_ok (GMap m)" "json_depth (GMap m) \<le> json_max_depth"
    "\<forall>(k, v) \<in> set m. v = GMap [] \<or> (\<exists>i. v = GInt i)"
proof -
  have "utf8_valid ''Curve''" "utf8_valid ''X''" "utf8_valid ''Y''" "utf8_valid ''N''" "utf8_valid ''E''"
    by (rule ascii_utf8_valid; simp)+
  then show ?thesis
    using assms that by (cases pub) (auto simp: native_key_def key_json_def json_max_depth_def)
qed

lemma to_any_fields_each:
  "to_any_fields kvs = Some m \<Longrightarrow> (k, j) \<in> set kvs \<Longrightarrow> to_any j \<noteq> None"
  by (induction kvs arbitrary: m) (auto split: option.splits)

lemma json_view_fields_mem: "(k, v) \<in> set m \<Longrightarrow> (k, json_view v) \<in> set (json_view_fields m)"
  by (induction m) auto

lemma json_enc_fields_each: "json_enc_fields m = Some z \<Longrightarrow> (k, v) \<in> set m \<Longrightarrow> json_enc v \<noteq> None"
  by (induction m arbitrary: z) (auto split: option.splits)

text \<open>A number that \<open>Unmarshal\<close> accepts is in the range of a float, and the float is normal.\<close>

lemma to_any_int: "to_any (json_view (GInt i)) \<noteq> None \<longleftrightarrow> f64_of_int i \<noteq> None"
  by (simp add: num_value_show f64_of_int_def)

lemma f64_of_int_normal: "f64_of_int i = Some f \<Longrightarrow> normal_zero f"
  by (simp add: f64_of_int_def f64_of_ratio_normal_zero)

lemma decodes_each: "\<forall>(k, v) \<in> set m. decodes v \<Longrightarrow> decodes_fields m"
  by (induction m) auto

lemma json_ok_key: "json_ok_fields m \<Longrightarrow> (k, v) \<in> set m \<Longrightarrow> utf8_valid k"
  by (induction m) auto

lemma decodes_member: "decodes_fields m \<Longrightarrow> (k, v) \<in> set m \<Longrightarrow> decodes v"
  by (induction m) auto

lemma native_portable:
  assumes "native_key pub" "buildCnf pub = Inr cnf"
  obtains m where "key_json pub = GMap m" "portable (GMap m)" "map_of m ''kty'' = None"
    "\<forall>(k, v) \<in> set m. v = GMap [] \<or> (\<exists>i. v = GInt i)" "cnf = [(''jwk'', GMap (header_view m))]"
proof -
  obtain m where m: "key_json pub = GMap m" "map_of m ''kty'' = None" "distinct (map fst m)"
    "json_ok (GMap m)" "json_depth (GMap m) \<le> json_max_depth"
    and vals: "\<forall>(k, v) \<in> set m. v = GMap [] \<or> (\<exists>i. v = GInt i)"
    by (rule native_json [OF assms(1)])
  obtain t where t: "json_enc (GMap m) = Some t" "parse_json t = Some (json_view (GMap m))"
    using parse_json_enc [OF m(4,5)] by blast
  obtain jwk where "unmarshal_map t = Some jwk"
    using assms(2) m(1) t(1) by (auto simp: buildCnf_def simp del: json_enc.simps split: option.splits)
  then obtain u where u: "to_any_fields (sort_key fst (json_view_fields m)) = Some u"
    using t(2) by (auto simp: unmarshal_map_def split: option.splits)
  have "decodes v" if kv: "(k, v) \<in> set m" for k v
  proof -
    have "(k, json_view v) \<in> set (sort_key fst (json_view_fields m))" using json_view_fields_mem [OF kv] by simp
    then have some: "to_any (json_view v) \<noteq> None" by (rule to_any_fields_each [OF u])
    consider "v = GMap []" | i where "v = GInt i" using vals kv by blast
    then show ?thesis
    proof cases
      case 2
      then have "f64_of_int i \<noteq> None" using some to_any_int [of i] by blast
      then show ?thesis using 2 by simp
    qed simp
  qed
  then have port: "portable (GMap m)" using m decodes_each [of m] by (auto simp: portable_def)
  then have "cnf = [(''jwk'', GMap (header_view m))]" using buildCnf_view [OF m(1)] assms(2) by simp
  then show ?thesis using that m(1,2) vals port by blast
qed

lemma header_view_mem:
  "(k, w) \<in> set (header_view m) \<longleftrightarrow> (\<exists>v. (k, v) \<in> set m \<and> w = json_norm v)"
  by (simp add: header_view_def set_json_norm_fields) force

lemma native_jwk_ok:
  assumes "portable (GMap m)" "\<forall>(k, v) \<in> set m. v = GMap [] \<or> (\<exists>i. v = GInt i)"
    and "json_enc (GMap (header_view m)) \<noteq> None"
  shows "jwk_ok m"
proof -
  have d: "distinct (map fst (header_view m))" using assms(1) by (intro distinct_view) (simp add: portable_def)
  obtain z where z: "json_enc_fields (header_view m) = Some z" using assms(3) by auto
  have "utf8_valid k \<and> plain_value w" if kw: "(k, w) \<in> set (header_view m)" for k w
  proof -
    obtain v where v: "(k, v) \<in> set m" "w = json_norm v" using kw header_view_mem by blast
    have k: "utf8_valid k" using v(1) assms(1) by (auto simp: portable_def intro: json_ok_key)
    have dec: "decodes v" using v(1) assms(1) by (auto simp: portable_def intro: decodes_member)
    consider "v = GMap []" | i where "v = GInt i" using assms(2) v(1) by blast
    then show ?thesis
    proof cases
      case 1
      then show ?thesis using k v(2) by simp
    next
      case 2
      then obtain f where f: "f64_of_int i = Some f" using dec by auto
      then have w: "w = GFloat f" using v(2) 2 by simp
      then obtain s where "f64_fmt f = Some s" using json_enc_fields_each [OF z kw] by auto
      then show ?thesis using f64_fmt_reads_back f64_of_int_normal [OF f] k w by simp
    qed
  qed
  then show ?thesis using assms(1) d by (auto simp: jwk_ok_def plain_view_def list_all_iff)
qed

section \<open>Tokens for such keys\<close>

text \<open>Issuance can only succeed if the confirmation claim marshals, and then it reads back.\<close>

lemma native_holder_ok:
  assumes "Issue C R now I req i = (Inr tok, j)" and "HolderKey req = Some pub" and "native_key pub"
  shows "holder_key_ok (HolderKey req)"
proof -
  obtain sdAlg payload p where p: "issuer_payload I req now sdAlg payload = Inr p"
    and sig: "signJWT (issuer_signer I) p = Inr (IssuerJWT tok)"
    by (rule Issue_Inr [OF assms(1)]) blast
  obtain cnf where cnf: "buildCnf pub = Inr cnf"
    and pc: "p = drop_empty_sd (AList.update ''cnf'' (GMap cnf) (registered I req now sdAlg payload))"
    using p assms(2) by (auto simp: issuer_payload_def add_cnf_def res_bind_Inr_iff)
  obtain m where m: "key_json pub = GMap m" "portable (GMap m)"
    "\<forall>(k, v) \<in> set m. v = GMap [] \<or> (\<exists>i. v = GInt i)" "cnf = [(''jwk'', GMap (header_view m))]"
    by (rule native_portable [OF assms(3) cnf])
  have "map_of p ''cnf'' = Some (GMap cnf)" by (simp add: pc drop_empty_sd_def)
  then have mem: "(''cnf'', GMap cnf) \<in> set p" by (rule map_of_SomeD)
  obtain pb where "json_enc (GMap p) = Some pb"
    using sig by (auto simp: signJWT_def sign_compact_iff simp del: json_enc.simps)
  then obtain z where "json_enc_fields p = Some z" by auto
  then have "json_enc (GMap cnf) \<noteq> None" using mem by (rule json_enc_fields_each)
  then have "json_enc (GMap (header_view m)) \<noteq> None"
    by (auto simp: m(4) simp del: json_enc.simps(8) split: option.splits) (simp split: option.splits)
  then show ?thesis
    using native_jwk_ok [OF m(2,3)] m(1) assms(2) by (simp add: holder_key_ok_def)
qed

lemma issued_times_key [simp]:
  "issued_nbf (req\<lparr>HolderKey := k\<rparr>) now = issued_nbf req now"
  "issued_exp I (req\<lparr>HolderKey := k\<rparr>) now = issued_exp I req now"
  unfolding issued_nbf_def issued_exp_def by (cases "is_zero_time (NotBefore req)"; cases "is_zero_time (ExpiresAt req)"; simp)+

lemma good_with_key:
  "good_request I (req\<lparr>HolderKey := None\<rparr>) now \<Longrightarrow> holder_key_ok (HolderKey req) \<Longrightarrow> good_request I req now"
  by (simp add: good_request_def)

lemma named_claims_subset:
  assumes "set encs \<subseteq> set encs'"
  shows "keys (named_claims encs) \<subseteq> keys (named_claims encs')"
proof -
  have "set (named_claims encs) \<subseteq> set (named_claims encs')"
    using assms by (auto simp: named_claims_def set_map_filter_iff) blast
  then show ?thesis unfolding keys_def by (rule image_mono)
qed

lemma native_key_rejected:
  assumes "Issue C R now I req i = (Inr tok, j)" and "good_request I (req\<lparr>HolderKey := None\<rparr>) now"
    and "HolderKey req = Some pub" and "native_key pub"
    and "keys (expected_claims (Claims req) (SelectiveFields req)) \<inter> registered_names = {}"
    and "Parse raw = Inr t" and "IssuerJWT t = IssuerJWT tok" and "set (Disclosures t) \<subseteq> set (Disclosures tok)"
    and "HasKeyBinding t" and "fair_run \<rho>"
  shows "\<exists>err. Verify \<rho> v raw nonce = Inl err"
proof (rule ccontr)
  assume "\<nexists>err. Verify \<rho> v raw nonce = Inl err"
  then obtain res where "Verify \<rho> v raw nonce = Inr res" by (meson sum.exhaust_sel)
  then obtain header payload st kb where dec: "decodeJWT (IssuerJWT tok) = Inr (header, payload)"
    and vc: "verify_claims \<rho> t payload = Inr st"
    and vb: "verify_binding (prims \<rho>) (vopts v) t (issuerPayload st) nonce = Inr kb"
    using assms(6,7) by (auto simp: Verify_Inr authenticate_Inr)
  have hk: "holder_key_ok (HolderKey req)" by (rule native_holder_ok [OF assms(1,3,4)])
  then have good: "good_request I req now" by (rule good_with_key [OF assms(2)])
  obtain sdAlg m where sig: "signJWT (issuer_signer I) m = Inr (IssuerJWT tok)"
    and pay: "issued_payload C I req now sdAlg (Disclosures tok) m"
    by (rule issued [OF assms(1) good])
  have payload: "payload = header_view m" using issued_decodes [OF pay good sig] dec by simp
  obtain jwk where jwk: "key_json pub = GMap jwk" "jwk_ok jwk" "map_of jwk ''kty'' = None"
    by (rule native_json [OF assms(4)]) (use hk assms(3) in \<open>simp add: holder_key_ok_def\<close>)
  have cnf: "map_of (header_view m) ''cnf'' = Some (GMap [(''jwk'', GMap (header_view jwk))])"
    by (rule issued_cnf [OF pay assms(3) jwk(1,2)])
  have "named_claims (Disclosures tok) = expected_claims (Claims req) (SelectiveFields req)"
    using pay unfolding issued_payload_def by blast
  then have "''cnf'' \<notin> keys (named_claims (Disclosures t))"
    using named_claims_subset [OF assms(8)] assms(5) by (auto simp: registered_names_def)
  moreover have "\<not> embeds (header_view m) (''cnf'' # p) s" for p s
    by (rule issued_not_embedded [OF pay hk, where v = "GMap [(''jwk'', GMap (header_view jwk))]"])
       (simp add: cnf_entry_def assms(3) jwk(1))
  ultimately have "map_of (issuerPayload st) ''cnf'' = Some (GMap [(''jwk'', GMap (header_view jwk))])"
    using claim_kept [OF assms(10) vc] cnf unfolding payload by simp
  then have "extractCnf (issuerPayload st) = Inr (header_view jwk)" by (simp add: extractCnf_def)
  then obtain hpub where "jwkToPublicKey (GMap (header_view jwk)) = Inr hpub"
    using vb assms(9) by (auto simp: verify_binding_Inr verifyKBJWT_Inr)
  moreover have "map_of (header_view jwk) ''kty'' = None"
    using jwk(2,3) by (simp add: map_of_view jwk_ok_def portable_def)
  ultimately show False by (simp add: jwkToPublicKey_def Let_def)
qed

text \<open>
  C13: key binding is impossible for a holder key in one of the standard library's own key structs, which
  \<open>buildCnf\<close> means to support: a token issued for an \<open>*ecdsa.PublicKey\<close> or \<open>*rsa.PublicKey\<close>, on a request
  that is good but for its holder key and has no selective claim named like a registered one (a disclosed
  claim called \<open>cnf\<close> would replace the key), is rejected with every key-binding JWT, for every choice of
  its disclosures, by every verifier and whatever order \<open>range\<close> visits the maps in. Good is what
  \<open>good_request\<close> says: names and values that JSON carries, no selective structured claim, no top-level
  claim named like a registered one, objects at most 16 deep, times below 2^53.
\<close>
theorem native_holder_never_binds:
  assumes "Issue C R now I req i = (Inr tok, j)" and "good_request I (req\<lparr>HolderKey := None\<rparr>) now"
    and "HolderKey req = Some pub" and "pub = EcdsaKey crv x y \<or> pub = RsaKey n e"
    and "keys (expected_claims (Claims req) (SelectiveFields req)) \<inter> registered_names = {}"
    and "Parse raw = Inr t" and "IssuerJWT t = IssuerJWT tok" and "set (Disclosures t) \<subseteq> set (Disclosures tok)"
    and "HasKeyBinding t" and "fair_run \<rho>"
  shows "\<exists>err. Verify \<rho> v raw nonce = Inl err"
proof -
  have "native_key pub" using assms(4) by (auto simp: native_key_def)
  then show ?thesis by (rule native_key_rejected [OF assms(1-3) _ assms(5-10)])
qed

end
