(* ===== verification/Mortgage.thy ===== *)
theory Mortgage
  imports Native_Keys Key_Resolver
begin

text \<open>
  \<open>example/mortgage/main.go\<close>: a bank, a wallet and a conveyancer in one process, as a function from what
  the process meets to what it prints and how it ends.
\<close>

section \<open>Dates\<close>

text \<open>
  \<open>Format(time.DateOnly)\<close> of a time in a zone \<open>zone\<close> seconds east of UTC: the civil date of the day, in
  the proleptic Gregorian calendar, counted from 1 March of a year divisible by 400.
\<close>

definition civil :: "int \<Rightarrow> int \<times> int \<times> int" where
  "civil day =
     (let z = day + 306;
          doe = z mod 146097;
          yoe = (doe - doe div 1460 + doe div 36524 - doe div 146096) div 365;
          doy = doe - (365 * yoe + yoe div 4 - yoe div 100);
          mp = (5 * doy + 2) div 153;
          m = (if mp < 10 then mp + 3 else mp - 9)
      in (yoe + z div 146097 * 400 + (if m \<le> 2 then 1 else 0), m, doy - (153 * mp + 2) div 5 + 1))"

definition pad :: "nat \<Rightarrow> int \<Rightarrow> string" where
  "pad w i =
     (let s = show_nat (nat \<bar>i\<bar>) in
      (if i < 0 then ''-'' else []) @ replicate (w - length s) (CHR ''0'') @ s)"

definition date_only :: "int \<Rightarrow> gtime \<Rightarrow> string" where
  "date_only zone t =
     (case civil ((tsec t + zone) div 86400) of
        (y, m, d) \<Rightarrow> pad 4 y @ ''-'' @ pad 2 m @ ''-'' @ pad 2 d)"

text \<open>1 January of year 1, 29 February and 1 March 2000, 1 March 2100 (after 28 February), 14 November 2023.\<close>

lemma civil_sample:
  "civil 0 = (1, 1, 1)" "civil 730178 = (2000, 2, 29)" "civil 730179 = (2000, 3, 1)"
  "civil 766702 = (2100, 2, 28)" "civil 766703 = (2100, 3, 1)" "civil 738837 = (2023, 11, 14)"
  by (code_simp)+

section \<open>The signer of the example\<close>

text \<open>
  An \<open>*ecdsa.PrivateKey\<close> on P-256: the point of its public key, and \<open>ecdsa.SignASN1\<close> of it, which reads
  \<open>rand.Reader\<close> and may fail.
\<close>

record ec_private =
  ec_x :: nat
  ec_y :: nat
  SignASN1 :: "bytes \<Rightarrow> goerr + bytes"

definition ec_public :: "ec_private \<Rightarrow> pubkey" where
  "ec_public k = EcdsaKey P256 (ec_x k) (ec_y k)"

record ecSigner =
  priv :: ec_private
  ec_kid :: string

definition ec_Sign :: "crypto \<Rightarrow> ecSigner \<Rightarrow> bytes \<Rightarrow> goerr + bytes" where
  "ec_Sign C s payload = SignASN1 (priv s) (hash_sum C SHA256 payload)"

definition ec_Algorithm :: "ecSigner \<Rightarrow> string" where
  "ec_Algorithm s = ''ES256''"

definition ec_KeyID :: "ecSigner \<Rightarrow> string" where
  "ec_KeyID s = ec_kid s"

definition ec_signer :: "crypto \<Rightarrow> ecSigner \<Rightarrow> signer" where
  "ec_signer C s = \<lparr>Sign = ec_Sign C s, Algorithm = ec_Algorithm s, KeyID = ec_KeyID s\<rparr>"

section \<open>The parties\<close>

text \<open>
  What the process meets: the primitives, the results of the two \<open>GenerateKey\<close> calls, the random bytes
  of the issuer, three readings of the clock before verification, the local zone, the order in which
  the issuer visits the two maps, and the surroundings of the two calls of \<open>Verify\<close>.
\<close>

record world =
  w_crypto :: crypto
  w_bank :: "goerr + ec_private"
  w_wallet :: "goerr + ec_private"
  w_random :: rng
  w_offer_time :: gtime
  w_issue_time :: gtime
  w_present_time :: gtime
  w_zone :: int
  w_visit :: "gmap \<Rightarrow> gmap"
  w_verify :: run
  w_replay :: run

definition bank_uri :: string where "bank_uri = ''https://lloyds.example''"
definition offer_vct :: string where "offer_vct = ''https://schema.pyxical.com/MortgageOffer''"
definition conveyancerURI :: string where "conveyancerURI = ''https://smiths-conveyancers.example''"
definition challenge :: string where "challenge = ''conveyancer-challenge-9f3ab''"

definition mortgage_resolver :: "ec_private \<Rightarrow> KeyResolverFunc" where
  "mortgage_resolver bankKey iss kid =
     (if iss = bank_uri then Inr (ec_public bankKey)
      else Inl (Errorf [Txt ''unknown issuer '', Quot iss]))"

definition bankSigner :: "world \<Rightarrow> ec_private \<Rightarrow> signer" where
  "bankSigner w k = ec_signer (w_crypto w) \<lparr>priv = k, ec_kid = ''bank-signing-key-1''\<rparr>"

definition walletSigner :: "world \<Rightarrow> ec_private \<Rightarrow> signer" where
  "walletSigner w k = ec_signer (w_crypto w) \<lparr>priv = k, ec_kid = ''wallet-key-1''\<rparr>"

definition mortgage_issuer :: "world \<Rightarrow> ec_private \<Rightarrow> issuer" where
  "mortgage_issuer w bankKey =
     NewIssuer bank_uri (bankSigner w bankKey)
       [WithSchemaURI ''https://schema.pyxical.com/mortgage-offer/v1'', WithTokenTTL (90 * 24 * hour)]"

definition applicant :: gmap where
  "applicant = [(''name'', GString ''Jane Smith''), (''dob'', GString ''1985-06-15''), (''ref'', GString ''APP-2025-78291'')]"

definition offer_claims :: "world \<Rightarrow> gmap" where
  "offer_claims w =
     [(''bank_name'', GString ''Lloyds Bank plc''), (''bank_lei'', GString ''H7FNTJ4851HG0EXQ1Z70''),
      (''offer_expiry'', GString (date_only (w_zone w) (time_add (w_offer_time w) (90 * 24 * hour)))),
      (''max_amount'', GInt 450000), (''currency'', GString ''GBP''),
      (''applicant'', Structured (w_visit w applicant) [''name'', ''dob''])]"

definition offer_request :: "world \<Rightarrow> ec_private \<Rightarrow> issue_request" where
  "offer_request w walletKey =
     \<lparr>VCT = offer_vct, Subject = ''customer-ref-7829'', Claims = w_visit w (offer_claims w),
      SelectiveFields = [''max_amount'', ''currency''], HolderKey = Some (ec_public walletKey),
      NotBefore = Time 0 0, ExpiresAt = Time 0 0\<rparr>"

definition presentation :: present_options where
  "presentation = \<lparr>RevealClaims = [], Nonce = challenge, Audience = conveyancerURI, KeyBinding = True\<rparr>"

definition conveyancer :: "ec_private \<Rightarrow> verifier" where
  "conveyancer bankKey =
     NewVerifier (ResolveKey (mortgage_resolver bankKey))
       [RequireKeyBinding conveyancerURI, ExpectVCT offer_vct, WithClockSkew (30 * 1000000000)]"

section \<open>Indented JSON\<close>

text \<open>
  What \<open>json.MarshalIndent\<close> makes of the compact text: a line break with the prefix and one unit per level
  after every opening bracket and comma and before every closing bracket, a space after every colon,
  empty brackets left together, and string literals as they are.
\<close>

datatype scan = Outside | InString | Escaped

definition line_break :: "string \<Rightarrow> string \<Rightarrow> nat \<Rightarrow> string" where
  "line_break lead unit depth = CHR 0x0A # lead @ concat (replicate depth unit)"

fun indent_text :: "string \<Rightarrow> string \<Rightarrow> scan \<Rightarrow> bool \<Rightarrow> nat \<Rightarrow> string \<Rightarrow> string" where
  "indent_text lead unit sc need depth [] = []"
| "indent_text lead unit InString need depth (c # r) =
     c # indent_text lead unit (if c = CHR 0x22 then Outside else if c = CHR 0x5C then Escaped else InString) need depth r"
| "indent_text lead unit Escaped need depth (c # r) = c # indent_text lead unit InString need depth r"
| "indent_text lead unit Outside need depth (c # r) =
     (if c = CHR ''}'' \<or> c = CHR '']'' then
        (if need then c # indent_text lead unit Outside False depth r
         else line_break lead unit (depth - 1) @ c # indent_text lead unit Outside False (depth - 1) r)
      else
        (let d = (if need then depth + 1 else depth) in
         (if need then line_break lead unit d else []) @ c #
         (if c = CHR ''{'' \<or> c = CHR ''['' then indent_text lead unit Outside True d r
          else if c = CHR '','' then line_break lead unit d @ indent_text lead unit Outside False d r
          else if c = CHR '':'' then CHR '' '' # indent_text lead unit Outside False d r
          else indent_text lead unit (if c = CHR 0x22 then InString else Outside) False d r)))"

lemma indent_sample:
  "indent_text [] ''  '' Outside False 0 (''{'' @ [CHR 0x22] @ ''a,b'' @ [CHR 0x22] @ '':[true,{}]}'') =
     ''{'' @ [CHR 0x0A] @ ''  '' @ [CHR 0x22] @ ''a,b'' @ [CHR 0x22] @ '': ['' @ [CHR 0x0A] @ ''    true,'' @ [CHR 0x0A]
     @ ''    {}'' @ [CHR 0x0A] @ ''  ]'' @ [CHR 0x0A] @ ''}''"
  by code_simp

section \<open>The program\<close>

text \<open>
  What is printed, line by line (a line that ends in the text of an error keeps the error), and how the
  process ends: \<open>Fatalf\<close> is \<open>must\<close> with an error, \<open>Panic\<close> a slice out of range.
\<close>

datatype printed = Line string | WithError string goerr

datatype outcome = Finished | Fatalf string goerr | Fatal string | Panic

type_synonym behaviour = "printed list \<times> outcome"

definition must :: "string \<Rightarrow> goerr + 'a \<Rightarrow> printed list \<Rightarrow> ('a \<Rightarrow> behaviour) \<Rightarrow> behaviour" where
  "must context r out k = (case r of Inl e \<Rightarrow> (out, Fatalf context e) | Inr a \<Rightarrow> k a)"

definition show_bool :: "bool \<Rightarrow> string" where
  "show_bool b = (if b then ''true'' else ''false'')"

definition tick_mark :: string where "tick_mark = [CHR 0xE2, CHR 0x9C, CHR 0x93]"

definition print_issued :: "token \<Rightarrow> printed list" where
  "print_issued tok =
     [Line ''=== Bank issued credential ==='',
      Line (''Issuer JWT prefix: '' @ take 40 (IssuerJWT tok) @ ''...''),
      Line (''Disclosures: '' @ show_nat (length (Disclosures tok)) @ '' (all stored in wallet)''), Line []]"

definition print_presented :: "token \<Rightarrow> token \<Rightarrow> printed list" where
  "print_presented tok presented =
     [Line ''=== Wallet presentation ==='',
      Line (''Disclosures included: '' @ show_nat (length (Disclosures presented)) @ '' (of ''
        @ show_nat (length (Disclosures tok)) @ '' available)''),
      Line (''KB-JWT present: '' @ show_bool (HasKeyBinding presented)), Line []]"

definition printJSON :: "gmap \<Rightarrow> printed" where
  "printJSON m =
     (let b = (case json_enc (GMap m) of None \<Rightarrow> [] | Some t \<Rightarrow> indent_text ''  '' ''  '' Outside False 0 t) in
      Line (''  '' @ b))"

definition print_result :: "verification_result \<Rightarrow> printed list" where
  "print_result res =
     [Line ''=== Conveyancer verification result ==='',
      Line (tick_mark @ '' Issuer:     '' @ ResultIssuer res), Line (tick_mark @ '' VCT:        '' @ ResultVCT res),
      Line (tick_mark @ '' Key bound:  '' @ show_bool (KeyBound res)), Line (tick_mark @ '' Disclosed claims:''),
      printJSON (DisclosedClaims res)]"

definition replay :: "world \<Rightarrow> ec_private \<Rightarrow> token \<Rightarrow> printed list" where
  "replay w bankKey presented =
     (case Verify (w_replay w) (conveyancer bankKey) (String presented) ''different-nonce'' of
        Inr _ \<Rightarrow> []
      | Inl e \<Rightarrow>
          (case errors_As_Verification e of
             None \<Rightarrow> []
           | Some _ \<Rightarrow> [WithError (tick_mark @ '' Replay rejected: '') e]))"

definition mortgage :: "world \<Rightarrow> behaviour" where
  "mortgage w =
     must ''generating bank key'' (w_bank w) [] (\<lambda>bankKey.
     must ''generating wallet key'' (w_wallet w) [] (\<lambda>walletKey.
     must ''issuing credential''
       (fst (Issue (w_crypto w) (w_random w) (w_issue_time w) (mortgage_issuer w bankKey) (offer_request w walletKey) 0))
       [] (\<lambda>tok.
     if length (IssuerJWT tok) < 40 then ([Line ''=== Bank issued credential ===''], Panic) else
     must ''constructing presentation''
       (Present (w_crypto w) (w_present_time w) (NewHolder (Some (walletSigner w walletKey))) tok presentation)
       (print_issued tok) (\<lambda>presented.
     let out = print_issued tok @ print_presented tok presented in
     must ''verifying presentation''
       (Verify (w_verify w) (conveyancer bankKey) (String presented) challenge) out (\<lambda>res.
     let out = out @ print_result res in
     if map_of (DisclosedClaims res) ''max_amount'' \<noteq> None
     then (out, Fatal ''max_amount should not have been disclosed'')
     else (out @ [Line [], Line (tick_mark @ '' max_amount correctly withheld from conveyancer''),
                  Line [], Line ''=== Replay attack simulation ===''] @ replay w bankKey presented,
           Finished))))))"

section \<open>A claims map in any order\<close>

lemma issuable_each:
  "issuable c sel \<longleftrightarrow> distinct (map fst c) \<and> (\<forall>kv \<in> set c. issuable [kv] sel)"
proof (induction c rule: claims_induct)
  case (plain k v r)
  then show ?case by (auto simp: issuable_plain keys_def)
qed (auto simp: keys_def)

lemma claims_depth_each: "claims_depth c \<le> D \<longleftrightarrow> (\<forall>kv \<in> set c. claims_depth [kv] \<le> D)"
proof (induction c rule: claims_induct)
  case (plain k v r)
  then show ?case by (simp add: issuable_plain del: map_depth.simps)
qed auto

lemma expected_each: "keys (expected_claims c sel) = (\<Union>kv \<in> set c. keys (expected_claims [kv] sel))"
proof (induction c rule: claims_induct)
  case (plain k v r)
  then show ?case by (simp add: issuable_plain)
qed auto

definition fair_visit :: "world \<Rightarrow> bool" where
  "fair_visit w \<longleftrightarrow> (\<forall>m. mset (w_visit w m) = mset m)"

lemma visit_same:
  assumes "fair_visit w"
  shows "set (w_visit w m) = set m" "distinct (map fst (w_visit w m)) = distinct (map fst m)"
    "keys (w_visit w m) = keys m"
proof -
  have m: "mset (w_visit w m) = mset m" using assms by (simp add: fair_visit_def)
  then show s: "set (w_visit w m) = set m" by (rule mset_eq_setD)
  have "mset (map fst (w_visit w m)) = mset (map fst m)" using m by simp
  then show "distinct (map fst (w_visit w m)) = distinct (map fst m)" by (rule mset_eq_imp_distinct_iff)
  show "keys (w_visit w m) = keys m" using s by (simp add: keys_def)
qed

lemma issuable_visit: "fair_visit w \<Longrightarrow> issuable (w_visit w c) sel = issuable c sel"
  by (simp only: issuable_each [of "w_visit w c"] issuable_each [of c] visit_same)

lemma claims_depth_visit: "fair_visit w \<Longrightarrow> claims_depth (w_visit w c) \<le> D \<longleftrightarrow> claims_depth c \<le> D"
  by (simp only: claims_depth_each [of "w_visit w c"] claims_depth_each [of c] visit_same)

lemma expected_visit: "fair_visit w \<Longrightarrow> keys (expected_claims (w_visit w c) sel) = keys (expected_claims c sel)"
  by (simp only: expected_each [of "w_visit w c"] expected_each [of c] visit_same)

section \<open>The request of the example\<close>

lemma ascii_digits: "c \<in> set (pad w i) \<Longrightarrow> byte_val c < 128"
proof -
  have "byte_val d < 128" if "is_digit d" for d using that by (simp add: is_digit_def)
  then show "c \<in> set (pad w i) \<Longrightarrow> byte_val c < 128"
    using show_nat_digits by (auto simp: pad_def Let_def split: if_splits)
qed

lemma date_only_utf8: "utf8_valid (date_only zone t)"
  by (rule ascii_utf8_valid) (auto simp: date_only_def list_all_iff dest: ascii_digits split: prod.splits)

definition sane_clock :: "world \<Rightarrow> bool" where
  "sane_clock w \<longleftrightarrow> \<bar>unix_of (w_issue_time w)\<bar> < 2 ^ 53
     \<and> \<bar>unix_of (time_add (w_issue_time w) (90 * 24 * hour))\<bar> < 2 ^ 53"

lemma offer_good:
  assumes "fair_visit w" "sane_clock w"
  shows "good_request (mortgage_issuer w b) (offer_request w k\<lparr>HolderKey := None\<rparr>) (w_issue_time w)"
    and "keys (expected_claims (Claims (offer_request w k)) (SelectiveFields (offer_request w k))) \<inter> registered_names = {}"
proof -
  have app: "issuable applicant [''name'', ''dob'']" "claims_depth applicant \<le> 1"
    "keys (expected_claims applicant [''name'', ''dob'']) = {''name'', ''dob''}"
    by (simp_all add: applicant_def ascii_utf8_valid value_depth_limit_def)
  have n: "decodes (GInt 450000)" by (rule decodes_int) simp
  have c: "issuable (offer_claims w) [''max_amount'', ''currency'']"
    using app(1) issuable_visit [OF assms(1)] n date_only_utf8
    by (simp add: offer_claims_def Structured_def ascii_utf8_valid value_depth_limit_def del: decodes.simps(2))
  have "claims_depth (w_visit w applicant) \<le> 1" using app(2) claims_depth_visit [OF assms(1)] by blast
  then have d: "claims_depth (offer_claims w) \<le> 16"
    using n by (simp add: offer_claims_def Structured_def del: decodes.simps(2) split: option.splits)
  have k: "keys (offer_claims w) \<inter> registered_names = {}"
    by (simp add: offer_claims_def registered_names_def)
  have e: "keys (expected_claims (offer_claims w) [''max_amount'', ''currency'']) \<inter> registered_names = {}"
    using app(3) expected_visit [OF assms(1)]
    by (simp add: offer_claims_def Structured_def registered_names_def Int_Un_distrib2)
  have cfg: "issuer_id (mortgage_issuer w b) = bank_uri" "tokenTTL (opts (mortgage_issuer w b)) = 90 * 24 * hour"
    "schemaURI (opts (mortgage_issuer w b)) = ''https://schema.pyxical.com/mortgage-offer/v1''"
    "Algorithm (issuer_signer (mortgage_issuer w b)) = ''ES256''"
    "KeyID (issuer_signer (mortgage_issuer w b)) = ''bank-signing-key-1''"
    by (simp_all add: mortgage_issuer_def NewIssuer_def default_issuer_config_def WithSchemaURI_def WithTokenTTL_def
        bankSigner_def ec_signer_def ec_Algorithm_def ec_KeyID_def)
  have z: "is_zero_time (Time 0 0)" by (simp add: is_zero_time_def)
  have t: "issued_nbf (offer_request w k) (w_issue_time w) = w_issue_time w"
    "issued_exp (mortgage_issuer w b) (offer_request w k) (w_issue_time w) = time_add (w_issue_time w) (90 * 24 * hour)"
    using cfg(2) z by (simp_all add: issued_nbf_def issued_exp_def offer_request_def)
  show "good_request (mortgage_issuer w b) (offer_request w k\<lparr>HolderKey := None\<rparr>) (w_issue_time w)"
    unfolding good_request_def issued_times_key t cfg
    using c d k assms(2) issuable_visit [OF assms(1)] claims_depth_visit [OF assms(1)] visit_same(3) [OF assms(1)]
    by (simp add: offer_request_def holder_key_ok_def sane_clock_def bank_uri_def offer_vct_def ascii_utf8_valid)
  show "keys (expected_claims (Claims (offer_request w k)) (SelectiveFields (offer_request w k))) \<inter> registered_names = {}"
    using e expected_visit [OF assms(1)] by (simp add: offer_request_def)
qed

section \<open>What the example does\<close>

lemma b64_enc_length: "length bs \<le> length (b64_enc bs)"
  by (induction bs rule: b64_enc.induct) (simp_all add: Let_def le_SucI)

text \<open>The slice of the issuer JWT is in range: its header alone is longer.\<close>

lemma bank_jwt_long:
  assumes "signJWT (bankSigner w b) p = Inr jwt"
  shows "40 \<le> length jwt"
proof -
  obtain hb pb sig where h: "json_enc (GMap (jwt_header ''vc+sd-jwt'' (bankSigner w b))) = Some hb"
    and jwt: "jwt = compact hb pb sig"
    using assms by (auto simp: signJWT_def sign_compact_iff simp del: json_enc.simps)
  have "jwt_header ''vc+sd-jwt'' (bankSigner w b)
      = [(''typ'', GString ''vc+sd-jwt''), (''alg'', GString ''ES256''), (''kid'', GString ''bank-signing-key-1'')]"
    by (simp add: jwt_header_def bankSigner_def ec_signer_def ec_Algorithm_def ec_KeyID_def)
  moreover have "map_option length (json_enc (GMap [(''typ'', GString ''vc+sd-jwt''), (''alg'', GString ''ES256''),
      (''kid'', GString ''bank-signing-key-1'')])) = Some 60" by code_simp
  ultimately have "length hb = 60" using h by simp
  then show ?thesis using b64_enc_length [of hb] by (simp add: jwt compact_def)
qed

lemma must_simps [simp]:
  "must ctx (Inl e) out k = (out, Fatalf ctx e)" "must ctx (Inr a) out k = k a"
  by (simp_all add: must_def)

lemma offer_issued:
  assumes "fair_visit w" "sane_clock w"
    and "fst (Issue (w_crypto w) (w_random w) (w_issue_time w) (mortgage_issuer w b) (offer_request w k) 0) = Inr tok"
  obtains j sdAlg m where
    "Issue (w_crypto w) (w_random w) (w_issue_time w) (mortgage_issuer w b) (offer_request w k) 0 = (Inr tok, j)"
    "HolderKey (offer_request w k) = Some (ec_public k)" "native_key (ec_public k)"
    "signJWT (bankSigner w b) m = Inr (IssuerJWT tok)"
    "issued_payload (w_crypto w) (mortgage_issuer w b) (offer_request w k) (w_issue_time w) sdAlg (Disclosures tok) m"
proof -
  obtain j where issue: "Issue (w_crypto w) (w_random w) (w_issue_time w) (mortgage_issuer w b) (offer_request w k) 0 = (Inr tok, j)"
    using assms(3) by (metis prod.collapse)
  have key: "HolderKey (offer_request w k) = Some (ec_public k)" "native_key (ec_public k)"
    by (simp_all add: offer_request_def ec_public_def native_key_def)
  have good: "good_request (mortgage_issuer w b) (offer_request w k) (w_issue_time w)"
    by (rule good_with_key [OF offer_good(1) [OF assms(1,2)] native_holder_ok [OF issue key]])
  have "issuer_signer (mortgage_issuer w b) = bankSigner w b" by (simp add: mortgage_issuer_def NewIssuer_def)
  then show ?thesis using issued [OF issue good] that [OF issue key] by metis
qed

lemma issue_long:
  assumes "fair_visit w" "sane_clock w"
    and "fst (Issue (w_crypto w) (w_random w) (w_issue_time w) (mortgage_issuer w b) (offer_request w k) 0) = Inr tok"
  shows "40 \<le> length (IssuerJWT tok)"
  by (rule offer_issued [OF assms]) (rule bank_jwt_long)

text \<open>The presentation of the wallet is one that every verifier rejects.\<close>

lemma offer_rejected:
  assumes "fair_visit w" "sane_clock w" "fair_run \<rho>"
    and "fst (Issue (w_crypto w) (w_random w) (w_issue_time w) (mortgage_issuer w b) (offer_request w k) 0) = Inr tok"
    and "Present (w_crypto w) (w_present_time w) (NewHolder (Some (walletSigner w k))) tok presentation = Inr p"
  shows "\<exists>e. Verify \<rho> v (String p) nonce = Inl e"
proof -
  obtain j sdAlg m where issue: "Issue (w_crypto w) (w_random w) (w_issue_time w) (mortgage_issuer w b) (offer_request w k) 0 = (Inr tok, j)"
    and key: "HolderKey (offer_request w k) = Some (ec_public k)" "native_key (ec_public k)"
    and sig: "signJWT (bankSigner w b) m = Inr (IssuerJWT tok)"
    and pay: "issued_payload (w_crypto w) (mortgage_issuer w b) (offer_request w k) (w_issue_time w) sdAlg (Disclosures tok) m"
    by (rule offer_issued [OF assms(1,2,4)])
  obtain sel where sel: "selectDisclosures tok (RevealClaims presentation) = Inr sel" "IssuerJWT p = IssuerJWT tok"
    "Disclosures p = sel" "HasKeyBinding p \<longleftrightarrow> KeyBinding presentation" "CHR ''~'' \<notin> set (KBJWT p)"
    by (rule Present_parts [OF assms(5)])
  have sub: "set (Disclosures p) \<subseteq> set (Disclosures tok)" unfolding sel(3) by (rule named_claims_selected [OF sel(1)])
  have "\<forall>enc \<in> set (Disclosures p). \<exists>h dg. disclosed_as (w_crypto w) h enc dg"
    using pay sub unfolding issued_payload_def by blast
  then have parse: "Parse (String p) = Inr p"
    using sig sel(2) by (intro presented_parses [OF _ _ sel(5)]) simp_all
  have "HasKeyBinding p" using sel(4) by (simp add: presentation_def)
  then show ?thesis
    using native_key_rejected [OF issue offer_good(1) [OF assms(1,2)] key offer_good(2) [OF assms(1,2)] parse sel(2) sub _ assms(3)]
    by blast
qed

text \<open>
  C12: the example program never reaches its end: in every world (whatever the keys, the random bytes, the
  signatures, the clocks and the order of the maps) it stops with a fatal error, at the latest at
  "verifying presentation", and never prints a verification result.
\<close>
theorem mortgage_never_verifies:
  assumes "fair_visit w" and "sane_clock w" and "fair_run (w_verify w)"
  shows "\<exists>out ctx e. mortgage w = (out, Fatalf ctx e)
    \<and> ctx \<in> {''generating bank key'', ''generating wallet key'', ''issuing credential'',
             ''constructing presentation'', ''verifying presentation''}
    \<and> Line ''=== Conveyancer verification result ==='' \<notin> set out"
proof -
  have quiet: "Line ''=== Conveyancer verification result ==='' \<notin> set (print_issued tok)"
    "Line ''=== Conveyancer verification result ==='' \<notin> set (print_presented tok p)" for tok p
    by (simp_all add: print_issued_def print_presented_def)
  show ?thesis
  proof (cases "w_bank w")
    case bank: (Inr b)
    show ?thesis
    proof (cases "w_wallet w")
      case wallet: (Inr k)
      show ?thesis
      proof (cases "fst (Issue (w_crypto w) (w_random w) (w_issue_time w) (mortgage_issuer w b) (offer_request w k) 0)")
        case issue: (Inr tok)
        show ?thesis
        proof (cases "Present (w_crypto w) (w_present_time w) (NewHolder (Some (walletSigner w k))) tok presentation")
          case present: (Inr p)
                    obtain e where "Verify (w_verify w) (conveyancer b) (String p) challenge = Inl e"
            using offer_rejected [OF assms issue present] by blast
          then show ?thesis using bank wallet issue present issue_long [OF assms(1,2) issue] quiet by (simp add: mortgage_def)
        next
          case (Inl e)
          show ?thesis
          proof (cases "length (IssuerJWT tok) < 40")
            case True
            then show ?thesis using issue_long [OF assms(1,2) issue] by simp
          next
            case False
            then show ?thesis using bank wallet issue Inl quiet by (simp add: mortgage_def)
          qed
        qed
      qed (simp add: mortgage_def bank wallet)
    qed (simp add: mortgage_def bank)
  qed (simp add: mortgage_def)
qed

end
