(* ===== verification/Recursive_Disclosure.thy ===== *)
theory Recursive_Disclosure
  imports EndToEnd Native_Keys
begin

text \<open>
  Structured claims that are selective as a whole (\<open>buildClaimsObject\<close> of \<open>issuer.go\<close> against
  \<open>collectDigests\<close> of \<open>verifier.go\<close>). The issuer puts such a claim into a disclosure together with the
  digests of its own selective fields; the verifier collects digests from the signed payload only. How
  many disclosures a request makes, how many digests its signed payload shows, and that a presentation
  with all disclosures fails when the two numbers differ.
\<close>

section \<open>Counting disclosures and digests\<close>

text \<open>
  \<open>shown_digests\<close> is the number of digests that stay in the object the issuer signs: those of a structured
  claim that is itself selective go into its disclosure with it. \<open>buries claims sel\<close>: the claims have a
  selective structured claim with selective fields of its own.
\<close>

fun shown_digests :: "gmap \<Rightarrow> string list \<Rightarrow> nat" where
  "shown_digests [] sel = 0"
| "shown_digests ((k, GStruct fs fsel) # r) sel =
     (if k \<in> set sel then 1 else shown_digests fs fsel) + shown_digests r sel"
| "shown_digests ((k, v) # r) sel = (if k \<in> set sel then 1 else 0) + shown_digests r sel"

fun buries :: "gmap \<Rightarrow> string list \<Rightarrow> bool" where
  "buries [] sel \<longleftrightarrow> False"
| "buries ((k, GStruct fs fsel) # r) sel \<longleftrightarrow>
     (if k \<in> set sel then disclosed_names fs fsel \<noteq> [] else buries fs fsel) \<or> buries r sel"
| "buries ((k, v) # r) sel \<longleftrightarrow> buries r sel"

text \<open>What the signed object shows in clear is carried by JSON, and its plain values are not objects.\<close>

fun showable :: "gmap \<Rightarrow> string list \<Rightarrow> bool" where
  "showable [] sel \<longleftrightarrow> True"
| "showable ((k, GStruct fs fsel) # r) sel \<longleftrightarrow>
     k \<notin> keys r \<and> k \<noteq> ''_sd'' \<and> utf8_valid k \<and> (k \<notin> set sel \<longrightarrow> showable fs fsel) \<and> showable r sel"
| "showable ((k, v) # r) sel \<longleftrightarrow>
     k \<notin> keys r \<and> k \<noteq> ''_sd'' \<and> utf8_valid k
     \<and> (k \<notin> set sel \<longrightarrow> as_map (Some v) = None \<and> json_ok v \<and> decodes v \<and> json_depth v \<le> value_depth_limit)
     \<and> showable r sel"

lemma showable_plain:
  "\<not> is_struct v \<Longrightarrow> shown_digests ((k, v) # r) sel = (if k \<in> set sel then 1 else 0) + shown_digests r sel"
  "\<not> is_struct v \<Longrightarrow> buries ((k, v) # r) sel \<longleftrightarrow> buries r sel"
  "\<not> is_struct v \<Longrightarrow> showable ((k, v) # r) sel \<longleftrightarrow>
     k \<notin> keys r \<and> k \<noteq> ''_sd'' \<and> utf8_valid k
     \<and> (k \<notin> set sel \<longrightarrow> as_map (Some v) = None \<and> json_ok v \<and> decodes v \<and> json_depth v \<le> value_depth_limit)
     \<and> showable r sel"
  by (cases v; simp add: is_struct_def)+

text \<open>A buried disclosure has no digest of its own in the signed object.\<close>

lemma shown_digests_le: "shown_digests claims sel \<le> length (disclosed_names claims sel)"
proof (induction claims arbitrary: sel rule: claims_induct)
  case (plain k v r)
  show ?case using plain.IH [of sel] by (simp add: showable_plain [OF plain.hyps] encodable_plain [OF plain.hyps])
next
  case (struct k fs fsel r)
  show ?case using struct.IH(1) [of fsel] struct.IH(2) [of sel] by simp
qed simp

lemma buried_not_shown: "buries claims sel \<Longrightarrow> shown_digests claims sel < length (disclosed_names claims sel)"
proof (induction claims arbitrary: sel rule: claims_induct)
  case (plain k v r)
  show ?case
    using plain.IH [of sel] plain.prems by (simp add: showable_plain [OF plain.hyps] encodable_plain [OF plain.hyps])
next
  case (struct k fs fsel r)
  note le = shown_digests_le [of fs fsel] shown_digests_le [of r sel]
  note IH = struct.IH(1) [of fsel] struct.IH(2) [of sel]
  show ?case
  proof (cases "k \<in> set sel")
    case True
    then have "disclosed_names fs fsel \<noteq> [] \<or> buries r sel" using struct.prems by simp
    then show ?thesis using True le IH(2) by (cases "disclosed_names fs fsel") auto
  next
    case False
    then have "buries fs fsel \<or> buries r sel" using struct.prems by simp
    then show ?thesis using False le IH by (elim disjE) simp_all
  qed
qed simp

lemma disclose_utf8: "disclose C R h k v st = (Inr dg, st') \<Longrightarrow> utf8_valid dg"
  by (auto simp: disclose_def Disclosure_Digest_def res_bind_Inr_iff Digest_Inr_iff b64_utf8_valid
      split: prod.splits sum.splits)

section \<open>The digests in the object\<close>

text \<open>\<open>inside m\<close>: the digests that objects below \<open>m\<close> list once \<open>m\<close> is marshalled.\<close>

definition inside :: "gmap \<Rightarrow> string set" where
  "inside m = {dg. \<exists>k v n p. (k, v) \<in> set m \<and> json_norm v = GMap n \<and> embeds n p dg}"

definition counted :: "gmap \<Rightarrow> string list \<Rightarrow> gmap \<Rightarrow> string list \<Rightarrow> bool" where
  "counted claims sel extra ds \<longleftrightarrow>
     keys extra \<subseteq> keys claims \<and> carried (struct_depth claims) (json_bound claims) extra
     \<and> list_all utf8_valid ds
     \<and> (\<exists>L. length L + length ds = shown_digests claims sel \<and> inside extra \<subseteq> set L)"

lemma inside_append: "inside (a @ b) = inside a \<union> inside b"
  by (auto simp: inside_def)

lemma inside_Nil [simp]: "inside [] = {}"
  by (simp add: inside_def)

lemma inside_plain:
  assumes "as_map (Some v) = None" "\<not> is_struct v"
  shows "inside [(k, v)] = {}"
proof -
  have "json_norm v \<noteq> GMap n" for n using assms by (cases v) (auto simp: is_struct_def split: option.splits)
  then show ?thesis by (simp add: inside_def)
qed

lemma inside_object: "inside [(k, GMap m)] = {dg. \<exists>p. embeds (header_view m) p dg}"
  by (simp add: inside_def header_view_def)

lemma embedded_iff:
  "(\<exists>p. embeds (header_view m) p dg) \<longleftrightarrow> embeds (header_view m) [] dg \<or> dg \<in> inside m"
proof -
  have "embeds (header_view m) (k # p) dg \<longleftrightarrow> (\<exists>v n. (k, v) \<in> set m \<and> json_norm v = GMap n \<and> embeds n p dg)" for k p
    by (force simp: embeds_Cons_iff header_view_def set_json_norm_fields)
  then have "(\<exists>k p. embeds (header_view m) (k # p) dg) \<longleftrightarrow> dg \<in> inside m" by (auto simp: inside_def)
  then show ?thesis by (metis neq_Nil_conv)
qed

lemma listed_strings:
  assumes "distinct (map fst m)" "embeds (header_view m) [] dg" "map_of m ''_sd'' = None \<or> map_of m ''_sd'' = Some (GStrings ds)"
  shows "map_of m ''_sd'' = Some (GStrings ds) \<and> dg \<in> set ds"
  using assms(2,3) map_of_view [OF assms(1), of "''_sd''"] by (auto simp: embeds_Nil_iff)

lemma showable_no_sd: "showable claims sel \<Longrightarrow> ''_sd'' \<notin> keys claims"
  by (induction claims rule: claims_induct) (auto simp: showable_plain)

lemma map_depth_plain: "as_map (Some v) = None \<Longrightarrow> \<not> is_struct v \<Longrightarrow> map_depth [(k, json_norm v)] = 0"
  by (cases v) (auto simp: is_struct_def split: option.splits)

lemma counted_Nil: "counted [] sel [] []"
  by (simp add: counted_def)

lemma counted_clear:
  assumes "counted r sel extra ds" "\<not> is_struct v" "k \<notin> set sel" "showable ((k, v) # r) sel"
  shows "counted ((k, v) # r) sel ((k, v) # extra) ds"
proof -
  note sh = assms(4) [unfolded showable_plain(3) [OF assms(2)]]
  have "carried (struct_depth r) (json_bound r) [(k, v)]"
    using sh assms(2,3) map_depth_plain [of v k] by (simp add: carried_single json_bound_def)
  moreover have "keys [(k, v)] \<inter> keys extra = {}" using assms(1) sh by (auto simp: counted_def)
  ultimately have "carried (struct_depth r) (json_bound r) ([(k, v)] @ extra)"
    using assms(1) by (simp only: carried_append counted_def simp_thms)
  moreover have "inside ((k, v) # extra) = inside extra"
    using inside_append [of "[(k, v)]" extra] inside_plain [of v k] sh assms(2,3) by simp
  ultimately show ?thesis
    using assms(1-3) by (auto simp: counted_def struct_depth_plain showable_plain json_bound_def)
qed

lemma counted_hidden:
  assumes "counted r sel extra ds" "k \<in> set sel" "utf8_valid dg"
  shows "counted ((k, v) # r) sel extra (dg # ds)"
proof -
  have le: "struct_depth r \<le> struct_depth ((k, v) # r)" by (cases v) auto
  have "shown_digests ((k, v) # r) sel = Suc (shown_digests r sel)" using assms(2) by (cases v) auto
  moreover have "carried (struct_depth ((k, v) # r)) (json_bound ((k, v) # r)) extra"
    by (rule carried_mono [of "struct_depth r" "json_bound r"]) (use assms(1) le in \<open>auto simp: counted_def json_bound_def\<close>)
  ultimately show ?thesis using assms(1,3) by (auto simp: counted_def)
qed

lemma map_of_with_sd:
  "''_sd'' \<notin> keys base \<Longrightarrow> map_of (with_sd base ds) ''_sd'' = (if ds = [] then None else Some (GStrings ds))"
  using keys_iff [of "''_sd''" base] by (auto simp: with_sd_def)

lemma inside_with_sd: "''_sd'' \<notin> keys base \<Longrightarrow> inside (with_sd base ds) = inside base"
  by (simp add: with_sd_def update_new inside_append inside_plain is_struct_def)

lemma embedded_with_sd:
  assumes "distinct (map fst base)" "''_sd'' \<notin> keys base" "embeds (header_view (with_sd base ds)) p dg"
  shows "dg \<in> set ds \<union> inside base"
proof -
  have d: "distinct (map fst (with_sd base ds))" using assms(1) by (simp add: with_sd_def distinct_update)
  have "embeds (header_view (with_sd base ds)) [] dg \<or> dg \<in> inside base"
    using embedded_iff [of "with_sd base ds" dg] assms(2,3) inside_with_sd by blast
  moreover have "dg \<in> set ds" if "embeds (header_view (with_sd base ds)) [] dg"
    using listed_strings [OF d that, of ds] map_of_with_sd [OF assms(2)] by (simp split: if_splits)
  ultimately show ?thesis by blast
qed

lemma counted_nested:
  assumes "counted fs fsel base ds0" "counted r sel extra ds" "k \<notin> set sel"
    and "showable ((k, GStruct fs fsel) # r) sel"
  shows "counted ((k, GStruct fs fsel) # r) sel ((k, GMap (with_sd base ds0)) # extra) ds"
proof -
  let ?n = "with_sd base ds0" and ?c = "(k, GStruct fs fsel) # r"
  have k: "k \<notin> keys r" "utf8_valid k" "showable fs fsel" using assms(3,4) by simp_all
  have sd: "''_sd'' \<notin> keys base" using assms(1) showable_no_sd [OF k(3)] by (auto simp: counted_def)
  have "carried (struct_depth fs) (json_bound fs) ?n"
    using assms(1) sd by (intro carried_with_sd) (simp_all add: counted_def json_bound_def)
  then have "carried (Suc (struct_depth fs)) (Suc (json_bound fs)) [(k, GMap ?n)]"
    using k(2) by (rule carried_nested)
  then have n: "carried (struct_depth ?c) (json_bound ?c) [(k, GMap ?n)]"
    by (rule carried_mono) (simp_all add: json_bound_def)
  have "carried (struct_depth ?c) (json_bound ?c) extra"
    by (rule carried_mono [of "struct_depth r" "json_bound r"])
       (use assms(2) in \<open>simp_all add: counted_def json_bound_def\<close>)
  moreover have "keys [(k, GMap ?n)] \<inter> keys extra = {}" using assms(2) k(1) by (auto simp: counted_def)
  ultimately have c: "carried (struct_depth ?c) (json_bound ?c) ([(k, GMap ?n)] @ extra)"
    using n by (simp only: carried_append)
  obtain L0 where L0: "length L0 + length ds0 = shown_digests fs fsel" "inside base \<subseteq> set L0"
    using assms(1) by (auto simp: counted_def)
  obtain L where L: "length L + length ds = shown_digests r sel" "inside extra \<subseteq> set L"
    using assms(2) by (auto simp: counted_def)
  have d: "distinct (map fst base)" using assms(1) unfolding counted_def carried_def by blast
  have "inside [(k, GMap ?n)] \<subseteq> set (L0 @ ds0)"
    unfolding inside_object using embedded_with_sd [OF d sd] L0(2) by fastforce
  then have "inside ([(k, GMap ?n)] @ extra) \<subseteq> set ((L0 @ ds0) @ L)"
    unfolding inside_append using L(2) by auto
  moreover have "length ((L0 @ ds0) @ L) + length ds = shown_digests ?c sel"
    using L0(1) L(1) assms(3) by simp
  ultimately have "\<exists>L. length L + length ds = shown_digests ?c sel \<and> inside ([(k, GMap ?n)] @ extra) \<subseteq> set L"
    by (intro exI conjI)
  moreover have "keys ([(k, GMap ?n)] @ extra) \<subseteq> keys ?c" using assms(2) by (auto simp: counted_def)
  ultimately show ?thesis
    using assms(2) c unfolding counted_def append_Cons append_Nil by (elim conjE) (intro conjI)
qed

lemma loop_counted:
  "claims_loop C R h claims sel st d obj sd = (Inr (obj', sd'), st') \<Longrightarrow> showable claims sel \<Longrightarrow>
     keys obj \<inter> keys claims = {} \<Longrightarrow>
     \<exists>extra ds. obj' = obj @ extra \<and> sd' = sd @ ds \<and> counted claims sel extra ds"
proof (induction claims arbitrary: sel st d obj sd obj' sd' st' rule: claims_induct)
  case Nil
  then show ?case using counted_Nil by auto
next
  case (plain k v r)
  have k: "k \<notin> keys obj" "k \<notin> keys r" "showable r sel"
    using plain.prems(2,3) by (simp_all add: showable_plain [OF plain.hyps])
  from plain.prems(1) show ?case
  proof (cases rule: claims_loop_step)
    case clear
    have "keys (obj @ [(k, v)]) \<inter> keys r = {}" using plain.prems(3) k by auto
    then obtain extra ds where "obj' = (obj @ [(k, v)]) @ extra" "sd' = sd @ ds" "counted r sel extra ds"
      using plain.IH [OF clear(3) k(3)] k(1) by (auto simp: update_new)
    then show ?thesis using counted_clear [OF _ plain.hyps clear(2) plain.prems(2)] by fastforce
  next
    case (hidden w st1 st2 digest)
    have "keys obj \<inter> keys r = {}" using plain.prems(3) by auto
    then obtain extra ds where "obj' = obj @ extra" "sd' = (sd @ [digest]) @ ds" "counted r sel extra ds"
      using plain.IH [OF hidden(5) k(3)] by blast
    then show ?thesis using counted_hidden [OF _ hidden(1)] disclose_utf8 [OF hidden(4)] by fastforce
  next
    case (nested fs fsel n st1)
    then show ?thesis using plain.hyps by (simp add: is_struct_def)
  qed
next
  case (struct k fs fsel r)
  have k: "k \<notin> keys obj" "k \<notin> keys r" "showable r sel" using struct.prems(2,3) by simp_all
  from struct.prems(1) show ?case
  proof (cases rule: claims_loop_step)
    case clear
    then show ?thesis by (simp add: is_struct_def)
  next
    case (hidden w st1 st2 digest)
    have "keys obj \<inter> keys r = {}" using struct.prems(3) by auto
    then obtain extra ds where "obj' = obj @ extra" "sd' = (sd @ [digest]) @ ds" "counted r sel extra ds"
      using struct.IH(2) [OF hidden(5) k(3)] by blast
    then show ?thesis using counted_hidden [OF _ hidden(1)] disclose_utf8 [OF hidden(4)] by fastforce
  next
    case (nested fs' fsel' n st1)
    have sh: "showable fs fsel" using struct.prems(2) nested(2) by simp
    have "buildClaimsObject C R h fs fsel st (d + 1) = (Inr n, st1)" using nested(1,3) by simp
    then obtain base ds0 where l: "claims_loop C R h fs fsel st (d + 1) [] [] = (Inr (base, ds0), st1)"
      and n: "n = with_sd base ds0"
      by (rule buildClaimsObject_loop) (auto simp: with_sd_def)
    have c0: "counted fs fsel base ds0" using struct.IH(1) [OF l sh] by auto
    have "keys (obj @ [(k, GMap n)]) \<inter> keys r = {}" using struct.prems(3) k by auto
    then obtain extra ds where "obj' = (obj @ [(k, GMap n)]) @ extra" "sd' = sd @ ds" "counted r sel extra ds"
      using struct.IH(2) [OF nested(4) k(3)] k(1) by (auto simp: update_new)
    then show ?thesis using counted_nested [OF c0 _ nested(2) struct.prems(2)] n by fastforce
  qed
qed

section \<open>The digests in the payload\<close>

text \<open>\<open>bare_request\<close>: the request without its claims, what the other conditions are about.\<close>

definition bare_request :: "issue_request \<Rightarrow> issue_request" where
  "bare_request req = req\<lparr>Claims := [], SelectiveFields := []\<rparr>"

lemma bare_fields [simp]:
  "HolderKey (bare_request req) = HolderKey req" "Subject (bare_request req) = Subject req"
  "Claims (bare_request req) = []" "SelectiveFields (bare_request req) = []"
  "VCT (bare_request req) = VCT req" "NotBefore (bare_request req) = NotBefore req"
  "ExpiresAt (bare_request req) = ExpiresAt req"
  by (simp_all add: bare_request_def)

lemma bare_registered: "registered_list I (bare_request req) = registered_list I req"
  by (intro ext) (simp add: registered_list_def issued_nbf_def issued_exp_def)

lemma bare_payload: "issuer_payload I (bare_request req) = issuer_payload I req"
  by (intro ext) (simp add: issuer_payload_def registered_assign bare_registered)

lemma registered_no_digest:
  assumes "(k, v) \<in> set (registered_list I req now sdAlg (cnf_entry (HolderKey req)))"
    and "holder_key_ok (HolderKey req)" "json_norm v = GMap n"
  shows "\<not> embeds n p dg"
proof -
  have "(k, v) \<in> set (cnf_entry (HolderKey req))"
    using assms(1,3) by (auto simp: registered_list_def split: if_splits option.splits)
  then obtain jwk where jwk: "jwk_ok jwk" "v = GMap [(''jwk'', GMap (header_view jwk))]"
    by (rule holder_key_cases [OF assms(2)])
  then have "n = [(''jwk'', GMap (header_view jwk))]"
    using assms(3) jwk_view_again [OF jwk(1)] by (simp add: header_view_def)
  then show ?thesis
    using plain_view_facts(3) [of "header_view jwk"] jwk(1)
    by (cases p) (auto simp: embeds_Nil_iff embeds_Cons_iff jwk_ok_def)
qed

lemma inside_assigned:
  assumes "inside m \<subseteq> A" "\<forall>(k, v) \<in> set L. inside [(k, v)] \<subseteq> A"
  shows "inside (assign_all m L) \<subseteq> A"
  using assms
proof (induction L arbitrary: m)
  case (Cons e L)
  obtain k v where e: "e = (k, v)" by (cases e)
  have "inside (AList.update k v m) \<subseteq> inside m \<union> inside [(k, v)]"
    using set_update_subset [of k v m] by (fastforce simp: inside_def)
  also have "\<dots> \<subseteq> A" using Cons.prems e by auto
  finally show ?case using Cons e by simp
qed simp

lemma counted_payload:
  assumes "carried 16 payload_limit base" "''_sd'' \<notin> keys base" "keys base \<inter> registered_names = {}"
    and "list_all utf8_valid ds" "good_request I req now" "Claims req = []" "utf8_valid sdAlg"
  defines "m \<equiv> assign_all (with_sd base ds) (registered_list I req now sdAlg (cnf_entry (HolderKey req)))"
  shows "issued_payload C I req now sdAlg [] m"
    and "embeds (header_view m) p dg \<Longrightarrow> dg \<in> set ds \<union> inside base"
proof -
  let ?L = "registered_list I req now sdAlg (cnf_entry (HolderKey req))"
  have hk: "holder_key_ok (HolderKey req)" using assms(5) by (simp add: good_request_def)
  have names: "keys ?L \<subseteq> registered_names" by (rule registered_list_keys)
  have "carried 16 payload_limit (with_sd base ds)"
    using assms(1,2,4) by (intro carried_with_sd) (simp_all add: payload_limit_def)
  then have c: "carried 16 payload_limit m"
    unfolding m_def using carried_registered [OF assms(5,7)] by (intro carried_assign_all)
  then have d: "distinct (map fst m)" unfolding carried_def by (elim conjE)
  have "map_of m ''sub'' = None" if "Subject req = []"
  proof -
    have "''sub'' \<notin> keys ?L" using that
      by (auto simp: registered_list_def cnf_entry_def split: option.splits gval.splits)
    then have "map_of m ''sub'' = map_of base ''sub''"
      unfolding m_def by (simp add: map_of_assign_other with_sd_def)
    moreover have "''sub'' \<notin> keys base" using assms(3) by (auto simp: registered_names_def)
    ultimately show ?thesis by (simp add: keys_iff)
  qed
  moreover have "\<forall>(k, v) \<in> set ?L. map_of m k = Some v" unfolding m_def using map_of_registered by blast
  ultimately show "issued_payload C I req now sdAlg [] m"
    using c assms(6) by (simp add: issued_payload_def named_claims_def)
  assume emb: "embeds (header_view m) p dg"
  have "map_of m ''_sd'' = (if ds = [] then None else Some (GStrings ds))"
    unfolding m_def map_of_with_sd [OF assms(2), symmetric]
    using names sd_not_registered by (intro map_of_assign_other) blast
  then have "dg \<in> set ds" if "embeds (header_view m) [] dg"
    using listed_strings [OF d that, of ds] by (simp split: if_splits)
  moreover have "inside m \<subseteq> inside base"
    unfolding m_def
  proof (rule inside_assigned)
    show "\<forall>(k, v) \<in> set ?L. inside [(k, v)] \<subseteq> inside base"
      using registered_no_digest [OF _ hk] by (fastforce simp: inside_def)
  qed (simp add: inside_with_sd [OF assms(2)])
  ultimately show "dg \<in> set ds \<union> inside base" using embedded_iff [of m dg] emb by blast
qed

lemma issued_counted:
  assumes "Issue C R now I req i = (Inr tok, j)" and "showable (Claims req) (SelectiveFields req)"
    and "keys (Claims req) \<inter> registered_names = {}" and "good_request I (bare_request req) now"
    and "decoyCount (opts I) \<le> 0"
  obtains sdAlg m L where "SDAlgFromHash (hashAlg (opts I)) = Inr sdAlg"
    "signJWT (issuer_signer I) m = Inr (IssuerJWT tok)"
    "issued_payload C I (bare_request req) now sdAlg [] m"
    "length (Disclosures tok) = length (disclosed_names (Claims req) (SelectiveFields req))"
    "length L = shown_digests (Claims req) (SelectiveFields req)"
    "\<forall>p dg. embeds (header_view m) p dg \<longrightarrow> dg \<in> set L"
proof -
  let ?c = "Claims req" and ?s = "SelectiveFields req"
  obtain sdAlg st obj payload m where iss: "SDAlgFromHash (hashAlg (opts I)) = Inr sdAlg"
    "buildClaimsObject C R (hashAlg (opts I)) ?c ?s \<lparr>allDisclosures = [], draws = i\<rparr> 0 = (Inr obj, st)"
    "with_decoys R (decoyCount (opts I)) obj (draws st) = (Inr payload, j)"
    "issuer_payload I req now sdAlg payload = Inr m"
    "signJWT (issuer_signer I) m = Inr (IssuerJWT tok)" "Disclosures tok = allDisclosures st"
    by (rule Issue_Inr [OF assms(1)])
  have obj: "payload = obj" using iss(3) assms(5) by (simp add: with_decoys_def)
  obtain base ds where loop: "claims_loop C R (hashAlg (opts I)) ?c ?s
      \<lparr>allDisclosures = [], draws = i\<rparr> 0 [] [] = (Inr (base, ds), st)" and w: "obj = with_sd base ds"
    using iss(2) by (rule buildClaimsObject_loop) (auto simp: with_sd_def)
  have made: "length (Disclosures tok) = length (disclosed_names ?c ?s)"
    using loop_names [OF loop] iss(6) by (auto dest: encodes_names_length)
  have cnt: "counted ?c ?s base ds" using loop_counted [OF loop assms(2)] by simp
  have "struct_depth ?c \<le> 16" using loop_depth [OF loop] by (simp add: maxNestingDepth_def)
  then have base: "carried 16 payload_limit base"
    using cnt by (auto simp: counted_def json_bound_def value_depth_limit_def payload_limit_def elim: carried_mono)
  have sd: "''_sd'' \<notin> keys base" and reg: "keys base \<inter> registered_names = {}" and ds: "list_all utf8_valid ds"
    using cnt showable_no_sd [OF assms(2)] assms(3) by (auto simp: counted_def)
  have alg: "utf8_valid sdAlg"
    using iss(1) by (auto simp: SDAlgFromHash_def intro!: ascii_utf8_valid split: if_splits)
  have "as_strings (map_of payload ''_sd'') \<noteq> Some []" by (simp add: obj w map_of_with_sd [OF sd])
  then have m: "m = assign_all (with_sd base ds)
      (registered_list I (bare_request req) now sdAlg (cnf_entry (HolderKey (bare_request req))))"
    using payload_assigned [OF assms(4)] iss(4) by (simp add: bare_payload obj w)
  note pay = counted_payload [OF base sd reg ds assms(4) bare_fields(3) alg, folded m]
  obtain L where L: "length L + length ds = shown_digests ?c ?s" "inside base \<subseteq> set L"
    using cnt by (auto simp: counted_def)
  show ?thesis
  proof (rule that [OF iss(1,5) pay(1) made, of "L @ ds"])
    show "length (L @ ds) = shown_digests ?c ?s" using L(1) by simp
    show "\<forall>p dg. embeds (header_view m) p dg \<longrightarrow> dg \<in> set (L @ ds)" using pay(2) L(2) by fastforce
  qed
qed

lemma digests_fit:
  assumes "verify_claims \<rho> t payload = Inr st" "sd_hash_alg payload = Inr h" "fair_run \<rho>"
    and "\<forall>p dg. embeds payload p dg \<longrightarrow> dg \<in> set L" "set encs \<subseteq> set (Disclosures t)"
  shows "card (Digest (prims \<rho>) h ` set encs) \<le> length L"
proof -
  obtain D where D: "collectDigests \<rho> [] payload 0 = Inr D"
    and op: "\<forall>enc \<in> set (Disclosures t). opened (prims \<rho>) h D enc \<noteq> None"
    using assms(1,2) by (auto simp: verify_claims_Inr)
  have "Digest (prims \<rho>) h enc \<in> Inr ` set L" if "enc \<in> set encs" for enc
  proof -
    have "opened (prims \<rho>) h D enc \<noteq> None" using op assms(5) that by blast
    then obtain dg where dg: "Digest (prims \<rho>) h enc = Inr dg" "map_of D dg \<noteq> None"
      by (auto simp: opened_def split: sum.splits)
    then have "dg \<in> set L" using collected_iff(1) [OF assms(3) D] assms(4) by blast
    then show ?thesis using dg(1) by simp
  qed
  then have "card (Digest (prims \<rho>) h ` set encs) \<le> card (Inr ` set L :: (goerr + string) set)"
    by (intro card_mono) auto
  also have "\<dots> \<le> length L" by (simp add: card_image card_length)
  finally show ?thesis .
qed

text \<open>
  C14: disclosures inside a claim that is itself a disclosure cannot be shown: when a selective claim is a
  \<open>StructuredClaim\<close> with selective fields of its own, \<open>Verify\<close> rejects every presentation of the token that
  discloses everything, with every verifier and whatever order \<open>range\<close> visits the maps in: it looks for
  digests in the signed payload alone and never in a disclosed value. For an issuer without decoys, a request that is good but for its
  claims, claims of which none is named like a registered one or \<open>_sd\<close> and none stays in clear as a plain
  object (which could list digests of its own), and disclosures with distinct digests.
\<close>
theorem full_disclosure_rejected:
  assumes "Issue C R now I req i = (Inr tok, j)" and "buries (Claims req) (SelectiveFields req)"
    and "showable (Claims req) (SelectiveFields req)"
    and "keys (Claims req) \<inter> registered_names = {}" and "good_request I (bare_request req) now"
    and "decoyCount (opts I) \<le> 0"
    and "distinct (map (Digest C (hashAlg (opts I))) (Disclosures tok))"
    and "Parse raw = Inr t" and "IssuerJWT t = IssuerJWT tok" and "set (Disclosures tok) \<subseteq> set (Disclosures t)"
    and "fair_run \<rho>" and "prims \<rho> = C"
  shows "\<exists>err. Verify \<rho> v raw nonce = Inl err"
proof (rule ccontr)
  assume "\<nexists>err. Verify \<rho> v raw nonce = Inl err"
  then obtain res where "Verify \<rho> v raw nonce = Inr res" by (meson sum.exhaust_sel)
  then obtain header payload st where dec: "decodeJWT (IssuerJWT tok) = Inr (header, payload)"
    and vc: "verify_claims \<rho> t payload = Inr st"
    using assms(8,9) by (auto simp: Verify_Inr authenticate_Inr)
  obtain sdAlg m L where iss: "SDAlgFromHash (hashAlg (opts I)) = Inr sdAlg"
    "signJWT (issuer_signer I) m = Inr (IssuerJWT tok)"
    "issued_payload C I (bare_request req) now sdAlg [] m"
    "length (Disclosures tok) = length (disclosed_names (Claims req) (SelectiveFields req))"
    "length L = shown_digests (Claims req) (SelectiveFields req)"
    "\<forall>p dg. embeds (header_view m) p dg \<longrightarrow> dg \<in> set L"
    by (rule issued_counted [OF assms(1,3-6)])
  have payload: "payload = header_view m" using issued_decodes [OF iss(3) assms(5) iss(2)] dec by simp
  have "card (Digest C (hashAlg (opts I)) ` set (Disclosures tok)) \<le> length L"
    using digests_fit [OF vc [unfolded payload] issued_alg [OF iss(3,1)] assms(11) iss(6) assms(10)] assms(12) by simp
  moreover have "card (Digest C (hashAlg (opts I)) ` set (Disclosures tok)) = length (Disclosures tok)"
    using distinct_card [OF assms(7)] by simp
  ultimately show False using buried_not_shown [OF assms(2)] iss(4,5) by simp
qed

end
