(* ===== verification/Wire_Types.thy ===== *)
theory Wire_Types
  imports EndToEnd
begin

text \<open>
  What the verifier decodes from an issuer JWT (\<open>Issue\<close> of \<open>issuer.go\<close> against \<open>decodeJWT\<close> and the type
  assertions of \<open>verifier.go\<close>): the registered claims with their dynamic types and values.
\<close>

section \<open>An issued token on the wire\<close>

lemma issued_header:
  "map_of (header_view (jwt_header typ sg)) ''typ'' = Some (GString typ)"
  "map_of (header_view (jwt_header typ sg)) ''alg'' = Some (GString (Algorithm sg))"
  "map_of (header_view (jwt_header typ sg)) ''kid'' = (if KeyID sg = [] then None else Some (GString (KeyID sg)))"
proof -
  have "map_of (header_view (jwt_header typ sg)) k = map_option json_norm (map_of (jwt_header typ sg) k)" for k
    by (rule map_of_view) (simp add: jwt_header_def)
  then show "map_of (header_view (jwt_header typ sg)) ''typ'' = Some (GString typ)"
    "map_of (header_view (jwt_header typ sg)) ''alg'' = Some (GString (Algorithm sg))"
    "map_of (header_view (jwt_header typ sg)) ''kid'' = (if KeyID sg = [] then None else Some (GString (KeyID sg)))"
    by (simp_all add: jwt_header_def)
qed

lemma issued_subject:
  assumes "issued_payload C I req now sdAlg encs m"
  shows "map_of (header_view m) ''sub'' = (if Subject req = [] then None else Some (GString (Subject req)))"
proof (cases "Subject req = []")
  case True
  then show ?thesis using assms map_of_view [of m "''sub''"] by (auto simp: issued_payload_def carried_def)
next
  case False
  then show ?thesis using issued_lookup [OF assms, of "''sub''" "GString (Subject req)"] by (simp add: registered_list_def)
qed

lemma issued_time:
  assumes "issued_payload C I req now sdAlg encs m" and "\<bar>i\<bar> < 2 ^ 53"
    and "(k, GInt i) \<in> set (registered_list I req now sdAlg (cnf_entry (HolderKey req)))"
  shows "\<exists>f. map_of (header_view m) k = Some (GFloat f) \<and> (\<forall>oor. f64_to_int64 oor f = i)"
proof -
  have "f64_of_int i \<noteq> None" by (rule f64_of_int_exact [OF assms(2)]) simp
  then obtain f where f: "f64_of_int i = Some f" by blast
  have "f64_to_int64 oor f = i" for oor
    by (rule f64_of_int_exact [OF assms(2), of oor]) (use f in simp)
  moreover have "map_of (header_view m) k = Some (GFloat f)"
    using issued_lookup [OF assms(1,3)] f by simp
  ultimately show ?thesis by blast
qed

text \<open>
  C18: the types of an issued token: for a good request, the issuer JWT decodes to a header and a payload
  in which every registered claim has the dynamic type that the verifier asserts, and the value of the
  request: \<open>typ\<close>, \<open>alg\<close>, \<open>iss\<close>, \<open>vct\<close> and \<open>_sd_alg\<close> are strings (the last names the issuer's hash), \<open>iat\<close>,
  \<open>nbf\<close> and \<open>exp\<close> are floats that convert back to the very seconds, \<open>kid\<close> and \<open>sub\<close> are strings or
  missing where empty, and \<open>cnf\<close>, if there is a holder key, is an object that holds its JWK.
\<close>
theorem issued_wire_types:
  assumes "Issue C R now I req i = (Inr tok, j)" and "good_request I req now"
  shows "\<exists>h p. decodeJWT (IssuerJWT tok) = Inr (h, p)
    \<and> map_of h ''typ'' = Some (GString ''vc+sd-jwt'')
    \<and> map_of h ''alg'' = Some (GString (Algorithm (issuer_signer I)))
    \<and> map_of h ''kid'' = (if KeyID (issuer_signer I) = [] then None else Some (GString (KeyID (issuer_signer I))))
    \<and> map_of p ''iss'' = Some (GString (issuer_id I)) \<and> map_of p ''vct'' = Some (GString (VCT req))
    \<and> (\<exists>s. map_of p ''_sd_alg'' = Some (GString s) \<and> AlgorithmFromSDAlg s = Inr (hashAlg (opts I)))
    \<and> (\<exists>f. map_of p ''iat'' = Some (GFloat f) \<and> (\<forall>oor. f64_to_int64 oor f = unix_of now))
    \<and> (\<exists>f. map_of p ''nbf'' = Some (GFloat f) \<and> (\<forall>oor. f64_to_int64 oor f = unix_of (issued_nbf req now)))
    \<and> (\<exists>f. map_of p ''exp'' = Some (GFloat f) \<and> (\<forall>oor. f64_to_int64 oor f = unix_of (issued_exp I req now)))
    \<and> map_of p ''sub'' = (if Subject req = [] then None else Some (GString (Subject req)))
    \<and> (case HolderKey req of None \<Rightarrow> True
       | Some pub \<Rightarrow> \<exists>jwk. buildCnf pub = Inr [(''jwk'', GMap jwk)] \<and> map_of p ''cnf'' = Some (GMap [(''jwk'', GMap jwk)])
           \<and> extractCnf p = Inr jwk)"
proof -
  obtain sdAlg m where alg: "SDAlgFromHash (hashAlg (opts I)) = Inr sdAlg"
    and sig: "signJWT (issuer_signer I) m = Inr (IssuerJWT tok)"
    and pay: "issued_payload C I req now sdAlg (Disclosures tok) m"
    by (rule issued [OF assms])
  note look = issued_lookup [OF pay]
  have small: "\<bar>unix_of now\<bar> < 2 ^ 53" "\<bar>unix_of (issued_nbf req now)\<bar> < 2 ^ 53" "\<bar>unix_of (issued_exp I req now)\<bar> < 2 ^ 53"
    using assms(2) by (simp_all add: good_request_def)
  have "AlgorithmFromSDAlg sdAlg = Inr (hashAlg (opts I))"
    using alg by (auto simp: SDAlgFromHash_def AlgorithmFromSDAlg_def split: if_splits)
  moreover have "map_of (header_view m) ''_sd_alg'' = Some (GString sdAlg)"
    "map_of (header_view m) ''iss'' = Some (GString (issuer_id I))" "map_of (header_view m) ''vct'' = Some (GString (VCT req))"
    using look [of "''_sd_alg''" "GString sdAlg"] look [of "''iss''" "GString (issuer_id I)"] look [of "''vct''" "GString (VCT req)"]
    by (simp_all add: registered_list_def)
  moreover have "map_of (header_view m) ''sub'' = (if Subject req = [] then None else Some (GString (Subject req)))"
    by (rule issued_subject [OF pay])
  moreover have "\<exists>f. map_of (header_view m) ''iat'' = Some (GFloat f) \<and> (\<forall>oor. f64_to_int64 oor f = unix_of now)"
    "\<exists>f. map_of (header_view m) ''nbf'' = Some (GFloat f) \<and> (\<forall>oor. f64_to_int64 oor f = unix_of (issued_nbf req now))"
    "\<exists>f. map_of (header_view m) ''exp'' = Some (GFloat f) \<and> (\<forall>oor. f64_to_int64 oor f = unix_of (issued_exp I req now))"
    by (rule issued_time [OF pay small(1)] issued_time [OF pay small(2)] issued_time [OF pay small(3)],
        simp add: registered_list_def)+
  moreover have "case HolderKey req of None \<Rightarrow> True
     | Some pub \<Rightarrow> \<exists>jwk. buildCnf pub = Inr [(''jwk'', GMap jwk)] \<and> map_of (header_view m) ''cnf'' = Some (GMap [(''jwk'', GMap jwk)])
         \<and> extractCnf (header_view m) = Inr jwk"
  proof (cases "HolderKey req")
    case (Some pub)
    then obtain jwk where jwk: "key_json pub = GMap jwk" "jwk_ok jwk"
      using assms(2) by (auto simp: good_request_def holder_key_ok_def split: gval.splits)
    have "map_of (header_view m) ''cnf'' = Some (GMap [(''jwk'', GMap (header_view jwk))])"
      by (rule issued_cnf [OF pay Some jwk])
    moreover have "buildCnf pub = Inr [(''jwk'', GMap (header_view jwk))]"
      by (rule buildCnf_view [OF jwk(1)]) (use jwk(2) in \<open>simp add: jwk_ok_def\<close>)
    ultimately show ?thesis using Some by (simp add: extractCnf_def)
  qed simp
  ultimately show ?thesis
    using issued_decodes [OF pay assms(2) sig] issued_header
    by (intro exI [of _ "header_view (jwt_header ''vc+sd-jwt'' (issuer_signer I))"] exI [of _ "header_view m"] conjI) auto
qed

end
