(* ===== verification/Witnesses.thy ===== *)
theory Witnesses
  imports Sample Jwx_Adapter Mortgage Recursive_Disclosure Wire_Types
begin

text \<open>
  The properties of the issuer, the holder, the verifier and of their composition, applied to the run
  of theory \<open>Sample\<close>.
\<close>

section \<open>Issuing and presenting\<close>

theorem selective_claims_are_hidden_witness:
  "map_of (take 2 sample_payload) ''name'' = None
    \<and> (\<exists>digests. length digests = 1 \<and> map_of (take 2 sample_payload) ''_sd'' = Some (GStrings digests))"
proof -
  have "distinct (map fst sample_claims)" "''_sd'' \<notin> keys sample_claims" by (simp_all add: sample_claims_def)
  from selective_claims_are_hidden [OF sample_object this] show ?thesis
    by (auto simp: sample_claims_def length_Suc_conv split: if_splits)
qed

theorem nesting_limit_witness:
  "struct_depth sample_claims \<le> 16 \<and> struct_depth sample_claims = 1"
  using nesting_limit [of toy_crypto toy_rng SHA256 sample_claims] sample_object
  by (auto simp: sample_claims_def Structured_def simp del: buildClaimsObject.simps)

theorem present_selects_witness:
  "Present toy_crypto (time_unix sample_time) sample_holder sample_token sample_options = Inr sample_presentation
    \<and> IssuerJWT sample_presentation = IssuerJWT sample_token
    \<and> Disclosures sample_presentation = [encode_or_empty sample_name, encode_or_empty sample_city]"
  using present_selects [of toy_crypto "time_unix sample_time" sample_holder sample_token sample_options sample_presentation]
    sample_present
  by (simp add: sample_options_def sample_issue)

section \<open>Verification\<close>

lemma is_prefix_last: "is_prefix (p @ [k]) q \<Longrightarrow> k \<in> set q"
proof (induction p arbitrary: q)
  case Nil
  then show ?case by (cases q) simp_all
next
  case (Cons a p)
  then show ?case by (cases q) auto
qed

theorem verified_is_signed_witness:
  "\<exists>header payload. decodeJWT (IssuerJWT sample_presentation) = Inr (header, payload)
    \<and> map_of payload ''iss'' = Some (GString ''https://issuer'')
    \<and> verifyJWTSignature toy_crypto (IssuerJWT sample_presentation) toy_key (string_or_empty (map_of header ''alg'')) = Inr ()"
  using verified_is_signed [OF sample_verified(1)]
  by (auto simp: sample_verified sample_presented sample_verifier_config sample_resolver_def sample_fair split: if_splits)

theorem disclosures_accepted_iff_witness:
  "map_depth sample_view \<le> 16 \<and> distinct (map fst (named_claims (Disclosures sample_presentation)))"
proof -
  obtain st where "verify_claims sample_run sample_presentation sample_view = Inr st"
    using sample_verified(1) by (auto simp: Verify_Inr sample_presented sample_authenticated)
  then show ?thesis using disclosures_accepted_iff [OF sample_fair(1)] by blast
qed

theorem verified_claims_are_committed_witness:
  "[(''name'', GString ''Ada''), (''city'', GString ''Rome'')] = named_claims (Disclosures sample_presentation)"
  using sample_decoded verified_claims_are_committed [OF sample_fair(1) sample_verified(1) sample_presented(5)]
  by (metis sample_verified(2))

theorem commitment_is_binding_witness:
  "Key sample_name = ''name'' \<and> Value sample_name = json_norm (Value sample_name)"
  using commitment_is_binding [OF sample_ok_disclosures(1) sample_enc(1) sample_parse(1) sample_toy_digest sample_toy_digest]
  by (simp add: sample_name_def)

theorem disclosed_claim_in_place_witness:
  "slot_at [''address'', ''city''] (IssuerClaims sample_result) = Some (GString ''Rome'')"
proof -
  obtain header where dec: "decodeJWT (IssuerJWT sample_presentation) = Inr (header, sample_view)"
    by (rule sample_decoded)
  have "slot_at ([''address''] @ [Key sample_city]) (IssuerClaims sample_result) = Some (Value sample_city)"
  proof (rule disclosed_claim_in_place [OF sample_fair(1) sample_verified(1) sample_presented(5) dec sample_alg])
    show "Disclosures sample_presentation = [encode_or_empty sample_name] @ encode_or_empty sample_city # []"
      by (simp add: sample_presented)
    show "embeds sample_view q (sample_digest sample_city) \<longleftrightarrow> q = [''address'']" for q
      using sample_digests_differ by (auto simp: sample_embeds)
    show "Key sample_city \<noteq> []" by (simp add: sample_city_def)
    show "ParseDisclosure (encode_or_empty sample_city) = Inr sample_city" by (rule sample_parse(2))
    show "Digest (prims sample_run) SHA256 (encode_or_empty sample_city) = Inr (sample_digest sample_city)"
      unfolding sample_fair sample_digest_def by (rule sample_toy_digest)
    fix enc' d' dg' q
    assume "enc' \<in> set [encode_or_empty sample_name] \<union> set []" "ParseDisclosure enc' = Inr d'"
    then have "d' = sample_name" using sample_parse by simp
    then show "\<not> is_prefix (q @ [Key d']) ([''address''] @ [Key sample_city])"
      by (auto simp: sample_name_def sample_city_def dest!: is_prefix_last)
  qed
  then show ?thesis by (simp add: sample_city_def)
qed

theorem clear_claims_untouched_witness:
  "slot_at [''address'', ''country''] (IssuerClaims sample_result) = Some (GString ''IT'')"
proof -
  obtain header where dec: "decodeJWT (IssuerJWT sample_presentation) = Inr (header, sample_view)"
    by (rule sample_decoded)
  have "map_of sample_view ''address'' = Some (GMap sample_address)"
    by (simp add: sample_lookup sample_payload_def sample_address_def header_view_def)
  then have c: "slot_at [''address'', ''country''] sample_view = Some (GString ''IT'')"
    by (simp add: sample_address_lookup)
  have "slot_at [''address'', ''country''] (IssuerClaims sample_result) = slot_at [''address'', ''country''] sample_view"
  proof (rule clear_claims_untouched [OF sample_fair(1) sample_verified(1) sample_presented(5) dec sample_alg])
    show "\<not> is_object (slot_at [''address'', ''country''] sample_view)" unfolding c by (simp add: is_object_def)
    fix enc d dg p
    assume "enc \<in> set (Disclosures sample_presentation)" "ParseDisclosure enc = Inr d"
    then have "Key d = ''name'' \<or> Key d = ''city''"
      using sample_parse by (auto simp: sample_presented sample_name_def sample_city_def)
    then show "\<not> is_prefix (p @ [Key d]) [''address'', ''country'']"
      by (auto dest!: is_prefix_last)
  qed
  then show ?thesis using c by simp
qed

theorem verdict_independent_of_map_order_witness:
  "Verify (sample_run\<lparr>range_order := rev\<rparr>) sample_verifier sample_raw ''n-1'' = Inr sample_result"
proof -
  have "fair_run (sample_run\<lparr>range_order := rev\<rparr>)" by (simp add: fair_run_def)
  moreover obtain header where "decodeJWT (IssuerJWT sample_presentation) = Inr (header, sample_view)"
    by (rule sample_decoded)
  ultimately have "Verify (sample_run\<lparr>range_order := rev\<rparr>) sample_verifier sample_raw ''n-1''
      = Verify sample_run sample_verifier sample_raw ''n-1''"
    using sample_one_place
    by (intro verdict_independent_of_map_order [OF sample_fair(1)]) (auto simp: sample_presented)
  then show ?thesis using sample_verified(1) by simp
qed

theorem verified_in_validity_period_witness:
  "unix_nanos (clock sample_run) \<le> 1707776000 * 1000000000"
proof -
  obtain header where dec: "decodeJWT (IssuerJWT sample_presentation) = Inr (header, sample_view)"
    by (rule sample_decoded)
  obtain f where f: "f64_of_int 1707776000 = Some f" "f64_to_int64 (out_of_range sample_run) f = 1707776000"
    by (rule f64_of_int_exact [of 1707776000]) simp_all
  have exp: "map_of sample_view ''exp'' = Some (GFloat f)"
    by (simp add: sample_lookup sample_payload_def f(1))
  have "map_of sample_view ''exp'' = Some (GFloat f) \<longrightarrow>
      unix_nanos (clock sample_run) \<le> 1707776000 * 1000000000 + clockSkew (vopts sample_verifier)"
    by (rule conjunct1, rule verified_in_validity_period
        [OF sample_verified(1) sample_presented(5) dec sample_fair(4) _ _ f(2) [symmetric]])
      (simp_all add: sample_verifier_config int64_range_def)
  then show ?thesis using exp by (simp add: sample_verifier_config)
qed

theorem verified_key_binding_witness:
  "\<exists>kbh kbp. decodeJWT (KBJWT sample_presentation) = Inr (kbh, kbp)
    \<and> map_of kbp ''nonce'' = Some (GString ''n-1'')
    \<and> aud_matches (map_of kbp ''aud'') ''https://verifier''"
  using verified_key_binding [OF sample_verified(1) sample_presented(5)] sample_verified(6)
  by (auto simp: sample_verifier_config)

theorem required_key_binding_witness:
  "\<exists>t kbh kbp. Parse sample_raw = Inr t \<and> decodeJWT (KBJWT t) = Inr (kbh, kbp)
    \<and> (map_of kbp ''aud'' = Some (GString ''https://verifier'')
       \<or> (\<exists>xs. map_of kbp ''aud'' = Some (GSlice xs) \<and> GString ''https://verifier'' \<in> set xs))"
proof -
  have "sample_verifier = NewVerifier sample_resolver ([ExpectVCT ''urn:id''] @ RequireKeyBinding ''https://verifier'' # [])"
    by (simp add: sample_verifier_def)
  from required_key_binding [OF this _ sample_verified(1)] show ?thesis by simp
qed

text \<open>A verifier without expectations, asked about the same KB-JWT.\<close>

definition lax_verifier :: verifier where
  "lax_verifier = NewVerifier sample_resolver []"

lemma lax_verified:
  assumes "res_fn ''https://issuer'' ''k1'' = Inr toy_key"
  shows "\<exists>res. Verify sample_run (NewVerifier res_fn []) sample_raw ''n-1'' = Inr res
    \<and> ResultIssuer res = ''https://issuer''"
proof -
  have "accepting_run sample_run (NewVerifier res_fn []) toy_crypto sample_issuer sample_request (time_unix sample_time)"
    using sample_accepting
    by (simp add: accepting_run_def NewVerifier_def default_verifier_config_def sample_verifier_config)
  then show ?thesis
    using presented_verifies [OF sample_issue(1) sample_good _ _ _ _ sample_present sample_matching] toy_signs_for assms
    by (force simp: sample_config sample_expected registered_names_def NewVerifier_def
        default_verifier_config_def toy_signer_def sample_raw_def sample_options_def)
qed

theorem kbjwt_not_transferable_witness:
  "\<exists>res'. Verify sample_run lax_verifier sample_raw ''n-1'' = Inr res'
    \<and> Verify sample_run sample_verifier sample_raw ''n-1'' = Inr sample_result \<and> sample_presentation = sample_presentation"
proof -
  obtain res' where "Verify sample_run lax_verifier sample_raw ''n-1'' = Inr res'"
    using lax_verified [of sample_resolver] by (auto simp: lax_verifier_def sample_resolver_def)
  moreover from kbjwt_not_transferable [OF sample_verified(1) sample_presented(5) this sample_presented(5) refl sample_presented(4) refl]
  have "sample_presentation = sample_presentation" by simp
  ultimately show ?thesis using sample_verified(1) by blast
qed

theorem verify_errors_staged_witness:
  "\<exists>stage e'. Verify sample_run sample_verifier ''abc'' ''n-1'' = Inl (VerificationError stage e')
    \<and> errors_Is (VerificationError stage e') ErrInvalidFormat"
proof -
  have "Parse ''abc'' = Inl (Sentinel ErrInvalidFormat)" by (simp add: Parse_def tilde_def)
  then have "Verify sample_run sample_verifier ''abc'' ''n-1'' = Inl (VerificationError ''parse'' (Sentinel ErrInvalidFormat))"
    by (simp add: Verify_def)
  with verify_errors_staged [OF this] show ?thesis by (auto simp: stage_errors_def)
qed

section \<open>The whole protocol\<close>

theorem holder_binding_verifies_witness:
  "verifyKBJWT toy_crypto sample_presentation (GMap sample_jwk) ''n-1'' ''https://verifier'' = Inr ()"
  using holder_binding_verifies [OF sample_present [unfolded sample_holder_def NewHolder_def] _ toy_signs_for sample_holder_key]
    sample_unix(1) sample_times
  by (simp add: sample_options_def toy_signer_def ascii_utf8_valid)

text \<open>A selective structured claim is no obstacle to issuance.\<close>

definition whole_claims :: gmap where
  "whole_claims = [(''name'', GString ''Ada''), (''vct'', Structured [(''city'', GString ''Rome'')] [''city''])]"

theorem issue_succeeds_witness:
  "\<exists>tok j ds. Issue toy_crypto toy_rng (time_unix sample_time) sample_issuer
      (sample_request\<lparr>Claims := whole_claims, SelectiveFields := [''vct'']\<rparr>) 0 = (Inr tok, j)
    \<and> map Encode ds = map Inr (Disclosures tok) \<and> map Key ds = [''city'', ''vct'']"
proof -
  let ?r = "sample_request\<lparr>Claims := whole_claims, SelectiveFields := [''vct'']\<rparr>"
  have c: "Claims ?r = whole_claims" "SelectiveFields ?r = [''vct'']" "VCT ?r \<noteq> []"
    "HolderKey ?r = HolderKey sample_request"
    by (simp_all add: sample_config)
  have "cnf_builds (HolderKey ?r)"
    unfolding c(4) by (rule cnf_builds_ok) (use sample_good in \<open>simp add: good_request_def\<close>)
  moreover have "supported_hash (hashAlg (opts sample_issuer))" by (simp add: sample_config supported_hash_def)
  moreover have "set (SelectiveFields ?r) \<subseteq> keys (Claims ?r)" "encodable (Claims ?r)" "struct_depth (Claims ?r) \<le> 16"
    unfolding c by (simp_all add: whole_claims_def Structured_def)
  ultimately have "\<exists>tok j ds. Issue toy_crypto toy_rng (time_unix sample_time) sample_issuer ?r 0 = (Inr tok, j)
      \<and> map Encode ds = map Inr (Disclosures tok) \<and> map Key ds = disclosed_names (Claims ?r) (SelectiveFields ?r)"
    using c(3) by (intro issue_succeeds [OF sample_reliable])
  then show ?thesis unfolding c by (simp add: whole_claims_def Structured_def)
qed

theorem issue_present_verify_witness:
  "\<exists>claims. Verify sample_run sample_verifier (String sample_presentation) ''n-1'' = Inr
     \<lparr>IssuerClaims = claims, DisclosedClaims = [(''name'', GString ''Ada''), (''city'', GString ''Rome'')],
      ResultIssuer = ''https://issuer'', ResultVCT = ''urn:id'', ResultSubject = ''ada'', KeyBound = True\<rparr>"
  using issue_present_verify [OF sample_issue(1) sample_good _ _ _ _ sample_present sample_matching sample_accepting, of toy_key]
    toy_signs_for
  by (simp add: sample_config sample_expected registered_names_def sample_verifier_config sample_resolver_def
      sample_options_def toy_signer_def)

theorem protocol_completes_witness:
  "\<exists>tok j p res. Issue toy_crypto toy_rng (time_unix sample_time) sample_issuer sample_request 0 = (Inr tok, j)
    \<and> Present toy_crypto (time_unix sample_time) sample_holder tok sample_options = Inr p
    \<and> Verify sample_run sample_verifier (String p) ''n-1'' = Inr res \<and> KeyBound res
    \<and> DisclosedClaims res = [(''name'', GString ''Ada''), (''city'', GString ''Rome'')]"
proof -
  have "supported_hash SHA256" "set [''name''] \<subseteq> keys sample_claims"
    by (simp_all add: supported_hash_def sample_claims_def)
  then show ?thesis
    using protocol_completes [OF sample_good sample_reliable _ _ _ _ _ _ _ _ sample_matching sample_accepting, of toy_key 0] sample_binds toy_signs_for
    by (simp add: sample_config sample_expected registered_names_def sample_verifier_config sample_resolver_def
        sample_options_def toy_signer_def)
qed

section \<open>The adapter\<close>

theorem static_verified_by_configured_key_witness:
  "\<exists>res. Verify sample_run (NewVerifier (Static_ResolveKey toy_static) []) sample_raw ''n-1'' = Inr res
    \<and> EcdsaKey P256 1 2 \<in> configured toy_package toy_config (ResultIssuer res)"
proof -
  let ?v = "NewVerifier (Static_ResolveKey toy_static) []"
  have "Static_ResolveKey toy_static ''https://issuer'' ''k1'' = Inr toy_key"
    by (simp add: Static_ResolveKey_def toy_static_def entry_name_def toy_key_def)
  then obtain res where v: "Verify sample_run ?v sample_raw ''n-1'' = Inr res" "ResultIssuer res = ''https://issuer''"
    using lax_verified by blast
  have "resolver ?v = Static_ResolveKey toy_static" by (simp add: NewVerifier_def)
  from static_verified_by_configured_key [OF toy_static toy_nul_free this v(1)]
  obtain pub where "pub \<in> configured toy_package toy_config (ResultIssuer res)" by blast
  then obtain x where "(''https://issuer'', [(''k0'', 7), (''k1'', 1 :: nat)]) \<in> set toy_config"
    by (auto simp: toy_config_def)
  then have "EcdsaKey P256 1 2 \<in> configured toy_package toy_config (ResultIssuer res)"
    unfolding configured_def v(2) mem_Collect_eq
    by (intro exI [of _ "[(''k0'', 7), (''k1'', 1)]"] exI [of _ 1]) (simp add: toy_package_def extractPublicKey_def)
  then show ?thesis using v(1) by blast
qed

text \<open>A signer whose signatures are DER sequences of 72 bytes, and primitives that check the order.\<close>

definition der_signer :: signer where
  "der_signer = \<lparr>Sign = (\<lambda>m. Inr (CHR 0x30 # replicate 71 (CHR 0x02))), Algorithm = ''ES256'', KeyID = ''k1''\<rparr>"

definition strict_run :: run where
  "strict_run = sample_run\<lparr>prims := toy_crypto\<lparr>ecdsa_Verify := (\<lambda>crv x y digest r s. r < 256 ^ order_bytes crv)\<rparr>\<rparr>"

theorem asn1_signer_never_verifies_witness:
  "\<exists>jwt e. signJWT der_signer sample_payload = Inr jwt
    \<and> Verify strict_run sample_verifier (String \<lparr>IssuerJWT = jwt, Disclosures = [], KBJWT = []\<rparr>) ''n-1'' = Inl e"
proof -
  have "portable (GMap (jwt_header ''vc+sd-jwt'' der_signer))"
    by (rule jwt_header_portable) (simp_all add: ascii_utf8_valid der_signer_def)
  moreover have "portable (GMap sample_payload)"
    using sample_issued_payload
    by (simp add: issued_payload_def carried_def portable_def payload_limit_def json_max_depth_def)
  ultimately obtain jwt where jwt: "signJWT der_signer sample_payload = Inr jwt"
    using sign_total [where sg = der_signer and hdr = "jwt_header ''vc+sd-jwt'' der_signer" and pl = sample_payload]
    by (auto simp: signJWT_def der_signer_def)
  let ?t = "\<lparr>IssuerJWT = jwt, Disclosures = [], KBJWT = []\<rparr>"
  have order: "order_checked (prims strict_run)"
    by (simp add: order_checked_def strict_run_def)
  have der: "2 * order_bytes P256 + 2 \<le> length sig \<and> take 1 sig = [CHR 0x30]"
    if "Sign der_signer m = Inr sig" for m sig
    using that by (auto simp: der_signer_def)
  have curve: "\<exists>x y. pub = EcdsaKey P256 x y" if "resolver sample_verifier iss kid = Inr pub" for iss kid pub
    using that by (auto simp: sample_verifier_config sample_resolver_def toy_key_def split: if_splits)
  have "Parse (String ?t) = Inr ?t"
    by (rule presented_parses [of der_signer sample_payload]) (use jwt in simp_all)
  then have parse: "Parse (String ?t) = Inr ?t" .
  have "\<exists>e. Verify strict_run sample_verifier (String ?t) ''n-1'' = Inl e"
    by (rule asn1_signer_never_verifies [where payload = sample_payload, OF order _ der curve parse]) (use jwt in simp_all)
  then show ?thesis using jwt by blast
qed

section \<open>A holder key of the standard library\<close>

lemma small_floats:
  "f64_of_ratio False (Suc 0) (Suc 0) = Some (Fin False 4503599627370496 (- 52))"
  "f64_of_ratio False 2 (Suc 0) = Some (Fin False 4503599627370496 (- 51))"
  "f64_of_ratio False 3 (Suc 0) = Some (Fin False 6755399441055744 (- 51))"
  using f64_of_ratio_int [of 1 False] f64_of_ratio_int [of 2 False] f64_of_ratio_int [of 3 False]
  by (simp_all add: log2_floor.simps)

lemma small_digits: "show_nat (Suc 0) = ''1''" "show_nat 2 = ''2''"
  by (subst show_nat.simps, simp, code_simp)+

lemma native_floats:
  "f64_of_int 1 = Some (Fin False 4503599627370496 (- 52))" "f64_of_int 2 = Some (Fin False 4503599627370496 (- 51))"
  "f64_fmt (Fin False 4503599627370496 (- 52)) \<noteq> None" "f64_fmt (Fin False 4503599627370496 (- 51)) \<noteq> None"
proof -
  have upt: "[1..<18] = 1 # [2..<18]" by (simp add: upt_rec)
  have exp: "dec_exp 4503599627370496 4503599627370496 = 1" "dec_exp 4503599627370496 2251799813685248 = 1"
    by (simp_all add: dec_exp_def small_digits)
  have "dec_candidate (Fin False 4503599627370496 (- 52)) 4503599627370496 4503599627370496 1 1 = Some (1, 0)"
    "dec_candidate (Fin False 4503599627370496 (- 51)) 4503599627370496 2251799813685248 1 1 = Some (2, 0)"
    using small_floats by (simp_all add: dec_candidate_def Let_def f64_of_decimal_def numeral_2_eq_2 numeral_3_eq_3)
  then have "shortest 4503599627370496 (- 52) = Some (1, 0)" "shortest 4503599627370496 (- 51) = Some (2, 0)"
    unfolding shortest_def Let_def upt by (simp_all add: exp del: upt_Suc One_nat_def)
  then show "f64_fmt (Fin False 4503599627370496 (- 52)) \<noteq> None" "f64_fmt (Fin False 4503599627370496 (- 51)) \<noteq> None"
    by (simp_all add: f64_fmt_def)
  show "f64_of_int 1 = Some (Fin False 4503599627370496 (- 52))" "f64_of_int 2 = Some (Fin False 4503599627370496 (- 51))"
    by (simp_all add: f64_of_int_def small_floats)
qed

lemma toy_key_ok: "holder_key_ok (Some toy_key)"
proof -
  let ?m = "[(''Curve'', GMap []), (''X'', GInt 1), (''Y'', GInt 2)]"
  have m: "key_json toy_key = GMap ?m" by (simp add: toy_key_def key_json_def)
  have "decodes (GInt 1)" "decodes (GInt 2)" by (rule decodes_int; simp)+
  moreover have "utf8_valid ''Curve''" "utf8_valid ''X''" "utf8_valid ''Y''"
    by (rule ascii_utf8_valid; simp)+
  ultimately have port: "portable (GMap ?m)"
    by (simp add: portable_def json_max_depth_def del: decodes.simps(2))
  have "json_enc (GMap (header_view ?m)) \<noteq> None"
    using native_floats by (auto simp: header_view_def less_char_def)
  then have "jwk_ok ?m" by (intro native_jwk_ok [OF port]) auto
  then show ?thesis by (simp add: holder_key_ok_def m)
qed

definition native_request :: issue_request where
  "native_request = sample_request\<lparr>HolderKey := Some toy_key\<rparr>"

lemma native_request_good:
  "good_request sample_issuer (native_request\<lparr>HolderKey := None\<rparr>) (time_unix sample_time)"
  "good_request sample_issuer native_request (time_unix sample_time)"
proof -
  show less: "good_request sample_issuer (native_request\<lparr>HolderKey := None\<rparr>) (time_unix sample_time)"
    using sample_good by (simp add: native_request_def good_request_def holder_key_ok_def)
  show "good_request sample_issuer native_request (time_unix sample_time)"
    by (rule good_with_key [OF less]) (simp add: native_request_def toy_key_ok)
qed

theorem native_holder_never_binds_witness:
  "\<exists>tok j. Issue toy_crypto toy_rng (time_unix sample_time) sample_issuer native_request 0 = (Inr tok, j)
    \<and> (\<exists>err. Verify sample_run sample_verifier (String (tok\<lparr>KBJWT := ''kb''\<rparr>)) ''n-1'' = Inl err)"
proof -
  obtain tok j where tok: "Issue toy_crypto toy_rng (time_unix sample_time) sample_issuer native_request 0 = (Inr tok, j)"
    using Issue_total [OF native_request_good(2) sample_reliable, of toy_crypto 0]
    by (auto simp: sample_config supported_hash_def sample_claims_def native_request_def)
  obtain sdAlg m where sig: "signJWT (issuer_signer sample_issuer) m = Inr (IssuerJWT tok)"
    and pay: "issued_payload toy_crypto sample_issuer native_request (time_unix sample_time) sdAlg (Disclosures tok) m"
    by (rule issued [OF tok native_request_good(2)])
  let ?t = "tok\<lparr>KBJWT := ''kb''\<rparr>"
  have "\<forall>enc \<in> set (Disclosures tok). \<exists>h dg. disclosed_as toy_crypto h enc dg"
    using pay unfolding issued_payload_def by blast
  then have "Parse (String ?t) = Inr ?t"
    using sig by (intro presented_parses [where C = toy_crypto and sg = "issuer_signer sample_issuer" and m = m]) simp_all
  then have "\<exists>err. Verify sample_run sample_verifier (String ?t) ''n-1'' = Inl err"
    by (intro native_holder_never_binds [OF tok native_request_good(1), where pub = toy_key and crv = P256 and x = 1 and y = 2 and t = ?t])
       (simp_all add: native_request_def toy_key_def sample_config sample_expected registered_names_def
         HasKeyBinding_def sample_fair)
  then show ?thesis using tok by blast
qed

section \<open>A run of the example program\<close>

definition toy_private :: ec_private where
  "toy_private = \<lparr>ec_x = 1, ec_y = 2, SignASN1 = (\<lambda>d. Inr (d @ d))\<rparr>"

definition toy_world :: world where
  "toy_world =
     \<lparr>w_crypto = toy_crypto, w_bank = Inr toy_private, w_wallet = Inr toy_private, w_random = toy_rng,
      w_offer_time = time_unix sample_time, w_issue_time = time_unix sample_time,
      w_present_time = time_unix sample_time, w_zone = 0, w_visit = (\<lambda>m. m),
      w_verify = sample_run, w_replay = sample_run\<rparr>"

lemma toy_world_simps [simp]:
  "w_crypto toy_world = toy_crypto" "w_bank toy_world = Inr toy_private" "w_wallet toy_world = Inr toy_private"
  "w_random toy_world = toy_rng" "w_issue_time toy_world = time_unix sample_time"
  "w_present_time toy_world = time_unix sample_time" "w_visit toy_world m = m" "w_verify toy_world = sample_run"
  by (simp_all add: toy_world_def)

lemma toy_world_ok: "fair_visit toy_world" "sane_clock toy_world" "fair_run (w_verify toy_world)"
  using sample_unix sample_times sample_fair by (simp_all add: fair_visit_def sane_clock_def)

lemma toy_world_issues:
  obtains tok where "fst (Issue (w_crypto toy_world) (w_random toy_world) (w_issue_time toy_world)
      (mortgage_issuer toy_world toy_private) (offer_request toy_world toy_private) 0) = Inr tok"
proof -
  let ?I = "mortgage_issuer toy_world toy_private" and ?r = "offer_request toy_world toy_private"
  have "ec_public toy_private = toy_key" by (simp add: ec_public_def toy_private_def toy_key_def)
  then have good: "good_request ?I ?r (time_unix sample_time)"
    using good_with_key [OF offer_good(1) [OF toy_world_ok(1,2)], of toy_private] toy_key_ok
    by (simp add: offer_request_def)
  have "reliable toy_rng (issuer_signer ?I)"
    using toy_rng_total by (simp add: reliable_def mortgage_issuer_def NewIssuer_def bankSigner_def ec_signer_def
        ec_Sign_def toy_private_def)
  moreover have "supported_hash (hashAlg (opts ?I))"
    by (simp add: mortgage_issuer_def NewIssuer_def default_issuer_config_def WithSchemaURI_def WithTokenTTL_def supported_hash_def)
  moreover have "VCT ?r \<noteq> []" "set (SelectiveFields ?r) \<subseteq> keys (Claims ?r)"
    by (simp_all add: offer_request_def offer_vct_def offer_claims_def)
  ultimately obtain tok j where "Issue toy_crypto toy_rng (time_unix sample_time) ?I ?r 0 = (Inr tok, j)"
    using Issue_total [OF good] by blast
  then show ?thesis using that by simp
qed

theorem mortgage_never_verifies_witness:
  "\<exists>out e. mortgage toy_world = (out, Fatalf ''verifying presentation'' e)"
proof -
  obtain tok where issue: "fst (Issue (w_crypto toy_world) (w_random toy_world) (w_issue_time toy_world)
      (mortgage_issuer toy_world toy_private) (offer_request toy_world toy_private) 0) = Inr tok"
    by (rule toy_world_issues)
  obtain j sdAlg m where "issued_payload (w_crypto toy_world) (mortgage_issuer toy_world toy_private)
      (offer_request toy_world toy_private) (w_issue_time toy_world) sdAlg (Disclosures tok) m"
    by (rule offer_issued [OF toy_world_ok(1,2) issue])
  then have "\<forall>enc \<in> set (Disclosures tok). \<exists>d. ParseDisclosure enc = Inr d"
    unfolding issued_payload_def disclosed_as_def by blast
  moreover have "can_bind (NewHolder (Some (walletSigner toy_world toy_private))) presentation (time_unix sample_time)"
    using sample_unix(1) sample_times
    by (simp add: can_bind_def NewHolder_def walletSigner_def ec_signer_def ec_Sign_def ec_Algorithm_def ec_KeyID_def
        toy_private_def presentation_def challenge_def conveyancerURI_def ascii_utf8_valid)
  ultimately obtain p where "Present (w_crypto toy_world) (w_present_time toy_world)
      (NewHolder (Some (walletSigner toy_world toy_private))) tok presentation = Inr p"
    using Present_total [of presentation "NewHolder (Some (walletSigner toy_world toy_private))" "time_unix sample_time" tok toy_crypto]
    by auto
  note run = this issue issue_long [OF toy_world_ok(1,2) issue]
  obtain out ctx e where fatal: "mortgage toy_world = (out, Fatalf ctx e)"
    using mortgage_never_verifies [OF toy_world_ok] by blast
  show ?thesis
  proof (cases "Verify sample_run (conveyancer toy_private) (String p) challenge")
    case (Inl e)
    then show ?thesis using run by (simp add: mortgage_def)
  next
    case (Inr res)
    then show ?thesis using run fatal by (simp add: mortgage_def Let_def split: if_splits)
  qed
qed

section \<open>A selective claim with selective fields\<close>

definition buried_claims :: gmap where
  "buried_claims = [(''address'', Structured [(''city'', GString ''Rome'')] [''city''])]"

definition buried_request :: issue_request where
  "buried_request = sample_request\<lparr>Claims := buried_claims, SelectiveFields := [''address'']\<rparr>"

definition buried_city :: disclosure where
  "buried_city = \<lparr>Salt = b64_enc (replicate 16 (char_of (0 :: nat))), Key = ''city'', Value = GString ''Rome''\<rparr>"

definition buried_address :: disclosure where
  "buried_address = \<lparr>Salt = b64_enc (replicate 16 (char_of (Suc 0))), Key = ''address'',
     Value = GMap [(''_sd'', GStrings [sample_digest buried_city])]\<rparr>"

lemma buried_ok: "ok_disclosure buried_city" "ok_disclosure buried_address"
  by (simp_all add: ok_disclosure_def buried_city_def buried_address_def sample_digest_def json_max_depth_def
      ascii_utf8_valid b64_utf8_valid)

lemma buried_enc: "Encode buried_city = Inr (encode_or_empty buried_city)"
    "Encode buried_address = Inr (encode_or_empty buried_address)"
  using encode_ok [OF buried_ok(1)] encode_ok [OF buried_ok(2)]
  by (metis encode_or_empty_def sum.case(2))+

lemma buried_differ: "encode_or_empty buried_city \<noteq> encode_or_empty buried_address"
proof
  assume "encode_or_empty buried_city = encode_or_empty buried_address"
  then have "norm_disclosure buried_city = norm_disclosure buried_address"
    using parse_encode [OF buried_ok(1) buried_enc(1)] parse_encode [OF buried_ok(2) buried_enc(2)] by simp
  then show False by (simp add: norm_disclosure_def buried_city_def buried_address_def)
qed

lemma buried_disclose:
  "disclose toy_crypto toy_rng SHA256 ''city'' (GString ''Rome'') \<lparr>allDisclosures = [], draws = 0\<rparr> =
     (Inr (sample_digest buried_city), \<lparr>allDisclosures = [encode_or_empty buried_city], draws = Suc 0\<rparr>)"
  "disclose toy_crypto toy_rng SHA256 ''address'' (GMap [(''_sd'', GStrings [sample_digest buried_city])])
       \<lparr>allDisclosures = encs, draws = Suc 0\<rparr> =
     (Inr (sample_digest buried_address), \<lparr>allDisclosures = encs @ [encode_or_empty buried_address], draws = Suc (Suc 0)\<rparr>)"
  using buried_enc sample_toy_digest [of "encode_or_empty buried_city"] sample_toy_digest [of "encode_or_empty buried_address"]
  by (simp_all add: disclose_def NewDisclosure_def randomSalt_def toy_rng_def DefaultSaltBytes_def
      Disclosure_Digest_def sample_digest_def flip: buried_city_def buried_address_def [unfolded sample_digest_def])

lemma buried_object:
  "buildClaimsObject toy_crypto toy_rng SHA256 buried_claims [''address''] \<lparr>allDisclosures = [], draws = 0\<rparr> 0 =
     (Inr [(''_sd'', GStrings [sample_digest buried_address])],
      \<lparr>allDisclosures = [encode_or_empty buried_city, encode_or_empty buried_address], draws = Suc (Suc 0)\<rparr>)"
  using buried_disclose by (simp add: buried_claims_def Structured_def maxNestingDepth_def)

lemma buried_bare_good: "good_request sample_issuer (bare_request buried_request) (time_unix sample_time)"
proof -
  have "issued_nbf (bare_request buried_request) = issued_nbf sample_request"
    "issued_exp sample_issuer (bare_request buried_request) = issued_exp sample_issuer sample_request"
    by (intro ext; simp add: issued_nbf_def issued_exp_def buried_request_def)+
  then show ?thesis using sample_good by (simp add: good_request_def buried_request_def)
qed

lemma buried_issue:
  obtains jwt j where "Issue toy_crypto toy_rng (time_unix sample_time) sample_issuer buried_request 0 =
    (Inr \<lparr>IssuerJWT = jwt, Disclosures = [encode_or_empty buried_city, encode_or_empty buried_address], KBJWT = []\<rparr>, j)"
    "\<exists>m. signJWT (toy_signer ''k1'') m = Inr jwt"
proof -
  let ?now = "time_unix sample_time" and ?base = "[] :: gmap" and ?ds = "[sample_digest buried_address]"
  let ?m = "assign_all (with_sd ?base ?ds) (registered_list sample_issuer (bare_request buried_request) ?now ''sha-256''
      (cnf_entry (HolderKey (bare_request buried_request))))"
  have pay: "issued_payload toy_crypto sample_issuer (bare_request buried_request) ?now ''sha-256'' [] ?m"
    by (rule counted_payload(1) [OF _ _ _ _ buried_bare_good])
       (simp_all add: sample_digest_def b64_utf8_valid ascii_utf8_valid)
  have obj: "with_sd ?base ?ds = [(''_sd'', GStrings ?ds)]" by (simp add: with_sd_def)
  have p: "issuer_payload sample_issuer buried_request ?now ''sha-256'' (with_sd ?base ?ds) = Inr ?m"
    using payload_assigned [OF buried_bare_good, of "with_sd ?base ?ds" "''sha-256''"] by (simp add: bare_payload obj)
  have "portable (GMap (jwt_header ''vc+sd-jwt'' (toy_signer ''k1'')))"
    by (rule jwt_header_portable) (simp_all add: ascii_utf8_valid toy_signer_def)
  moreover have "portable (GMap ?m)"
    using pay by (simp add: issued_payload_def carried_def portable_def payload_limit_def json_max_depth_def)
  ultimately obtain jwt where "sign_compact (toy_signer ''k1'') (jwt_header ''vc+sd-jwt'' (toy_signer ''k1'')) ?m = Inr jwt"
    using toy_signer_total by (rule sign_total)
  then have sig: "signJWT (toy_signer ''k1'') ?m = Inr jwt" by (simp add: signJWT_def)
  have "VCT buried_request = ''urn:id''" "Claims buried_request = buried_claims" "SelectiveFields buried_request = [''address'']"
    by (simp_all add: buried_request_def sample_config)
  moreover have "first_missing buried_claims [''address''] = None"
    by (rule first_missing_None) (simp add: buried_claims_def)
  ultimately have "Issue toy_crypto toy_rng ?now sample_issuer buried_request 0 =
    (Inr \<lparr>IssuerJWT = jwt, Disclosures = [encode_or_empty buried_city, encode_or_empty buried_address], KBJWT = []\<rparr>, Suc (Suc 0))"
    using buried_object p [unfolded obj] sig [unfolded obj]
    by (simp add: Issue_def sample_config with_decoys_def SDAlgFromHash_def obj del: buildClaimsObject.simps)
  then show ?thesis using that sig by blast
qed

theorem full_disclosure_rejected_witness:
  "\<exists>tok j. Issue toy_crypto toy_rng (time_unix sample_time) sample_issuer buried_request 0 = (Inr tok, j)
    \<and> (\<exists>err. Verify sample_run sample_verifier (String tok) ''n-1'' = Inl err)"
proof -
  obtain jwt j where tok: "Issue toy_crypto toy_rng (time_unix sample_time) sample_issuer buried_request 0 =
    (Inr \<lparr>IssuerJWT = jwt, Disclosures = [encode_or_empty buried_city, encode_or_empty buried_address], KBJWT = []\<rparr>, j)"
    and sig: "\<exists>m. signJWT (toy_signer ''k1'') m = Inr jwt"
    by (rule buried_issue)
  let ?t = "\<lparr>IssuerJWT = jwt, Disclosures = [encode_or_empty buried_city, encode_or_empty buried_address], KBJWT = []\<rparr>"
  obtain m where m: "signJWT (toy_signer ''k1'') m = Inr (IssuerJWT ?t)" using sig by auto
  have "disclosed_as toy_crypto SHA256 (encode_or_empty d) (b64_enc (encode_or_empty d))" 
    if "d = buried_city \<or> d = buried_address" for d
    using that sample_toy_digest [of "encode_or_empty d"] Encode_segment [OF buried_enc(1)] Encode_segment [OF buried_enc(2)]
      parse_encode [OF buried_ok(1) buried_enc(1)] parse_encode [OF buried_ok(2) buried_enc(2)]
    by (auto simp: disclosed_as_def)
  then have "\<forall>enc \<in> set (Disclosures ?t). \<exists>h dg. disclosed_as toy_crypto h enc dg" by auto
  then have parse: "Parse (String ?t) = Inr ?t"
    using m by (intro presented_parses) simp_all
  have c: "Claims buried_request = buried_claims" "SelectiveFields buried_request = [''address'']"
    by (simp_all add: buried_request_def)
  have "\<exists>err. Verify sample_run sample_verifier (String ?t) ''n-1'' = Inl err"
  proof (rule full_disclosure_rejected [OF tok _ _ _ buried_bare_good _ _ parse])
    show "showable (Claims buried_request) (SelectiveFields buried_request)"
      "keys (Claims buried_request) \<inter> registered_names = {}"
      "buries (Claims buried_request) (SelectiveFields buried_request)"
      by (simp_all add: c buried_claims_def Structured_def ascii_utf8_valid registered_names_def)
    show "distinct (map (Digest toy_crypto (hashAlg (opts sample_issuer))) (Disclosures ?t))"
      using buried_differ by (simp add: sample_config sample_toy_digest b64.enc_inj toy_crypto_def)
    show "fair_run sample_run" "prims sample_run = toy_crypto" by (simp_all add: sample_fair)
  qed (simp_all add: sample_config)
  then show ?thesis using tok by blast
qed

section \<open>The types of an issued token\<close>

theorem issued_wire_types_witness:
  "\<exists>h p. decodeJWT (IssuerJWT sample_token) = Inr (h, p) \<and> map_of h ''alg'' = Some (GString ''ES256'')
    \<and> map_of p ''iss'' = Some (GString ''https://issuer'')
    \<and> (\<exists>f. map_of p ''exp'' = Some (GFloat f) \<and> (\<forall>oor. f64_to_int64 oor f = 1707776000))"
proof -
  obtain h p where "decodeJWT (IssuerJWT sample_token) = Inr (h, p)"
    "map_of h ''alg'' = Some (GString (Algorithm (issuer_signer sample_issuer)))"
    "map_of p ''iss'' = Some (GString (issuer_id sample_issuer))"
    "\<exists>f. map_of p ''exp'' = Some (GFloat f)
       \<and> (\<forall>oor. f64_to_int64 oor f = unix_of (issued_exp sample_issuer sample_request (time_unix sample_time)))"
    using issued_wire_types [OF sample_issue(1) sample_good] by blast
  moreover have "unix_of (issued_exp sample_issuer sample_request (time_unix sample_time)) = 1707776000"
    by (simp only: sample_issued sample_unix)
  ultimately show ?thesis by (simp add: sample_config toy_signer_def)
qed

end
