(* ===== verification/Jwks_Cache.thy ===== *)
theory Jwks_Cache
  imports Jwx_Adapter
begin

text \<open>
  \<open>HTTPKeyResolver\<close> of \<open>adapters/jwx/jwx.go\<close>: the JWKS cache behind its read-write mutex. First one
  call as a function, then any number of concurrent calls as a step relation with the mutex, the
  clock and the network, and what holds in every reachable state.
\<close>

section \<open>The resolver and one call\<close>

text \<open>
  Times are nanoseconds on the monotonic clock that \<open>time.Now\<close> and \<open>time.Since\<close> read. \<open>'c\<close> is the type
  of HTTP clients, \<open>'s\<close> of key sets; \<open>fetch\<close> is what \<open>jwk.Fetch\<close> returns.
\<close>

record 's cacheEntry =
  entry_set :: 's
  fetchedAt :: int

record ('c, 's) http_resolver =
  client :: 'c
  cache :: "(string \<times> 's cacheEntry) list"
  ttl :: int

definition NewHTTPKeyResolver :: "'c \<Rightarrow> 'c option \<Rightarrow> int \<Rightarrow> ('c, 's) http_resolver" where
  "NewHTTPKeyResolver DefaultClient cl t =
     \<lparr>client = (case cl of None \<Rightarrow> DefaultClient | Some c \<Rightarrow> c), cache = [],
      ttl = (if t = 0 then 5 * 60 * 1000000000 else t)\<rparr>"

definition jwks_url :: "string \<Rightarrow> string" where
  "jwks_url iss = iss @ ''/.well-known/jwks.json''"

text \<open>\<open>time.Since\<close>: a \<open>Duration\<close>, so the difference saturates at 64 bits.\<close>

definition since :: "int \<Rightarrow> int \<Rightarrow> int" where
  "since now t = max (- (2 ^ 63)) (min (2 ^ 63 - 1) (now - t))"

definition cache_hit :: "int \<Rightarrow> int \<Rightarrow> 's cacheEntry option \<Rightarrow> 's option" where
  "cache_hit now life e =
     (case e of None \<Rightarrow> None
      | Some e \<Rightarrow> if since now (fetchedAt e) < life then Some (entry_set e) else None)"

definition fetch_error :: "string \<Rightarrow> goerr \<Rightarrow> goerr" where
  "fetch_error url e = Errorf [Txt ''fetching JWKS from '', Txt url, Txt '': '', Wrapped e]"

definition store :: "string \<Rightarrow> 's \<Rightarrow> int \<Rightarrow> ('c, 's) http_resolver \<Rightarrow> ('c, 's) http_resolver" where
  "store url jwks now r = r\<lparr>cache := AList.update url \<lparr>entry_set = jwks, fetchedAt = now\<rparr> (cache r)\<rparr>"

definition fetchSet ::
  "('c \<Rightarrow> string \<Rightarrow> goerr + 's) \<Rightarrow> int \<Rightarrow> int \<Rightarrow> ('c, 's) http_resolver \<Rightarrow> string
     \<Rightarrow> (goerr + 's) \<times> ('c, 's) http_resolver" where
  "fetchSet fetch now now' r iss =
     (let url = jwks_url iss in
      case cache_hit now (ttl r) (map_of (cache r) url) of
        Some jwks \<Rightarrow> (Inr jwks, r)
      | None \<Rightarrow>
        (case fetch (client r) url of
           Inl e \<Rightarrow> (Inl (fetch_error url e), r)
         | Inr jwks \<Rightarrow> (Inr jwks, store url jwks now' r)))"

definition key_from_set ::
  "('k, 's) jwk_package \<Rightarrow> string \<Rightarrow> string \<Rightarrow> 's \<Rightarrow> goerr + pubkey" where
  "key_from_set P iss keyID jwks =
     (if keyID \<noteq> [] then
        (case set_LookupKeyID P jwks keyID of
           None \<Rightarrow> Inl (Errorf [Txt ''key '', Quot keyID, Txt '' not found in JWKS for '', Txt iss])
         | Some key \<Rightarrow> extractPublicKey P key)
      else if set_Len P jwks = 1 then extractPublicKey P (set_Key P jwks 0)
      else Inl (Errorf [Txt ''JWKS for '', Txt iss, Txt '' has '', Txt (show_nat (set_Len P jwks)),
                        Txt '' keys but no kid was specified'']))"

definition Http_ResolveKey ::
  "('k, 's) jwk_package \<Rightarrow> ('c \<Rightarrow> string \<Rightarrow> goerr + 's) \<Rightarrow> int \<Rightarrow> int \<Rightarrow> ('c, 's) http_resolver
     \<Rightarrow> string \<Rightarrow> string \<Rightarrow> (goerr + pubkey) \<times> ('c, 's) http_resolver" where
  "Http_ResolveKey P fetch now now' r iss keyID =
     (case fetchSet fetch now now' r iss of
        (Inl e, r') \<Rightarrow> (Inl e, r')
      | (Inr jwks, r') \<Rightarrow> (key_from_set P iss keyID jwks, r'))"

section \<open>Concurrent calls\<close>

text \<open>
  Where a call of \<open>fetchSet\<close> stands: \<open>Reading\<close> and \<open>Held\<close> are inside \<open>RLock\<close> to \<open>RUnlock\<close>, before and
  after the lookup; \<open>Writing\<close> and \<open>Written\<close> inside \<open>Lock\<close> to \<open>Unlock\<close>, before and after the
  assignment.
\<close>

datatype 's pc =
    Begin
  | Reading
  | Held "'s cacheEntry option"
  | Looked "'s cacheEntry option"
  | Fetching
  | Fetched 's
  | Writing 's
  | Written 's
  | Done "goerr + 's"

text \<open>The \<open>sync.RWMutex\<close> is its number of readers and whether a writer holds it.\<close>

record ('c, 's) system =
  res :: "('c, 's) http_resolver"
  clk :: int
  readers :: nat
  writer :: bool
  calls :: "(string \<times> 's pc) list"

definition at :: "('c, 's) system \<Rightarrow> nat \<Rightarrow> string \<Rightarrow> 's pc \<Rightarrow> bool" where
  "at s i iss p \<longleftrightarrow> i < length (calls s) \<and> calls s ! i = (iss, p)"

definition goto :: "nat \<Rightarrow> string \<Rightarrow> 's pc \<Rightarrow> ('c, 's) system \<Rightarrow> ('c, 's) system" where
  "goto i iss p s = s\<lparr>calls := (calls s)[i := (iss, p)]\<rparr>"

text \<open>
  One atomic action of a call; \<open>net c url t a\<close> says that a request of client \<open>c\<close> for \<open>url\<close> may be
  answered with \<open>a\<close> at time \<open>t\<close>.
\<close>

inductive progress ::
  "('c \<Rightarrow> string \<Rightarrow> int \<Rightarrow> goerr + 's \<Rightarrow> bool) \<Rightarrow> ('c, 's) system \<Rightarrow> ('c, 's) system \<Rightarrow> bool"
  for net where
  rlock: "at s i iss Begin \<Longrightarrow> \<not> writer s \<Longrightarrow>
    progress net s (goto i iss Reading (s\<lparr>readers := readers s + 1\<rparr>))"
| lookup: "at s i iss Reading \<Longrightarrow>
    progress net s (goto i iss (Held (map_of (cache (res s)) (jwks_url iss))) s)"
| runlock: "at s i iss (Held e) \<Longrightarrow>
    progress net s (goto i iss (Looked e) (s\<lparr>readers := readers s - 1\<rparr>))"
| hit: "at s i iss (Looked e) \<Longrightarrow> cache_hit (clk s) (ttl (res s)) e = Some jwks \<Longrightarrow>
    progress net s (goto i iss (Done (Inr jwks)) s)"
| miss: "at s i iss (Looked e) \<Longrightarrow> cache_hit (clk s) (ttl (res s)) e = None \<Longrightarrow>
    progress net s (goto i iss Fetching s)"
| fetched: "at s i iss Fetching \<Longrightarrow> net (client (res s)) (jwks_url iss) (clk s) (Inr jwks) \<Longrightarrow>
    progress net s (goto i iss (Fetched jwks) s)"
| failed: "at s i iss Fetching \<Longrightarrow> net (client (res s)) (jwks_url iss) (clk s) (Inl e) \<Longrightarrow>
    progress net s (goto i iss (Done (Inl (fetch_error (jwks_url iss) e))) s)"
| lock: "at s i iss (Fetched jwks) \<Longrightarrow> \<not> writer s \<Longrightarrow> readers s = 0 \<Longrightarrow>
    progress net s (goto i iss (Writing jwks) (s\<lparr>writer := True\<rparr>))"
| assign: "at s i iss (Writing jwks) \<Longrightarrow>
    progress net s (goto i iss (Written jwks) (s\<lparr>res := store (jwks_url iss) jwks (clk s) (res s)\<rparr>))"
| unlock: "at s i iss (Written jwks) \<Longrightarrow>
    progress net s (goto i iss (Done (Inr jwks)) (s\<lparr>writer := False\<rparr>))"

inductive_cases progressE: "progress net s s'"

text \<open>A step of the system: an action of a call, a new call, or the passing of time.\<close>

inductive step ::
  "('c \<Rightarrow> string \<Rightarrow> int \<Rightarrow> goerr + 's \<Rightarrow> bool) \<Rightarrow> ('c, 's) system \<Rightarrow> ('c, 's) system \<Rightarrow> bool"
  for net where
  act: "progress net s s' \<Longrightarrow> step net s s'"
| invoke: "step net s (s\<lparr>calls := calls s @ [(iss, Begin)]\<rparr>)"
| tick: "clk s \<le> t \<Longrightarrow> step net s (s\<lparr>clk := t\<rparr>)"

definition initial :: "('c, 's) http_resolver \<Rightarrow> int \<Rightarrow> ('c, 's) system" where
  "initial r t = \<lparr>res = r, clk = t, readers = 0, writer = False, calls = []\<rparr>"

inductive reachable ::
  "('c \<Rightarrow> string \<Rightarrow> int \<Rightarrow> goerr + 's \<Rightarrow> bool) \<Rightarrow> ('c, 's) system \<Rightarrow> bool" for net where
  start: "cache r = [] \<Longrightarrow> reachable net (initial r t)"
| more: "reachable net s \<Longrightarrow> step net s s' \<Longrightarrow> reachable net s'"

section \<open>The lock\<close>

fun in_read :: "'s pc \<Rightarrow> bool" where
  "in_read Reading = True"
| "in_read (Held e) = True"
| "in_read _ = False"

fun in_write :: "'s pc \<Rightarrow> bool" where
  "in_write (Writing jwks) = True"
| "in_write (Written jwks) = True"
| "in_write _ = False"

fun is_done :: "'s pc \<Rightarrow> bool" where
  "is_done (Done r) = True"
| "is_done _ = False"

definition number :: "('s pc \<Rightarrow> bool) \<Rightarrow> (string \<times> 's pc) list \<Rightarrow> nat" where
  "number Q cs = length (filter (Q \<circ> snd) cs)"

lemma number_update:
  "i < length cs \<Longrightarrow> cs ! i = (iss, p) \<Longrightarrow>
     number Q (cs[i := (iss', q)]) + (if Q p then 1 else 0) = number Q cs + (if Q q then 1 else 0)"
proof (induction cs arbitrary: i)
  case (Cons c cs)
  then show ?case by (cases i) (auto simp: number_def)
qed simp

lemma number_append [simp]: "number Q (a @ b) = number Q a + number Q b"
  by (simp add: number_def)

lemma number_pos: "at s i iss p \<Longrightarrow> Q p \<Longrightarrow> 0 < number Q (calls s)"
  by (force simp: number_def at_def filter_empty_conv intro: nth_mem)

lemma number_two:
  assumes "at s i iss p" "at s j iss' q" "i \<noteq> j" "Q p" "Q q"
  shows "2 \<le> number Q (calls s)"
proof -
  have "{i, j} \<subseteq> {k. k < length (calls s) \<and> (Q \<circ> snd) (calls s ! k)}"
    using assms by (auto simp: at_def)
  then have "card {i, j} \<le> card {k. k < length (calls s) \<and> (Q \<circ> snd) (calls s ! k)}"
    by (intro card_mono) auto
  then show ?thesis using assms(3) by (simp add: number_def length_filter_conv_card)
qed

text \<open>The counter of the mutex counts the calls between \<open>RLock\<close> and \<open>RUnlock\<close>, and so on.\<close>

definition lock_inv :: "('c, 's) system \<Rightarrow> bool" where
  "lock_inv s \<longleftrightarrow> readers s = number in_read (calls s)
     \<and> number in_write (calls s) = (if writer s then 1 else 0) \<and> (writer s \<longrightarrow> readers s = 0)"

lemma goto_simps [simp]:
  "res (goto i iss p s) = res s" "clk (goto i iss p s) = clk s" "readers (goto i iss p s) = readers s"
  "writer (goto i iss p s) = writer s" "calls (goto i iss p s) = (calls s)[i := (iss, p)]"
  by (simp_all add: goto_def)

lemma at_number:
  assumes "at s i iss p"
  shows "number Q ((calls s)[i := (iss', q)]) + (if Q p then 1 else 0) = number Q (calls s) + (if Q q then 1 else 0)"
  by (rule number_update) (use assms in \<open>simp_all add: at_def\<close>)

lemma lock_inv_goto:
  assumes "at s i iss p" "lock_inv s" "calls s' = (calls s)[i := (iss, q)]"
    and "readers s' + of_bool (in_read p) = readers s + of_bool (in_read q)"
    and "of_bool (writer s') + of_bool (in_write p) = (of_bool (writer s) + of_bool (in_write q) :: nat)"
    and "writer s' \<longrightarrow> readers s' = 0"
  shows "lock_inv s'"
  using assms at_number [OF assms(1), of in_read iss q] at_number [OF assms(1), of in_write iss q]
  by (auto simp: lock_inv_def of_bool_def split: if_splits)

lemma lock_inv_at:
  "lock_inv s \<Longrightarrow> at s i iss p \<Longrightarrow> in_read p \<Longrightarrow> 0 < readers s \<and> \<not> writer s"
  "lock_inv s \<Longrightarrow> at s i iss p \<Longrightarrow> in_write p \<Longrightarrow> readers s = 0 \<and> writer s"
  using number_pos [of s i iss p in_read] number_pos [of s i iss p in_write]
  by (auto simp: lock_inv_def split: if_splits)

lemma lock_inv_progress:
  assumes "progress net s s'" "lock_inv s"
  shows "lock_inv s'"
proof -
  have w: "writer s \<longrightarrow> readers s = 0" using assms(2) unfolding lock_inv_def by blast
  from assms(1) show ?thesis
  proof cases
    case (rlock i iss)
    then show ?thesis using w
      by (intro lock_inv_goto [OF rlock(2) assms(2), where q = "Reading"]) simp_all
  next
    case (lookup i iss)
    then show ?thesis using w
      by (intro lock_inv_goto [OF lookup(2) assms(2), where q = "Held (map_of (cache (res s)) (jwks_url iss))"]) simp_all
  next
    case (runlock i iss e)
    then show ?thesis using w lock_inv_at(1) [OF assms(2) runlock(2)]
      by (intro lock_inv_goto [OF runlock(2) assms(2), where q = "Looked e"]) simp_all
  next
    case (hit i iss e jwks)
    then show ?thesis using w
      by (intro lock_inv_goto [OF hit(2) assms(2), where q = "Done (Inr jwks)"]) simp_all
  next
    case (miss i iss e)
    then show ?thesis using w
      by (intro lock_inv_goto [OF miss(2) assms(2), where q = "Fetching"]) simp_all
  next
    case (fetched i iss jwks)
    then show ?thesis using w
      by (intro lock_inv_goto [OF fetched(2) assms(2), where q = "Fetched jwks"]) simp_all
  next
    case (failed i iss e)
    then show ?thesis using w
      by (intro lock_inv_goto [OF failed(2) assms(2), where q = "Done (Inl (fetch_error (jwks_url iss) e))"]) simp_all
  next
    case (lock i iss jwks)
    then show ?thesis using w
      by (intro lock_inv_goto [OF lock(2) assms(2), where q = "Writing jwks"]) simp_all
  next
    case (assign i iss jwks)
    then show ?thesis using w
      by (intro lock_inv_goto [OF assign(2) assms(2), where q = "Written jwks"]) simp_all
  next
    case (unlock i iss jwks)
    then show ?thesis using w lock_inv_at(2) [OF assms(2) unlock(2)]
      by (intro lock_inv_goto [OF unlock(2) assms(2), where q = "Done (Inr jwks)"]) simp_all
  qed
qed

lemma lock_inv_step:
  assumes "step net s s'" "lock_inv s"
  shows "lock_inv s'"
  using assms(1)
proof cases
  case act
  then show ?thesis using assms(2) by (rule lock_inv_progress)
qed (use assms(2) in \<open>auto simp: lock_inv_def number_def\<close>)

lemma lock_inv_reachable: "reachable net s \<Longrightarrow> lock_inv s"
proof (induction rule: reachable.induct)
  case (start r t)
  then show ?case by (simp add: lock_inv_def initial_def number_def)
qed (rule lock_inv_step)

text \<open>
  C22: the cache is free of data races: in every reachable state of any number of concurrent calls, while
  one call is between \<open>Lock\<close> and \<open>Unlock\<close> no other call reads or writes the map.
\<close>
theorem cache_race_free:
  assumes "reachable net s" and "at s i iss p" and "at s j iss' q" and "i \<noteq> j" and "in_write p"
  shows "\<not> in_read q \<and> \<not> in_write q"
proof -
  note inv = lock_inv_reachable [OF assms(1)]
  have w: "readers s = 0" "writer s" using lock_inv_at(2) [OF inv assms(2,5)] by simp_all
  have "\<not> in_read q" using lock_inv_at(1) [OF inv assms(3)] w by auto
  moreover have "\<not> in_write q"
    using number_two [OF assms(2,3,4), of in_write] assms(5) inv w by (auto simp: lock_inv_def)
  ultimately show ?thesis by simp
qed

section \<open>Where the cached sets come from\<close>

definition served ::
  "('c \<Rightarrow> string \<Rightarrow> int \<Rightarrow> goerr + 's \<Rightarrow> bool) \<Rightarrow> 'c \<Rightarrow> int \<Rightarrow> string \<Rightarrow> 's \<Rightarrow> bool" where
  "served net c t url jwks \<longleftrightarrow> (\<exists>t' \<le> t. net c url t' (Inr jwks))"

definition entry_ok ::
  "('c \<Rightarrow> string \<Rightarrow> int \<Rightarrow> goerr + 's \<Rightarrow> bool) \<Rightarrow> 'c \<Rightarrow> int \<Rightarrow> string \<Rightarrow> 's cacheEntry \<Rightarrow> bool" where
  "entry_ok net c t url e \<longleftrightarrow> fetchedAt e \<le> t \<and> served net c (fetchedAt e) url (entry_set e)"

fun call_ok ::
  "('c \<Rightarrow> string \<Rightarrow> int \<Rightarrow> goerr + 's \<Rightarrow> bool) \<Rightarrow> 'c \<Rightarrow> int \<Rightarrow> string \<Rightarrow> 's pc \<Rightarrow> bool" where
  "call_ok net c t url (Held (Some e)) = entry_ok net c t url e"
| "call_ok net c t url (Looked (Some e)) = entry_ok net c t url e"
| "call_ok net c t url (Fetched jwks) = served net c t url jwks"
| "call_ok net c t url (Writing jwks) = served net c t url jwks"
| "call_ok net c t url (Written jwks) = served net c t url jwks"
| "call_ok net c t url (Done (Inr jwks)) = served net c t url jwks"
| "call_ok net c t url _ = True"

definition origin_inv ::
  "('c \<Rightarrow> string \<Rightarrow> int \<Rightarrow> goerr + 's \<Rightarrow> bool) \<Rightarrow> ('c, 's) system \<Rightarrow> bool" where
  "origin_inv net s \<longleftrightarrow>
     (\<forall>url e. map_of (cache (res s)) url = Some e \<longrightarrow> entry_ok net (client (res s)) (clk s) url e)
     \<and> (\<forall>(iss, p) \<in> set (calls s). call_ok net (client (res s)) (clk s) (jwks_url iss) p)"

lemma served_mono: "served net c t url jwks \<Longrightarrow> t \<le> t' \<Longrightarrow> served net c t' url jwks"
  unfolding served_def by (meson order_trans)

lemma entry_ok_mono: "entry_ok net c t url e \<Longrightarrow> t \<le> t' \<Longrightarrow> entry_ok net c t' url e"
  by (auto simp: entry_ok_def)

lemma call_ok_mono: "call_ok net c t url p \<Longrightarrow> t \<le> t' \<Longrightarrow> call_ok net c t' url p"
  by (cases "(net, c, t, url, p)" rule: call_ok.cases) (auto intro: served_mono entry_ok_mono)

lemma call_ok_Held: "call_ok net c t url (Held x) \<longleftrightarrow> (\<forall>e. x = Some e \<longrightarrow> entry_ok net c t url e)"
  by (cases x) simp_all

lemma call_ok_Looked: "call_ok net c t url (Looked x) \<longleftrightarrow> (\<forall>e. x = Some e \<longrightarrow> entry_ok net c t url e)"
  by (cases x) simp_all

lemma at_mem: "at s i iss p \<Longrightarrow> (iss, p) \<in> set (calls s)"
  by (auto simp: at_def intro: nth_mem [of i "calls s", THEN back_subst [of "\<lambda>x. x \<in> set (calls s)"]])

lemma origin_at: "origin_inv net s \<Longrightarrow> at s i iss p \<Longrightarrow> call_ok net (client (res s)) (clk s) (jwks_url iss) p"
  by (auto simp: origin_inv_def dest!: at_mem)

lemma origin_goto:
  assumes "origin_inv net s" "calls s' = (calls s)[i := (iss, q)]" "clk s' = clk s" "res s' = res s"
    and "call_ok net (client (res s)) (clk s) (jwks_url iss) q"
  shows "origin_inv net s'"
  using assms set_update_subset_insert [of "calls s" i "(iss, q)"] by (auto simp: origin_inv_def)

lemma cache_hit_Some:
  assumes "cache_hit now life e = Some jwks"
  obtains e' where "e = Some e'" "jwks = entry_set e'" "since now (fetchedAt e') < life"
  using assms by (cases e) (auto simp: cache_hit_def split: if_splits)

lemma since_less: "since now t < life \<Longrightarrow> life \<le> 2 ^ 63 - 1 \<Longrightarrow> now - t < life"
proof -
  assume "since now t < life" "life \<le> 2 ^ 63 - 1"
  then have "min (2 ^ 63 - 1) (now - t) < life" unfolding since_def by simp
  then show "now - t < life" using \<open>life \<le> 2 ^ 63 - 1\<close> unfolding min_less_iff_disj by linarith
qed

lemma origin_progress:
  assumes "progress net s s'" "origin_inv net s"
  shows "origin_inv net s'"
  using assms(1)
proof cases
  case (rlock i iss)
  then show ?thesis by (intro origin_goto [OF assms(2), where q = Reading]) simp_all
next
  case (lookup i iss)
  have "call_ok net (client (res s)) (clk s) (jwks_url iss) (Held (map_of (cache (res s)) (jwks_url iss)))"
    using assms(2) unfolding origin_inv_def call_ok_Held by blast
  then show ?thesis
    using lookup by (intro origin_goto [OF assms(2), where q = "Held (map_of (cache (res s)) (jwks_url iss))"]) simp_all
next
  case (runlock i iss e)
  then show ?thesis
    using origin_at [OF assms(2) runlock(2)] by (intro origin_goto [OF assms(2), where q = "Looked e"]) (simp_all add: call_ok_Held call_ok_Looked)
next
  case (hit i iss e jwks)
  obtain e' where e': "e = Some e'" "jwks = entry_set e'" by (rule cache_hit_Some [OF hit(3)])
  have "entry_ok net (client (res s)) (clk s) (jwks_url iss) e'"
    using origin_at [OF assms(2) hit(2)] unfolding e'(1) by simp
  then have "served net (client (res s)) (clk s) (jwks_url iss) jwks"
    unfolding e'(2) entry_ok_def by (elim conjE) (rule served_mono)
  then show ?thesis
    using hit by (intro origin_goto [OF assms(2), where q = "Done (Inr jwks)"]) simp_all
next
  case (miss i iss e)
  then show ?thesis by (intro origin_goto [OF assms(2), where q = Fetching]) simp_all
next
  case (fetched i iss jwks)
  then show ?thesis by (intro origin_goto [OF assms(2), where q = "Fetched jwks"]) (auto simp: served_def)
next
  case (failed i iss e)
  then show ?thesis
    by (intro origin_goto [OF assms(2), where q = "Done (Inl (fetch_error (jwks_url iss) e))"]) simp_all
next
  case (lock i iss jwks)
  then show ?thesis
    using origin_at [OF assms(2) lock(2)] by (intro origin_goto [OF assms(2), where q = "Writing jwks"]) simp_all
next
  case (assign i iss jwks)
  then have ok: "served net (client (res s)) (clk s) (jwks_url iss) jwks" using origin_at [OF assms(2) assign(2)] by simp
  have "origin_inv net (goto i iss (Written jwks) s)"
    using ok by (intro origin_goto [OF assms(2), where q = "Written jwks"]) simp_all
  then show ?thesis using ok unfolding assign(1) by (auto simp: origin_inv_def store_def entry_ok_def)
next
  case (unlock i iss jwks)
  then show ?thesis
    using origin_at [OF assms(2) unlock(2)] by (intro origin_goto [OF assms(2), where q = "Done (Inr jwks)"]) simp_all
qed

lemma origin_reachable: "reachable net s \<Longrightarrow> origin_inv net s"
proof (induction rule: reachable.induct)
  case (start r t)
  then show ?case by (simp add: origin_inv_def initial_def)
next
  case (more s s')
  from more.hyps(2) show ?case
  proof cases
    case act
    then show ?thesis using more.IH by (rule origin_progress)
  next
    case (invoke iss)
    then show ?thesis using more.IH by (auto simp: origin_inv_def)
  next
    case (tick t)
    then show ?thesis using more.IH by (auto simp: origin_inv_def intro: entry_ok_mono call_ok_mono)
  qed
qed

text \<open>
  C10: the cache never mixes up issuers: whatever the interleaving of concurrent calls, the key set a
  call ends with is one that the network returned, up to then, for the JWKS address of that call's
  issuer.
\<close>
theorem resolved_set_was_served:
  assumes "reachable net s" and "at s i iss (Done (Inr jwks))"
  shows "\<exists>t \<le> clk s. net (client (res s)) (iss @ ''/.well-known/jwks.json'') t (Inr jwks)"
  using origin_at [OF origin_reachable [OF assms(1)] assms(2)] by (simp add: served_def jwks_url_def)

text \<open>How far a call is from its end, and what one action does to one call.\<close>

fun rank :: "'s pc \<Rightarrow> nat" where
  "rank Begin = 8"
| "rank Reading = 7"
| "rank (Held e) = 6"
| "rank (Looked e) = 5"
| "rank Fetching = 4"
| "rank (Fetched jwks) = 3"
| "rank (Writing jwks) = 2"
| "rank (Written jwks) = 1"
| "rank (Done r) = 0"

lemma progress_moves:
  assumes "progress net s s'"
  obtains i iss p q where "at s i iss p" "calls s' = (calls s)[i := (iss, q)]" "rank q < rank p"
    "\<forall>x jwks. p = Looked x \<longrightarrow> q = Done (Inr jwks) \<longrightarrow> cache_hit (clk s) (ttl (res s)) x = Some jwks"
  using assms
proof cases
  case (rlock i iss)
  then show ?thesis using that [of i iss "Begin" "Reading"] by simp
next
  case (lookup i iss)
  then show ?thesis using that [of i iss "Reading" "Held (map_of (cache (res s)) (jwks_url iss))"] by simp
next
  case (runlock i iss e)
  then show ?thesis using that [of i iss "Held e" "Looked e"] by simp
next
  case (hit i iss e jwks)
  then show ?thesis using that [of i iss "Looked e" "Done (Inr jwks)"] by simp
next
  case (miss i iss e)
  then show ?thesis using that [of i iss "Looked e" "Fetching"] by simp
next
  case (fetched i iss jwks)
  then show ?thesis using that [of i iss "Fetching" "Fetched jwks"] by simp
next
  case (failed i iss e)
  then show ?thesis using that [of i iss "Fetching" "Done (Inl (fetch_error (jwks_url iss) e))"] by simp
next
  case (lock i iss jwks)
  then show ?thesis using that [of i iss "Fetched jwks" "Writing jwks"] by simp
next
  case (assign i iss jwks)
  then show ?thesis using that [of i iss "Writing jwks" "Written jwks"] by simp
next
  case (unlock i iss jwks)
  then show ?thesis using that [of i iss "Written jwks" "Done (Inr jwks)"] by simp
qed

lemma moved:
  assumes "at s j iss' p" "at s i iss p0" "at s' i iss q0"
    and "calls s' = (calls s)[j := (iss', q)]" "p0 \<noteq> q0"
  shows "p0 = p \<and> q0 = q"
  using assms by (cases "i = j") (simp_all add: at_def)

section \<open>How old an answer from the cache is\<close>

text \<open>
  \<open>stored_at net s iss jwks t\<close>: a run that leads to \<open>s\<close> has a store: at time \<open>t\<close>, in a reachable state, a
  call for the issuer was inside \<open>Lock\<close> and assigned the set \<open>jwks\<close> to the cache, and \<open>s\<close> follows from there.
\<close>

definition stored_at ::
  "('c \<Rightarrow> string \<Rightarrow> int \<Rightarrow> goerr + 's \<Rightarrow> bool) \<Rightarrow> ('c, 's) system \<Rightarrow> string \<Rightarrow> 's \<Rightarrow> int \<Rightarrow> bool" where
  "stored_at net s iss jwks t \<longleftrightarrow>
     (\<exists>s0 s1 j. reachable net s0 \<and> clk s0 = t \<and> at s0 j iss (Writing jwks)
        \<and> progress net s0 s1 \<and> at s1 j iss (Written jwks) \<and> (step net)\<^sup>*\<^sup>* s1 s)"

lemma stored_at_step: "stored_at net s iss jwks t \<Longrightarrow> step net s s' \<Longrightarrow> stored_at net s' iss jwks t"
  unfolding stored_at_def by (elim exE conjE, intro exI conjI, assumption+, erule (1) rtranclp.rtrancl_into_rtrancl)

lemma stored_atI:
  assumes "reachable net s" "at s j iss (Writing jwks)" "progress net s s'" "at s' j iss (Written jwks)"
  shows "stored_at net s' iss jwks (clk s)"
  unfolding stored_at_def
  by (intro exI conjI; (rule assms refl rtranclp.rtrancl_refl)?)

lemma jwks_url_inj [simp]: "jwks_url a = jwks_url b \<longleftrightarrow> a = b"
  by (simp add: jwks_url_def)

fun holds :: "'s pc \<Rightarrow> 's cacheEntry option" where
  "holds (Held e) = e"
| "holds (Looked e) = e"
| "holds _ = None"

definition history_inv ::
  "('c \<Rightarrow> string \<Rightarrow> int \<Rightarrow> goerr + 's \<Rightarrow> bool) \<Rightarrow> ('c, 's) system \<Rightarrow> bool" where
  "history_inv net s \<longleftrightarrow>
     (\<forall>iss e. map_of (cache (res s)) (jwks_url iss) = Some e \<longrightarrow> stored_at net s iss (entry_set e) (fetchedAt e))
     \<and> (\<forall>(iss, p) \<in> set (calls s). \<forall>e. holds p = Some e \<longrightarrow> stored_at net s iss (entry_set e) (fetchedAt e))"

lemma history_at: "history_inv net s \<Longrightarrow> at s i iss p \<Longrightarrow> holds p = Some e \<Longrightarrow> stored_at net s iss (entry_set e) (fetchedAt e)"
  by (auto simp: history_inv_def dest!: at_mem)

lemma history_same:
  assumes "history_inv net s" "step net s s'" "cache (res s') = cache (res s)"
    and "\<And>iss p e. (iss, p) \<in> set (calls s') \<Longrightarrow> holds p = Some e \<Longrightarrow>
      (iss, p) \<in> set (calls s) \<or> stored_at net s iss (entry_set e) (fetchedAt e)"
  shows "history_inv net s'"
  unfolding history_inv_def
proof (intro conjI allI impI ballI)
  fix iss e assume "map_of (cache (res s')) (jwks_url iss) = Some e"
  then have "stored_at net s iss (entry_set e) (fetchedAt e)" using assms(1,3) unfolding history_inv_def by simp
  then show "stored_at net s' iss (entry_set e) (fetchedAt e)" by (rule stored_at_step [OF _ assms(2)])
next
  fix c assume c: "c \<in> set (calls s')"
  obtain iss p where cp: "c = (iss, p)" by (cases c)
  have "stored_at net s' iss (entry_set e) (fetchedAt e)" if e: "holds p = Some e" for e
  proof -
    have "stored_at net s iss (entry_set e) (fetchedAt e)"
      using assms(4) [OF c [unfolded cp] e] assms(1) e unfolding history_inv_def by auto
    then show ?thesis by (rule stored_at_step [OF _ assms(2)])
  qed
  then show "case c of (iss, p) \<Rightarrow> \<forall>e. holds p = Some e \<longrightarrow> stored_at net s' iss (entry_set e) (fetchedAt e)"
    by (simp add: cp)
qed

lemma history_goto:
  assumes "history_inv net s" "step net s s'" "calls s' = (calls s)[i := (iss, q)]" "cache (res s') = cache (res s)"
    and "\<And>e. holds q = Some e \<Longrightarrow> stored_at net s iss (entry_set e) (fetchedAt e)"
  shows "history_inv net s'"
proof (rule history_same [OF assms(1,2,4)])
  fix iss' p e assume c: "(iss', p) \<in> set (calls s')" "holds p = Some e"
  then have "(iss', p) \<in> set (calls s) \<or> (iss', p) = (iss, q)"
    using set_update_subset_insert [of "calls s" i "(iss, q)"] unfolding assms(3) by blast
  then show "(iss', p) \<in> set (calls s) \<or> stored_at net s iss' (entry_set e) (fetchedAt e)"
    using assms(5) c(2) by auto
qed

lemma history_progress:
  assumes "progress net s s'" "reachable net s" "history_inv net s"
  shows "history_inv net s'"
proof -
  have st: "step net s s'" using assms(1) by (rule act)
  note goto_inv = history_goto [OF assms(3) st]
  from assms(1) show ?thesis
  proof cases
    case (lookup i iss)
    have "stored_at net s iss (entry_set e) (fetchedAt e)"
      if "holds (Held (map_of (cache (res s)) (jwks_url iss))) = Some e" for e
      using assms(3) that by (simp add: history_inv_def)
    then show ?thesis using lookup by (intro goto_inv [where q = "Held (map_of (cache (res s)) (jwks_url iss))"]) simp_all
  next
    case (runlock i iss e)
    have "stored_at net s iss (entry_set e') (fetchedAt e')" if "holds (Looked e) = Some e'" for e'
      using history_at [OF assms(3) runlock(2)] that by simp
    then show ?thesis using runlock by (intro goto_inv [where q = "Looked e"]) simp_all
  next
    case (assign i iss jwks)
    have "at s' i iss (Written jwks)" using assign by (auto simp: at_def)
    then have new: "stored_at net s' iss jwks (clk s)"
      by (rule stored_atI [OF assms(2) assign(2) assms(1)])
    have old: "stored_at net s' iss' (entry_set e) (fetchedAt e)"
      if "map_of (cache (res s')) (jwks_url iss') = Some e" for iss' e
    proof (cases "iss' = iss")
      case True
      then have "e = \<lparr>entry_set = jwks, fetchedAt = clk s\<rparr>" using that assign(1) by (simp add: store_def)
      then show ?thesis using new True by simp
    next
      case False
      then have "map_of (cache (res s)) (jwks_url iss') = Some e" using that assign(1) by (simp add: store_def)
      then have "stored_at net s iss' (entry_set e) (fetchedAt e)" using assms(3) unfolding history_inv_def by blast
      then show ?thesis by (rule stored_at_step [OF _ st])
    qed
    have "stored_at net s' iss' (entry_set e) (fetchedAt e)" if "(iss', p) \<in> set (calls s')" "holds p = Some e" for iss' p e
    proof -
      have "calls s' = (calls s)[i := (iss, Written jwks)]" using assign(1) by simp
      then have "(iss', p) \<in> set (calls s) \<or> p = Written jwks"
        using that(1) set_update_subset_insert [of "calls s" i "(iss, Written jwks)"] by auto
      then have "(iss', p) \<in> set (calls s)" using that(2) by auto
      then have "stored_at net s iss' (entry_set e) (fetchedAt e)" using assms(3) that(2) unfolding history_inv_def by blast
      then show ?thesis by (rule stored_at_step [OF _ st])
    qed
    then show ?thesis using old unfolding history_inv_def by blast
  next
    case (rlock i iss)
    then show ?thesis by (intro goto_inv [where q = "Reading"]) simp_all
  next
    case (hit i iss e jwks)
    then show ?thesis by (intro goto_inv [where q = "Done (Inr jwks)"]) simp_all
  next
    case (miss i iss e)
    then show ?thesis by (intro goto_inv [where q = "Fetching"]) simp_all
  next
    case (fetched i iss jwks)
    then show ?thesis by (intro goto_inv [where q = "Fetched jwks"]) simp_all
  next
    case (failed i iss e)
    then show ?thesis by (intro goto_inv [where q = "Done (Inl (fetch_error (jwks_url iss) e))"]) simp_all
  next
    case (lock i iss jwks)
    then show ?thesis by (intro goto_inv [where q = "Writing jwks"]) simp_all
  next
    case (unlock i iss jwks)
    then show ?thesis by (intro goto_inv [where q = "Done (Inr jwks)"]) simp_all
  qed
qed

lemma history_reachable: "reachable net s \<Longrightarrow> history_inv net s"
proof (induction rule: reachable.induct)
  case (start r t)
  then show ?case by (simp add: history_inv_def initial_def)
next
  case (more s s')
  from more.hyps(2) show ?case
  proof cases
    case act
    then show ?thesis using more.hyps(1) more.IH by (rule history_progress)
  next
    case (invoke iss)
    then show ?thesis by (intro history_same [OF more.IH more.hyps(2)]) auto
  next
    case (tick t)
    then show ?thesis by (intro history_same [OF more.IH more.hyps(2)]) auto
  qed
qed

text \<open>
  C24: how old an answer from the cache is: when a call returns without a request of its own, then the
  entry it has looked up holds the set it returns and a time less than the time to live ago, and that is
  the time at which a call for the same issuer stored this very set, whatever the interleaving.
\<close>
theorem cached_set_is_fresh:
  assumes "reachable net s" and "progress net s s'" and "at s i iss (Looked x)"
    and "at s' i iss (Done (Inr jwks))" and "int64_range (ttl (res s))"
  shows "\<exists>t. x = Some \<lparr>entry_set = jwks, fetchedAt = t\<rparr> \<and> clk s - t < ttl (res s) \<and> stored_at net s iss jwks t"
proof -
  have "cache_hit (clk s) (ttl (res s)) x = Some jwks"
  proof -
    obtain j iss' p q where m: "at s j iss' p" "calls s' = (calls s)[j := (iss', q)]"
      and h: "\<forall>x jwks. p = Looked x \<longrightarrow> q = Done (Inr jwks) \<longrightarrow> cache_hit (clk s) (ttl (res s)) x = Some jwks"
      by (rule progress_moves [OF assms(2)]) blast
    show ?thesis using moved [OF m(1) assms(3,4) m(2)] h by simp
  qed
  then obtain e where e: "x = Some e" "jwks = entry_set e" "since (clk s) (fetchedAt e) < ttl (res s)"
    by (rule cache_hit_Some)
  have "clk s - fetchedAt e < ttl (res s)"
    using since_less [OF e(3)] assms(5) by (simp add: int64_range_def)
  moreover have "stored_at net s iss jwks (fetchedAt e)"
    using history_at [OF history_reachable [OF assms(1)] assms(3)] e(1,2) by simp
  moreover have "e = \<lparr>entry_set = jwks, fetchedAt = fetchedAt e\<rparr>" using e(2) by simp
  ultimately show ?thesis using e(1) by metis
qed

section \<open>Every call returns\<close>

definition all_done :: "('c, 's) system \<Rightarrow> bool" where
  "all_done s \<longleftrightarrow> list_all (is_done \<circ> snd) (calls s)"

definition work :: "('c, 's) system \<Rightarrow> nat" where
  "work s = sum_list (map (rank \<circ> snd) (calls s))"

text \<open>A request is answered, with a key set or with an error.\<close>

definition answers :: "('c \<Rightarrow> string \<Rightarrow> int \<Rightarrow> goerr + 's \<Rightarrow> bool) \<Rightarrow> bool" where
  "answers net \<longleftrightarrow> (\<forall>c url t. \<exists>a. net c url t a)"

lemma number_at: "0 < number Q (calls s) \<Longrightarrow> \<exists>i iss p. at s i iss p \<and> Q p"
proof -
  assume "0 < number Q (calls s)"
  then obtain x where "x \<in> set (calls s)" "Q (snd x)" by (auto simp: number_def filter_empty_conv)
  then show ?thesis by (metis at_def in_set_conv_nth prod.collapse)
qed

lemma work_less:
  assumes "progress net s s'"
  shows "work s' < work s"
proof -
  obtain i iss p q where at: "at s i iss p" and c: "calls s' = (calls s)[i := (iss, q)]" and less: "rank q < rank p"
    by (rule progress_moves [OF assms])
  let ?r = "map (rank \<circ> snd) (calls s)"
  have i: "i < length ?r" "?r ! i = rank p" using at by (simp_all add: at_def)
  then have "rank p \<le> sum_list ?r" by (metis elem_le_sum_list)
  moreover have "work s' = sum_list ?r + rank q - rank p"
    using i by (simp add: work_def c map_update sum_list_update)
  ultimately show ?thesis using less by (simp add: work_def)
qed

lemma moves: "progress net s s' \<Longrightarrow> \<exists>s'. progress net s s'"
  by (rule exI)

lemma owner_moves:
  assumes "at s i iss p" "in_read p \<or> in_write p"
  shows "\<exists>s'. progress net s s'"
proof (cases p)
  case Reading
  then have "at s i iss Reading" using assms(1) by simp
  then show ?thesis by (rule moves [OF lookup])
next
  case (Held e)
  then have "at s i iss (Held e)" using assms(1) by simp
  then show ?thesis by (rule moves [OF runlock])
next
  case (Writing jwks)
  then have "at s i iss (Writing jwks)" using assms(1) by simp
  then show ?thesis by (rule moves [OF assign])
next
  case (Written jwks)
  then have "at s i iss (Written jwks)" using assms(1) by simp
  then show ?thesis by (rule moves [OF unlock])
qed (use assms(2) in simp_all)

lemma progress_enabled:
  assumes "lock_inv s" "\<not> all_done s" "answers net"
  shows "\<exists>s'. progress net s s'"
proof -
  obtain i iss p where at: "at s i iss p" "\<not> is_done p"
    using number_at [of "\<lambda>p. \<not> is_done p" s] assms(2)
    by (auto simp: all_done_def number_def list_all_iff filter_empty_conv)
  have busy: "\<exists>s'. progress net s s'" if "writer s \<or> readers s \<noteq> 0"
  proof -
    have "0 < number in_write (calls s) \<or> 0 < number in_read (calls s)"
      using that assms(1) by (auto simp: lock_inv_def)
    then obtain i iss p where "at s i iss p" "in_read p \<or> in_write p"
      using number_at [of in_write s] number_at [of in_read s] by auto
    then show ?thesis by (rule owner_moves)
  qed
  show ?thesis
  proof (cases "in_read p \<or> in_write p")
    case True
    then show ?thesis by (rule owner_moves [OF at(1)])
  next
    case False
    then show ?thesis
    proof (cases p)
      case Begin
      then have "at s i iss Begin" using at(1) by simp
      then show ?thesis using busy moves [OF rlock] by (cases "writer s") simp_all
    next
      case (Looked e)
      then have l: "at s i iss (Looked e)" using at(1) by simp
      show ?thesis
      proof (cases "cache_hit (clk s) (ttl (res s)) e")
        case None
        show ?thesis by (rule moves [OF miss [OF l None]])
      next
        case (Some jwks)
        show ?thesis by (rule moves [OF hit [OF l Some]])
      qed
    next
      case Fetching
      then have f: "at s i iss Fetching" using at(1) by simp
      have "\<exists>a. net (client (res s)) (jwks_url iss) (clk s) a" using assms(3) by (simp add: answers_def)
      then obtain a where a: "net (client (res s)) (jwks_url iss) (clk s) a" ..
      show ?thesis
      proof (cases a)
        case (Inl e)
        then show ?thesis using moves [OF failed [OF f]] a by simp
      next
        case (Inr jwks)
        then show ?thesis using moves [OF fetched [OF f]] a by simp
      qed
    next
      case (Fetched jwks)
      then have f: "at s i iss (Fetched jwks)" using at(1) by simp
      show ?thesis
      proof (cases "writer s \<or> readers s \<noteq> 0")
        case False
        then show ?thesis using moves [OF lock [OF f]] by simp
      qed (rule busy)
    qed (use at(2) in simp_all)
  qed
qed

lemma reachable_progress: "(progress net)\<^sup>*\<^sup>* s s' \<Longrightarrow> reachable net s \<Longrightarrow> reachable net s'"
  by (induction rule: rtranclp_induct) (auto intro: more act)

text \<open>
  C23: no deadlock and no starvation: from every reachable state, however the running calls are
  scheduled, they all return after at most eight actions each (if the network answers): as long as
  one has not returned some action is possible, and every action uses one up.
\<close>
theorem calls_return:
  assumes "reachable net s" and "answers net"
  shows "(\<exists>s'. (progress net)\<^sup>*\<^sup>* s s' \<and> all_done s')
    \<and> (\<forall>s'. (progress net)\<^sup>*\<^sup>* s s' \<longrightarrow> all_done s' \<or> (\<exists>s''. progress net s' s''))
    \<and> (\<forall>s' s''. progress net s' s'' \<longrightarrow> work s'' < work s') \<and> work s \<le> 8 * length (calls s)"
proof -
  have live: "all_done s' \<or> (\<exists>s''. progress net s' s'')" if "(progress net)\<^sup>*\<^sup>* s s'" for s'
    using progress_enabled lock_inv_reachable reachable_progress [OF that assms(1)] assms(2) by blast
  have "\<exists>s'. (progress net)\<^sup>*\<^sup>* s0 s' \<and> all_done s'" if "(progress net)\<^sup>*\<^sup>* s s0" for s0
    using that
  proof (induction "work s0" arbitrary: s0 rule: less_induct)
    case less
    show ?case
    proof (cases "all_done s0")
      case False
      then obtain s1 where s1: "progress net s0 s1" using live [OF less.prems] by blast
      then have "(progress net)\<^sup>*\<^sup>* s s1" using less.prems by (rule rtranclp.rtrancl_into_rtrancl [rotated])
      then obtain s' where "(progress net)\<^sup>*\<^sup>* s1 s'" "all_done s'"
        using less.hyps [OF work_less [OF s1]] by blast
      then show ?thesis using s1 by (meson converse_rtranclp_into_rtranclp)
    qed blast
  qed
  moreover have "work s \<le> 8 * length (calls s)"
  proof -
    have "rank p \<le> 8" for p :: "'b pc" by (cases p) simp_all
    then have "sum_list (map (rank \<circ> snd) cs) \<le> 8 * length cs" for cs :: "(string \<times> 'b pc) list"
      by (induction cs) (simp_all add: add_mono)
    then show ?thesis by (simp add: work_def)
  qed
  ultimately show ?thesis using live work_less by blast
qed

section \<open>One call alone\<close>

text \<open>What a single call has established, by the place where it stands.\<close>

fun alone_ok ::
  "('c \<Rightarrow> string \<Rightarrow> int \<Rightarrow> goerr + 's \<Rightarrow> bool) \<Rightarrow> int \<Rightarrow> ('c, 's) http_resolver \<Rightarrow> string
     \<Rightarrow> ('c, 's) http_resolver \<Rightarrow> 's pc \<Rightarrow> bool" where
  "alone_ok net t r iss r' (Held e) = (r' = r \<and> e = map_of (cache r) (jwks_url iss))"
| "alone_ok net t r iss r' (Looked e) = (r' = r \<and> e = map_of (cache r) (jwks_url iss))"
| "alone_ok net t r iss r' Fetching = (r' = r \<and> cache_hit t (ttl r) (map_of (cache r) (jwks_url iss)) = None)"
| "alone_ok net t r iss r' (Fetched jwks) = (r' = r \<and> cache_hit t (ttl r) (map_of (cache r) (jwks_url iss)) = None
     \<and> net (client r) (jwks_url iss) t (Inr jwks))"
| "alone_ok net t r iss r' (Writing jwks) = (r' = r \<and> cache_hit t (ttl r) (map_of (cache r) (jwks_url iss)) = None
     \<and> net (client r) (jwks_url iss) t (Inr jwks))"
| "alone_ok net t r iss r' (Written jwks) = (r' = store (jwks_url iss) jwks t r
     \<and> cache_hit t (ttl r) (map_of (cache r) (jwks_url iss)) = None \<and> net (client r) (jwks_url iss) t (Inr jwks))"
| "alone_ok net t r iss r' (Done out) = (\<exists>a. (out, r') = fetchSet (\<lambda>_ _. a) t t r iss
     \<and> (cache_hit t (ttl r) (map_of (cache r) (jwks_url iss)) = None \<longrightarrow> net (client r) (jwks_url iss) t a))"
| "alone_ok net t r iss r' _ = (r' = r)"

definition alone ::
  "('c \<Rightarrow> string \<Rightarrow> int \<Rightarrow> goerr + 's \<Rightarrow> bool) \<Rightarrow> int \<Rightarrow> ('c, 's) http_resolver \<Rightarrow> string
     \<Rightarrow> ('c, 's) system \<Rightarrow> bool" where
  "alone net t r iss s \<longleftrightarrow> clk s = t \<and> (\<exists>p. calls s = [(iss, p)] \<and> alone_ok net t r iss (res s) p)"

lemma alone_goto:
  assumes "alone net t r iss s" "at s i iss' p" "calls s' = (calls s)[i := (iss', q)]" "clk s' = clk s"
    and "alone_ok net t r iss (res s) p \<Longrightarrow> alone_ok net t r iss (res s') q"
  shows "alone net t r iss s'"
  using assms by (auto simp: alone_def at_def)

lemma alone_at:
  "alone net t r iss s \<Longrightarrow> at s i iss' p \<Longrightarrow> iss' = iss \<and> clk s = t \<and> alone_ok net t r iss (res s) p"
  by (auto simp: alone_def at_def)

lemma alone_progress:
  assumes "progress net s s'" "alone net t r iss s"
  shows "alone net t r iss s'"
  using assms(1)
proof cases
  case (rlock i iss')
  then show ?thesis
    using alone_at [OF assms(2) rlock(2)] by (intro alone_goto [OF assms(2) rlock(2), where q = Reading]) simp_all
next
  case (lookup i iss')
  then show ?thesis
    using alone_at [OF assms(2) lookup(2)]
    by (intro alone_goto [OF assms(2) lookup(2), where q = "Held (map_of (cache (res s)) (jwks_url iss'))"]) simp_all
next
  case (runlock i iss' e)
  then show ?thesis
    using alone_at [OF assms(2) runlock(2)] by (intro alone_goto [OF assms(2) runlock(2), where q = "Looked e"]) simp_all
next
  case (hit i iss' e jwks)
  then show ?thesis
    using alone_at [OF assms(2) hit(2)]
    by (intro alone_goto [OF assms(2) hit(2), where q = "Done (Inr jwks)"]) (simp_all add: fetchSet_def)
next
  case (miss i iss' e)
  then show ?thesis
    using alone_at [OF assms(2) miss(2)] by (intro alone_goto [OF assms(2) miss(2), where q = Fetching]) simp_all
next
  case (fetched i iss' jwks)
  then show ?thesis
    using alone_at [OF assms(2) fetched(2)]
    by (intro alone_goto [OF assms(2) fetched(2), where q = "Fetched jwks"]) simp_all
next
  case (failed i iss' e)
  then show ?thesis
    using alone_at [OF assms(2) failed(2)]
    by (intro alone_goto [OF assms(2) failed(2), where q = "Done (Inl (fetch_error (jwks_url iss') e))"])
      (auto simp: fetchSet_def intro!: exI [of _ "Inl e"])
next
  case (lock i iss' jwks)
  then show ?thesis
    using alone_at [OF assms(2) lock(2)] by (intro alone_goto [OF assms(2) lock(2), where q = "Writing jwks"]) simp_all
next
  case (assign i iss' jwks)
  then show ?thesis
    using alone_at [OF assms(2) assign(2)]
    by (intro alone_goto [OF assms(2) assign(2), where q = "Written jwks"]) simp_all
next
  case (unlock i iss' jwks)
  then show ?thesis
    using alone_at [OF assms(2) unlock(2)]
    by (intro alone_goto [OF assms(2) unlock(2), where q = "Done (Inr jwks)"])
      (auto simp: fetchSet_def intro!: exI [of _ "Inr jwks"])
qed

text \<open>
  C25: the interleaved actions refine the sequential call: a call that runs alone, with the clock
  standing still, ends with the result and the cache of \<open>fetchSet\<close> for one of the answers the network
  may give (which is asked only when the cache has no fresh entry).
\<close>
theorem alone_like_fetchSet:
  assumes "(progress net)\<^sup>*\<^sup>* s s'" and "calls s = [(iss, Begin)]" and "calls s' = [(iss, Done out)]"
  shows "\<exists>a. (out, res s') = fetchSet (\<lambda>_ _. a) (clk s) (clk s) (res s) iss
    \<and> (cache_hit (clk s) (ttl (res s)) (map_of (cache (res s)) (jwks_url iss)) = None \<longrightarrow>
         net (client (res s)) (jwks_url iss) (clk s) a)"
proof -
  have "alone net (clk s) (res s) iss s" using assms(2) by (simp add: alone_def)
  with assms(1) have "alone net (clk s) (res s) iss s'"
    by (induction rule: rtranclp_induct) (auto intro: alone_progress)
  then show ?thesis using assms(3) by (simp add: alone_def)
qed

section \<open>The keys it resolves\<close>

text \<open>The keys a call can return for an issuer: those of its cached set and of the set it may fetch.\<close>

definition known_set ::
  "('c \<Rightarrow> string \<Rightarrow> goerr + 's) \<Rightarrow> ('c, 's) http_resolver \<Rightarrow> string \<Rightarrow> 's \<Rightarrow> bool" where
  "known_set fetch r iss jwks \<longleftrightarrow>
     (\<exists>e. map_of (cache r) (jwks_url iss) = Some e \<and> jwks = entry_set e) \<or> fetch (client r) (jwks_url iss) = Inr jwks"

definition known_keys ::
  "('k, 's) jwk_package \<Rightarrow> ('c \<Rightarrow> string \<Rightarrow> goerr + 's) \<Rightarrow> ('c, 's) http_resolver \<Rightarrow> string \<Rightarrow> pubkey set" where
  "known_keys P fetch r iss = {pub. \<exists>jwks kid. known_set fetch r iss jwks \<and> key_from_set P iss kid jwks = Inr pub}"

lemma fetchSet_known:
  assumes "fetchSet fetch now now' r iss = (Inr jwks, r')"
  shows "known_set fetch r iss jwks"
proof (cases "cache_hit now (ttl r) (map_of (cache r) (jwks_url iss))")
  case None
  then show ?thesis using assms by (auto simp: fetchSet_def known_set_def Let_def split: sum.splits)
next
  case (Some j)
  moreover from this obtain e where "map_of (cache r) (jwks_url iss) = Some e" "j = entry_set e" by (rule cache_hit_Some)
  ultimately show ?thesis using assms by (auto simp: fetchSet_def known_set_def Let_def)
qed

interpretation http: sound_resolver "\<lambda>iss kid. fst (Http_ResolveKey P fetch now now' r iss kid)" "known_keys P fetch r"
  for P fetch now now' r
proof
  fix iss kid pub assume "fst (Http_ResolveKey P fetch now now' r iss kid) = Inr pub"
  then obtain jwks r' where "fetchSet fetch now now' r iss = (Inr jwks, r')" "key_from_set P iss kid jwks = Inr pub"
    by (auto simp: Http_ResolveKey_def split: prod.splits sum.splits)
  then have "known_set fetch r iss jwks \<and> key_from_set P iss kid jwks = Inr pub" using fetchSet_known by simp
  then show "pub \<in> known_keys P fetch r iss" unfolding known_keys_def by blast
qed

section \<open>A concrete run\<close>

text \<open>A network that answers every request at any time with one set per address.\<close>

definition toy_net :: "unit \<Rightarrow> string \<Rightarrow> int \<Rightarrow> goerr + string \<Rightarrow> bool" where
  "toy_net c url t a \<longleftrightarrow> a = Inr (''keys of '' @ url)"

definition toy_resolver :: "(unit, string) http_resolver" where
  "toy_resolver = NewHTTPKeyResolver () None 0"

definition toy_issuer :: string where "toy_issuer = ''https://issuer''"

definition toy_set :: string where "toy_set = ''keys of '' @ jwks_url toy_issuer"

definition toy_state :: "nat \<Rightarrow> bool \<Rightarrow> (unit, string) http_resolver \<Rightarrow> string pc list \<Rightarrow> (unit, string) system" where
  "toy_state n w r ps = \<lparr>res = r, clk = 0, readers = n, writer = w, calls = map (Pair toy_issuer) ps\<rparr>"

definition filled :: "(unit, string) http_resolver" where
  "filled = store (jwks_url toy_issuer) toy_set 0 toy_resolver"

lemma toy_at: "i < length ps \<Longrightarrow> ps ! i = p \<Longrightarrow> at (toy_state n w r ps) i toy_issuer p"
  by (simp add: at_def toy_state_def)

lemma toy_goto: "goto i toy_issuer p (toy_state n w r ps) = toy_state n w r (ps[i := p])"
  by (simp add: goto_def toy_state_def map_update)

lemma toy_simps [simp]:
  "readers (toy_state n w r ps) = n" "writer (toy_state n w r ps) = w" "res (toy_state n w r ps) = r"
  "clk (toy_state n w r ps) = 0"
  "readers_update (\<lambda>_. n') (toy_state n w r ps) = toy_state n' w r ps"
  "writer_update (\<lambda>_. w') (toy_state n w r ps) = toy_state n w' r ps"
  "res_update (\<lambda>_. r') (toy_state n w r ps) = toy_state n w r' ps"
  by (simp_all add: toy_state_def)

lemma toy_steps:
  "progress toy_net (toy_state 0 False r [Begin]) (toy_state 1 False r [Reading])"
  "progress toy_net (toy_state 1 False r [Reading]) (toy_state 1 False r [Held (map_of (cache r) (jwks_url toy_issuer))])"
  "progress toy_net (toy_state 1 False r [Held e]) (toy_state 0 False r [Looked e])"
  "cache_hit 0 (ttl r) e = None \<Longrightarrow>
     progress toy_net (toy_state 0 False r [Looked e]) (toy_state 0 False r [Fetching])"
  "progress toy_net (toy_state 0 False r [Fetching]) (toy_state 0 False r [Fetched toy_set])"
  "progress toy_net (toy_state 0 False r [Fetched j]) (toy_state 0 True r [Writing j])"
  "progress toy_net (toy_state 0 True r [Writing j]) (toy_state 0 True (store (jwks_url toy_issuer) j 0 r) [Written j])"
  "progress toy_net (toy_state 0 True r [Written j]) (toy_state 0 False r [Done (Inr j)])"
  using rlock [where net = toy_net, OF toy_at [of 0 "[Begin]" "Begin" 0 False r]]
    lookup [where net = toy_net, OF toy_at [of 0 "[Reading]" "Reading" 1 False r]]
    runlock [where net = toy_net, OF toy_at [of 0 "[Held e]" "Held e" 1 False r]]
    miss [where net = toy_net, OF toy_at [of 0 "[Looked e]" "Looked e" 0 False r]]
    fetched [where net = toy_net and jwks = toy_set, OF toy_at [of 0 "[Fetching]" "Fetching" 0 False r]]
    lock [where net = toy_net, OF toy_at [of 0 "[Fetched j]" "Fetched j" 0 False r]]
    assign [where net = toy_net, OF toy_at [of 0 "[Writing j]" "Writing j" 0 True r]]
    unlock [where net = toy_net, OF toy_at [of 0 "[Written j]" "Written j" 0 True r]]
  by (simp_all add: toy_goto toy_net_def toy_set_def)

lemma toy_empty: "cache_hit 0 (ttl toy_resolver) (map_of (cache toy_resolver) (jwks_url toy_issuer)) = None"
  by (simp add: toy_resolver_def NewHTTPKeyResolver_def cache_hit_def)

lemma toy_run:
  "(progress toy_net)\<^sup>*\<^sup>* (toy_state 0 False toy_resolver [Begin]) (toy_state 0 True toy_resolver [Writing toy_set])"
  "(progress toy_net)\<^sup>*\<^sup>* (toy_state 0 False toy_resolver [Begin]) (toy_state 0 False filled [Done (Inr toy_set)])"
proof -
  show w: "(progress toy_net)\<^sup>*\<^sup>* (toy_state 0 False toy_resolver [Begin]) (toy_state 0 True toy_resolver [Writing toy_set])"
    using toy_steps(1) [of toy_resolver] toy_steps(2) [of toy_resolver] toy_steps(3) [of toy_resolver]
      toy_steps(4) [OF toy_empty] toy_steps(5) [of toy_resolver] toy_steps(6) [of toy_resolver toy_set]
    by (meson converse_rtranclp_into_rtranclp rtranclp.rtrancl_refl)
  show "(progress toy_net)\<^sup>*\<^sup>* (toy_state 0 False toy_resolver [Begin]) (toy_state 0 False filled [Done (Inr toy_set)])"
    using w toy_steps(7) [of toy_resolver toy_set] toy_steps(8) [of filled toy_set]
    unfolding filled_def by (meson rtranclp.rtrancl_into_rtrancl)
qed

lemma toy_reachable:
  "reachable toy_net (toy_state 0 False toy_resolver [Begin])"
proof -
  have "reachable toy_net (initial toy_resolver 0)"
    by (rule start) (simp add: toy_resolver_def NewHTTPKeyResolver_def)
  then have "reachable toy_net ((initial toy_resolver 0)\<lparr>calls := calls (initial toy_resolver 0) @ [(toy_issuer, Begin)]\<rparr>)"
    by (rule more) (rule invoke)
  then show ?thesis by (simp add: initial_def toy_state_def)
qed

lemma toy_invoke: "reachable toy_net (toy_state n w r ps) \<Longrightarrow> reachable toy_net (toy_state n w r (ps @ [Begin]))"
  using more [OF _ invoke [of toy_net "toy_state n w r ps" toy_issuer]] by (simp add: toy_state_def)

theorem cache_race_free_witness:
  "reachable toy_net (toy_state 0 True toy_resolver [Writing toy_set, Begin])
    \<and> \<not> in_read (Begin :: string pc)"
proof -
  have r: "reachable toy_net (toy_state 0 True toy_resolver [Writing toy_set, Begin])"
    using toy_invoke [OF reachable_progress [OF toy_run(1) toy_reachable]] by simp
  have "at (toy_state 0 True toy_resolver [Writing toy_set, Begin]) 0 toy_issuer (Writing toy_set)"
    "at (toy_state 0 True toy_resolver [Writing toy_set, Begin]) 1 toy_issuer Begin"
    by (simp_all add: at_def toy_state_def)
  from cache_race_free [OF r this] show ?thesis using r by simp
qed

theorem resolved_set_was_served_witness:
  "\<exists>t \<le> 0. toy_net () (toy_issuer @ ''/.well-known/jwks.json'') t (Inr toy_set)"
proof -
  have "at (toy_state 0 False filled [Done (Inr toy_set)]) 0 toy_issuer (Done (Inr toy_set))"
    by (simp add: at_def toy_state_def)
  from resolved_set_was_served [OF reachable_progress [OF toy_run(2) toy_reachable] this]
  show ?thesis by simp
qed

theorem cached_set_is_fresh_witness:
  "\<exists>s t. clk s - t < 300000000000 \<and> stored_at toy_net s toy_issuer toy_set t"
proof -
  let ?d = "Done (Inr toy_set)" and ?e = "Some \<lparr>entry_set = toy_set, fetchedAt = 0\<rparr>"
  let ?s = "\<lambda>p. toy_state 0 False filled [?d, p]" and ?l = "\<lambda>p. toy_state 1 False filled [?d, p]"
  have e: "map_of (cache filled) (jwks_url toy_issuer) = ?e" "ttl filled = 300000000000"
    "client filled = ()"
    by (simp_all add: filled_def store_def toy_resolver_def NewHTTPKeyResolver_def)
  have h: "cache_hit 0 (ttl filled) ?e = Some toy_set" by (simp add: cache_hit_def e since_def)
  have "progress toy_net (?s Begin) (?l Reading)" "progress toy_net (?l Reading) (?l (Held ?e))"
    "progress toy_net (?l (Held ?e)) (?s (Looked ?e))" and hit: "progress toy_net (?s (Looked ?e)) (?s ?d)"
    using rlock [where net = toy_net, OF toy_at [of 1 "[?d, Begin]" "Begin" 0 False filled]]
      lookup [where net = toy_net, OF toy_at [of 1 "[?d, Reading]" "Reading" 1 False filled]]
      runlock [where net = toy_net, OF toy_at [of 1 "[?d, Held ?e]" "Held ?e" 1 False filled]]
      hit [where net = toy_net and jwks = toy_set, OF toy_at [of 1 "[?d, Looked ?e]" "Looked ?e" 0 False filled]] h
    by (simp_all add: toy_goto e)
  then have "(progress toy_net)\<^sup>*\<^sup>* (?s Begin) (?s (Looked ?e))"
    by (meson converse_rtranclp_into_rtranclp rtranclp.rtrancl_refl)
  moreover have "reachable toy_net (?s Begin)"
    using toy_invoke [OF reachable_progress [OF toy_run(2) toy_reachable]] by simp
  ultimately have r: "reachable toy_net (?s (Looked ?e))" by (rule reachable_progress)
  have "at (?s (Looked ?e)) 1 toy_issuer (Looked ?e)" "at (?s ?d) 1 toy_issuer ?d"
    by (simp_all add: at_def toy_state_def)
  from cached_set_is_fresh [OF r hit this]
  have "clk (?s (Looked ?e)) - 0 < 300000000000 \<and> stored_at toy_net (?s (Looked ?e)) toy_issuer toy_set 0"
    by (auto simp: e int64_range_def)
  then show ?thesis by (intro exI)
qed

theorem calls_return_witness:
  "\<exists>s'. (progress toy_net)\<^sup>*\<^sup>* (toy_state 0 False toy_resolver [Begin]) s' \<and> all_done s'"
proof -
  have "answers toy_net" by (simp add: answers_def toy_net_def)
  from calls_return [OF toy_reachable this] show ?thesis by blast
qed

theorem alone_like_fetchSet_witness:
  "\<exists>a. (Inr toy_set, filled) = fetchSet (\<lambda>_ _. a) 0 0 toy_resolver toy_issuer"
  using alone_like_fetchSet [OF toy_run(2), of toy_issuer "Inr toy_set"] by (auto simp: toy_state_def)

end
