(* ===== verification/Spec2Isabelle.thy ===== *)
theory Spec2Isabelle
  imports Witnesses Jwks_Cache
begin

text \<open>
  A verification development of \<open>go-sd-jwt-vc\<close>, a Go library for SD-JWT-VC: JSON Web Tokens whose
  claims the holder can disclose one by one. Three roles work on one wire format. The issuer puts
  the digest of every selective claim in place of the claim and hands out the claims themselves as
  disclosures (\<open>issuer.go\<close>). The holder chooses which disclosures to show and signs a key-binding
  JWT over the rest of the presentation (\<open>holder.go\<close>). The verifier checks signature, validity period,
  disclosures and key binding and returns the claims (\<open>verifier.go\<close>).

  Which theory models which part:
    \<^item> \<open>Prelude\<close>: result values (\<open>error + value\<close>) and their composition, association lists as Go maps,
      64-bit wrap-around, the locales \<open>codec\<close> and \<open>exact_codec\<close> that every pair of printer and parser
      of the program instantiates.
    \<^item> \<open>Go_Bytes\<close>, \<open>Go_Float\<close>, \<open>Go_Json\<close>, \<open>Json_Decode\<close>, \<open>Go_Time\<close>: what the program uses of Go's standard
      library: strings as bytes, UTF-8, base64url without padding, \<open>float64\<close> and its decimal text,
      \<open>encoding/json\<close> in both directions, \<open>time.Time\<close> with its saturating addition.
    \<^item> \<open>Json_Roundtrip\<close>, \<open>Float_Roundtrip\<close>: what is left of a value that goes through \<open>Marshal\<close> and
      \<open>Unmarshal\<close> (\<open>json_norm\<close>), for every value within JSON's limits (\<open>portable\<close>); every float that is
      printed is read back.
    \<^item> \<open>Errors\<close> (\<open>errors.go\<close>): sentinels, the two error types, wrapped errors, \<open>errors.Is\<close> and
      \<open>errors.As\<close>.
    \<^item> \<open>Hashutil\<close> (\<open>internal/hashutil\<close>, \<open>crypto_helpers.go\<close>): hash names and digests. The hash functions
      and the signature checks of Go's \<open>crypto\<close> packages are the fields of the record \<open>crypto\<close>, a
      parameter of everything that uses them.
    \<^item> \<open>Token\<close> (\<open>token.go\<close>) and \<open>Disclosure\<close> (\<open>disclosure.go\<close>): the wire format.
    \<^item> \<open>Jwt\<close>: the compact JWTs and JWKs of \<open>issuer.go\<close> (\<open>signJWT\<close>, \<open>buildCnf\<close>) and \<open>verifier.go\<close>
      (\<open>decodeJWT\<close> to \<open>rsaPublicKeyFromJWK\<close>); \<open>Signer\<close> of \<open>crypto.go\<close> as a record of its methods.
    \<^item> \<open>Issuer\<close>, \<open>Holder\<close>, \<open>Verifier\<close>: the three roles, handler by handler.
    \<^item> \<open>Verifier_Properties\<close>, \<open>Issuance\<close>, \<open>Issue_Success\<close>, \<open>Wire_Types\<close>, \<open>EndToEnd\<close>: what the roles promise,
      each alone and together.
    \<^item> \<open>Native_Keys\<close>, \<open>Recursive_Disclosure\<close>: two uses of the issuer whose tokens the verifier of this
      program rejects: holder keys of the standard library's own types, and selective fields inside a
      claim that is itself selective.
    \<^item> \<open>Key_Resolver\<close> (\<open>KeyResolver\<close> of \<open>crypto.go\<close>): the locale \<open>sound_resolver\<close>, a resolver that keeps to a
      set of trusted keys, and what a verifier gains from it; every resolver of the program
      interprets it.
    \<^item> \<open>Jwx_Adapter\<close>, \<open>Jwks_Cache\<close> (\<open>adapters/jwx/jwx.go\<close>): the signer over a JWK, the static resolver, and
      the HTTP resolver with its cache. The module \<open>lestrrat-go/jwx\<close> is a parameter (\<open>jwk_package\<close>),
      the network a relation between requests and answers.
    \<^item> \<open>Mortgage\<close> (\<open>example/mortgage/main.go\<close>): the example program, as a function from what the process
      meets (the record \<open>world\<close>: generated keys, random bytes, clocks, the local time zone, map orders)
      to the lines it prints, dates and indented JSON included, and the way it ends.
    \<^item> \<open>Sample\<close>, \<open>Witnesses\<close>: a concrete run, and the properties applied to it.

  How state is modelled. Functions of the program become functions with the same name. A Go map is an
  association list, and its order stands for one of the orders in which \<open>range\<close> may visit it; the
  properties hold for every order. The one piece of shared state, the cache of the HTTP resolver, is
  modelled twice: \<open>fetchSet\<close> is one call, and \<open>progress\<close> is the step relation of any number of
  concurrent calls with the read-write mutex, the clock and the network, in which every lock
  operation, map access and request is a step of its own (a lemma of that theory relates the two). The
  randomness is a stream \<open>rng\<close> of byte strings with a position that is threaded through (a read may
  fail); time is an argument. The verifier's digest map points to containers inside the payload, which
  the code updates in place: the model keeps the path of the container and the list of the slots that
  were overwritten, since a write into a container that is no longer part of the payload is not visible
  (\<open>write_back\<close>).

  What the lemmas show: the wire formats are read back as written; \<open>Verify\<close> accepts only presentations
  that are signed by the key the resolver names, in their validity period, whose every disclosure is
  committed to by the signed payload, and whose KB-JWT (if there is one) is signed with the key of
  the \<open>cnf\<close> claim over these very disclosures; it returns the payload with exactly the disclosed
  claims written into the objects that held their digests; every failure names its stage and its
  sentinel; the JWKS cache is free of data races and deadlocks, serves an issuer only what was served
  for that issuer, and no longer than its time to live; and a token issued for a request within JSON's
  limits can be presented and is accepted. Three groups of theorems show inputs on which the parts do
  not fit together: a signer that returns ASN.1 signatures (\<open>Jwx_Adapter\<close>), a holder key of the standard
  library (\<open>Native_Keys\<close>, and with it the example, \<open>Mortgage\<close>), and selective fields inside a selective
  claim (\<open>Recursive_Disclosure\<close>).

  Bounds and fuel. The JSON parser recurses on fuel; \<open>json_fuel\<close> is its start, proportional to the
  input, and \<open>Json_Roundtrip\<close> shows that it suffices for what \<open>Marshal\<close> writes. The nesting limit of
  \<open>encoding/json\<close> (10000) and the two limits of the program (16) are kept; \<open>payload_limit\<close> and
  \<open>value_depth_limit\<close> are bounds on requests that stay below the first of them.

  Go's \<open>int\<close> is taken as 64 bits wide (it is 32 on some platforms, where an RSA exponent is cut further). A
  nil map and an empty one are the same value of the model; \<open>encoding/json\<close> prints the former as \<open>null\<close>,
  which is visible only for a \<open>StructuredClaim\<close> without fields inside a slice. The text of the error for a
  public key of an unknown type leaves out the name of that type.

  Not modelled: a method of \<open>jwx.go\<close> declared on a type of another package, which does not compile; the
  contexts (\<open>ctx\<close>), which the code only passes on; the \<open>extraHeaders\<close> of the issuer's
  configuration are kept but the code never reads them; two different maps with the same content are
  visited by \<open>range\<close> in the same order within one run of the verifier; memory limits; in the JWKS cache,
  clocks that run backwards (\<open>time.Since\<close> reads the monotonic clock) and the preference a
  \<open>sync.RWMutex\<close> gives to waiting writers, which only excludes some of the interleavings considered.
\<close>

end
